(* ===== verification/Server_Prelude.thy ===== *)
theory Server_Prelude
  imports Main "HOL-Library.Word" "HOL-Library.Code_Target_Numeral"
begin

text \<open>
  Shared vocabulary of the development.

  \<^item> Results of calls that may not return normally (\<open>'a res\<close>): the value, an exception or a
    failed assertion, or a call that is still waiting for its environment.
  \<^item> The character and string operations of the C++ standard library that the server uses:
    \<open>std::string_view::find\<close>, \<open>starts_with\<close>, \<open>std::tolower\<close> in the C locale,
    \<open>std::to_string\<close> and \<open>std::from_chars\<close> on unsigned values.
  \<^item> The collections \<open>http_defs\<close>, \<open>net_defs\<close> and \<open>core_defs\<close> that gather the
    definitions of a layer, for the proofs that unfold it.
\<close>

section \<open>Collections\<close>

named_theorems http_defs \<open>definitions of the HTTP layer\<close>
named_theorems net_defs \<open>definitions of the network layer\<close>
named_theorems core_defs \<open>definitions of the core layer\<close>

section \<open>Results\<close>

text \<open>
  A C++ call returns a value (\<open>Ret\<close>), leaves by an exception, an access out of bounds or a failed
  \<^verbatim>\<open>assert\<close> (\<open>Throw\<close>), or has not returned: it still waits for the next
  answer of the operating system (\<open>Blocked\<close>).
\<close>

datatype fault = Assertion_failed | Out_of_bounds | Runtime_error string | Filesystem_error

datatype 'a res = Ret 'a | Throw fault | Blocked

primrec res_bind :: "'a res \<Rightarrow> ('a \<Rightarrow> 'b res) \<Rightarrow> 'b res" where
  "res_bind (Ret x) f = f x"
| "res_bind (Throw e) f = Throw e"
| "res_bind Blocked f = Blocked"

lemma res_bind_eq_Ret [simp]: "res_bind m f = Ret y \<longleftrightarrow> (\<exists>x. m = Ret x \<and> f x = Ret y)"
  by (cases m) auto

lemma res_bind_eq_Throw:
  "res_bind m f = Throw e \<longleftrightarrow> m = Throw e \<or> (\<exists>x. m = Ret x \<and> f x = Throw e)"
  by (cases m) auto

lemma res_bind_assoc: "res_bind (res_bind m f) g = res_bind m (\<lambda>x. res_bind (f x) g)"
  by (cases m) auto

lemma res_bind_Ret_right [simp]: "res_bind m Ret = m"
  by (cases m) auto

lemma res_bind_cong [fundef_cong]:
  "m = m' \<Longrightarrow> (\<And>x. m' = Ret x \<Longrightarrow> f x = g x) \<Longrightarrow> res_bind m f = res_bind m' g"
  by (cases m') auto

text \<open>Calls that also change a state: the state is kept when the call is left by a fault.\<close>

definition bind_st :: "'a res \<times> 's \<Rightarrow> ('a \<Rightarrow> 's \<Rightarrow> 'b res \<times> 's) \<Rightarrow> 'b res \<times> 's" where
  "bind_st m f = (case m of (Ret x, s) \<Rightarrow> f x s | (Throw e, s) \<Rightarrow> (Throw e, s) | (Blocked, s) \<Rightarrow> (Blocked, s))"

lemma bind_st_simps [simp]:
  "bind_st (Ret x, s) f = f x s" "bind_st (Throw e, s) f = (Throw e, s)"
  "bind_st (Blocked, s) f = (Blocked, s)"
  by (simp_all add: bind_st_def)

lemma bind_st_eq_Ret:
  "bind_st m f = (Ret y, s') \<longleftrightarrow> (\<exists>x s. m = (Ret x, s) \<and> f x s = (Ret y, s'))"
  by (cases m) (auto simp: bind_st_def split: res.splits)

lemma bind_st_eq_Throw:
  "bind_st m f = (Throw e, s') \<longleftrightarrow>
     m = (Throw e, s') \<or> (\<exists>x s. m = (Ret x, s) \<and> f x s = (Throw e, s'))"
  by (cases m) (auto simp: bind_st_def split: res.splits)

section \<open>Characters\<close>

abbreviation CR :: char where "CR \<equiv> CHR 0x0D"
abbreviation LF :: char where "LF \<equiv> CHR 0x0A"
abbreviation SP :: char where "SP \<equiv> CHR '' ''"
abbreviation HT :: char where "HT \<equiv> CHR 0x09"
abbreviation CRLF :: string where "CRLF \<equiv> [CR, LF]"

text \<open>\<^verbatim>\<open>std::tolower\<close>: the program never calls \<^verbatim>\<open>setlocale\<close>, so the C locale holds
  and only the letters A to Z change.\<close>

definition tolower :: "char \<Rightarrow> char" where
  "tolower c = (if 65 \<le> (of_char c :: nat) \<and> (of_char c :: nat) \<le> 90
                then char_of ((of_char c :: nat) + 32) else c)"

lemma tolower_idem [simp]: "tolower (tolower c) = tolower c"
proof (cases "65 \<le> (of_char c :: nat) \<and> (of_char c :: nat) \<le> 90")
  case True
  then have "(of_char (char_of ((of_char c :: nat) + 32) :: char) :: nat) = of_char c + 32"
    by simp
  with True show ?thesis by (simp add: tolower_def)
next
  case False
  then have "tolower c = c" by (simp only: tolower_def if_False)
  then show ?thesis by simp
qed

section \<open>Searching strings\<close>

text \<open>\<^verbatim>\<open>std::string_view::find(char)\<close>: the position of the first occurrence,
  \<open>None\<close> for \<^verbatim>\<open>npos\<close>.\<close>

fun find_char :: "char \<Rightarrow> string \<Rightarrow> nat option" where
  "find_char c [] = None"
| "find_char c (x # xs) = (if x = c then Some 0 else map_option Suc (find_char c xs))"

text \<open>\<^verbatim>\<open>find(char, pos)\<close>: the search starts at \<open>pos\<close>.\<close>

definition find_char_from :: "char \<Rightarrow> string \<Rightarrow> nat \<Rightarrow> nat option" where
  "find_char_from c s pos = map_option (\<lambda>i. pos + i) (find_char c (drop pos s))"

lemma find_char_None [simp]: "find_char c s = None \<longleftrightarrow> c \<notin> set s"
  by (induction s) auto

lemma find_char_notin [simp]: "c \<notin> set s \<Longrightarrow> find_char c s = None"
  by simp

lemma find_char_SomeD:
  "find_char c s = Some i \<Longrightarrow> i < length s \<and> s ! i = c \<and> c \<notin> set (take i s)"
proof (induction s arbitrary: i)
  case (Cons x xs)
  then show ?case by (cases i) (auto split: if_splits)
qed simp

lemma find_char_append [simp]: "c \<notin> set a \<Longrightarrow> find_char c (a @ c # b) = Some (length a)"
  by (induction a) auto

lemma find_char_append_left: "find_char c a = Some i \<Longrightarrow> find_char c (a @ b) = Some i"
  by (induction a arbitrary: i) (auto split: if_splits)

lemma find_char_append_right:
  "c \<notin> set a \<Longrightarrow> find_char c (a @ b) = map_option (\<lambda>i. length a + i) (find_char c b)"
proof (induction a)
  case Nil
  then show ?case by (simp add: option.map_ident)
next
  case (Cons x a)
  then have "find_char c ((x # a) @ b) = map_option Suc (map_option (\<lambda>i. length a + i) (find_char c b))"
    by auto
  also have "\<dots> = map_option (\<lambda>i. length (x # a) + i) (find_char c b)"
    by (simp add: option.map_comp comp_def)
  finally show ?case .
qed

text \<open>\<^verbatim>\<open>std::string::starts_with\<close>.\<close>

fun starts_with :: "string \<Rightarrow> string \<Rightarrow> bool" where
  "starts_with s [] = True"
| "starts_with [] (p # ps) = False"
| "starts_with (x # xs) (p # ps) = (x = p \<and> starts_with xs ps)"

lemma starts_with_iff: "starts_with s p \<longleftrightarrow> take (length p) s = p"
  by (induction s p rule: starts_with.induct) auto

lemma starts_with_append [simp]: "starts_with (p @ s) p"
  by (simp add: starts_with_iff)

lemma starts_with_length: "starts_with s p \<Longrightarrow> length p \<le> length s"
  by (induction s p rule: starts_with.induct) auto

section \<open>Decimal numbers\<close>

definition is_digit :: "char \<Rightarrow> bool" where
  "is_digit c \<longleftrightarrow> 48 \<le> (of_char c :: nat) \<and> (of_char c :: nat) \<le> 57"

definition digit_char :: "nat \<Rightarrow> char" where
  "digit_char d = char_of (48 + d)"

definition digit_val :: "char \<Rightarrow> nat" where
  "digit_val c = of_char c - 48"

text \<open>\<^verbatim>\<open>std::to_string\<close> on an unsigned value.\<close>

fun to_string :: "nat \<Rightarrow> string" where
  "to_string n = (if n < 10 then [digit_char n] else to_string (n div 10) @ [digit_char (n mod 10)])"

declare to_string.simps [simp del]

definition dec_value :: "string \<Rightarrow> nat" where
  "dec_value s = foldl (\<lambda>a c. a * 10 + digit_val c) 0 s"

text \<open>
  \<^verbatim>\<open>std::from_chars\<close> into a 64-bit unsigned value: the longest prefix of digits is
  read; no digit is \<^verbatim>\<open>invalid_argument\<close> and a value that does not fit is
  \<^verbatim>\<open>result_out_of_range\<close>, both \<open>None\<close> here.
\<close>

definition from_chars :: "string \<Rightarrow> nat option" where
  "from_chars s =
     (let ds = takeWhile is_digit s
      in if ds = [] then None
         else if dec_value ds < 2 ^ 64 then Some (dec_value ds) else None)"

lemma digit_char_digit [simp]: "d < 10 \<Longrightarrow> is_digit (digit_char d)"
  by (simp add: is_digit_def digit_char_def)

lemma digit_val_char [simp]: "d < 10 \<Longrightarrow> digit_val (digit_char d) = d"
  by (simp add: digit_val_def digit_char_def)

lemma dec_value_snoc [simp]: "dec_value (s @ [c]) = dec_value s * 10 + digit_val c"
  by (simp add: dec_value_def)

lemma dec_value_to_string [simp]: "dec_value (to_string n) = n"
proof (induction n rule: to_string.induct)
  case (1 n)
  show ?case
  proof (cases "n < 10")
    case True
    then show ?thesis by (subst to_string.simps) (simp add: dec_value_def)
  next
    case False
    with "1.IH" show ?thesis by (subst to_string.simps) simp
  qed
qed

lemma to_string_digits: "\<forall>c \<in> set (to_string n). is_digit c"
proof (induction n rule: to_string.induct)
  case (1 n)
  then show ?case by (subst to_string.simps) auto
qed

lemma to_string_nonempty [simp]: "to_string n \<noteq> []"
  by (subst to_string.simps) simp

lemma takeWhile_to_string: "takeWhile is_digit (to_string n) = to_string n"
  using to_string_digits [of n] by (simp add: takeWhile_eq_all_conv)

lemma from_chars_to_string: "from_chars (to_string n) = (if n < 2 ^ 64 then Some n else None)"
  by (simp add: from_chars_def takeWhile_to_string)

lemma from_chars_bound: "from_chars s = Some n \<Longrightarrow> n < 2 ^ 64"
  by (auto simp: from_chars_def Let_def split: if_splits)

lemma is_digit_not [simp]:
  "is_digit c \<Longrightarrow> c \<noteq> LF" "is_digit c \<Longrightarrow> c \<noteq> CR" "is_digit c \<Longrightarrow> c \<noteq> SP"
  "is_digit c \<Longrightarrow> c \<noteq> HT" "is_digit c \<Longrightarrow> c \<noteq> CHR '':''"
  by (auto simp: is_digit_def)

lemma to_string_notin [simp]:
  "LF \<notin> set (to_string n)" "CR \<notin> set (to_string n)" "SP \<notin> set (to_string n)"
  "HT \<notin> set (to_string n)"
  using to_string_digits [of n] by (auto dest: is_digit_not)

end
