(* ===== verification/Buffer.thy ===== *)
theory Buffer
  imports Server_Prelude
begin

text \<open>
  \<open>include/net/buffer.hpp\<close> and \<open>src/net/buffer.cpp\<close>: a contiguous byte buffer with a
  read and a write cursor, and the interface its clients rely on, a queue of bytes with
  room at its end (locale \<open>byte_queue\<close>, interpreted as \<open>bq\<close>).

  Positions and sizes are \<open>std::size_t\<close> values of the source; the invariant \<open>buf_wf\<close>
  keeps every subtraction non-negative. A failed \<open>assert\<close> and a copy past the end of the
  storage are faults.
\<close>

section \<open>State and operations\<close>

record Buffer =
  buf_data :: string
  read_pos :: nat
  write_pos :: nat

definition DEFAULT_CAPACITY :: nat where
  "DEFAULT_CAPACITY = 16 * 1024"

definition new_buffer :: "nat \<Rightarrow> Buffer" where
  "new_buffer cap = \<lparr>buf_data = replicate cap (CHR 0x00), read_pos = 0, write_pos = 0\<rparr>"

definition capacity :: "Buffer \<Rightarrow> nat" where
  "capacity b = length (buf_data b)"

definition writable_bytes :: "Buffer \<Rightarrow> nat" where
  "writable_bytes b = length (buf_data b) - write_pos b"

definition readable_bytes :: "Buffer \<Rightarrow> nat" where
  "readable_bytes b = write_pos b - read_pos b"

definition readable :: "Buffer \<Rightarrow> string" where
  "readable b = take (readable_bytes b) (drop (read_pos b) (buf_data b))"

definition buf_empty :: "Buffer \<Rightarrow> bool" where
  "buf_empty b \<longleftrightarrow> readable_bytes b = 0"

text \<open>
  A copy of \<open>xs\<close> to \<open>write_ptr()\<close>: the kernel in \<open>recv\<close>, \<open>memcpy\<close> in
  \<open>enqueue_write\<close>. It stays inside the storage or is a fault.
\<close>

definition copy_in :: "string \<Rightarrow> Buffer \<Rightarrow> Buffer res" where
  "copy_in xs b =
     (if write_pos b + length xs \<le> length (buf_data b)
      then Ret (b\<lparr>buf_data := take (write_pos b) (buf_data b) @ xs @
                             drop (write_pos b + length xs) (buf_data b)\<rparr>)
      else Throw Out_of_bounds)"

definition commit_write :: "nat \<Rightarrow> Buffer \<Rightarrow> Buffer res" where
  "commit_write n b =
     (if n \<le> writable_bytes b then Ret (b\<lparr>write_pos := write_pos b + n\<rparr>)
      else Throw Assertion_failed)"

definition consume :: "nat \<Rightarrow> Buffer \<Rightarrow> Buffer res" where
  "consume n b =
     (if n \<le> readable_bytes b then Ret (b\<lparr>read_pos := read_pos b + n\<rparr>)
      else Throw Assertion_failed)"

definition consume_all :: "Buffer \<Rightarrow> Buffer" where
  "consume_all b = b\<lparr>read_pos := 0, write_pos := 0\<rparr>"

definition compact :: "Buffer \<Rightarrow> nat \<times> Buffer" where
  "compact b =
     (if read_pos b = 0 then (0, b)
      else (let unread = readable_bytes b;
                b1 = (if unread > 0
                      then b\<lparr>buf_data := readable b @ drop unread (buf_data b)\<rparr> else b)
            in (read_pos b, b1\<lparr>read_pos := 0, write_pos := unread\<rparr>)))"

definition reserve :: "nat \<Rightarrow> Buffer \<Rightarrow> Buffer" where
  "reserve new_capacity b =
     (if new_capacity \<le> length (buf_data b) then b
      else (let b1 = snd (compact b)
            in b1\<lparr>buf_data := buf_data b1 @
                             replicate (new_capacity - length (buf_data b1)) (CHR 0x00)\<rparr>))"

definition buf_reset :: "Buffer \<Rightarrow> Buffer" where
  "buf_reset b = b\<lparr>read_pos := 0, write_pos := 0\<rparr>"

lemmas buffer_defs [net_defs] =
  capacity_def writable_bytes_def readable_bytes_def readable_def buf_empty_def copy_in_def
  commit_write_def consume_def consume_all_def compact_def reserve_def buf_reset_def

text \<open>The two steps that \<open>recv\<close> and \<open>enqueue_write\<close> make.\<close>

definition append_bytes :: "string \<Rightarrow> Buffer \<Rightarrow> Buffer res" where
  "append_bytes xs b = res_bind (copy_in xs b) (commit_write (length xs))"

section \<open>Invariant\<close>

definition buf_wf :: "Buffer \<Rightarrow> bool" where
  "buf_wf b \<longleftrightarrow> read_pos b \<le> write_pos b \<and> write_pos b \<le> length (buf_data b)"

lemma wf_new_buffer [simp]: "buf_wf (new_buffer cap)" "readable (new_buffer cap) = []"
  "capacity (new_buffer cap) = cap" "writable_bytes (new_buffer cap) = cap"
  by (simp_all add: buf_wf_def new_buffer_def buffer_defs)

lemma length_readable: "buf_wf b \<Longrightarrow> length (readable b) = readable_bytes b"
  by (auto simp: buf_wf_def readable_def readable_bytes_def)

lemma readable_alt: "readable b = drop (read_pos b) (take (write_pos b) (buf_data b))"
  by (simp add: readable_def readable_bytes_def drop_take)

lemma buf_empty_iff: "buf_wf b \<Longrightarrow> buf_empty b \<longleftrightarrow> readable b = []"
  by (simp add: buf_empty_def length_readable [symmetric])

lemma room_bound: "buf_wf b \<Longrightarrow> length (readable b) + writable_bytes b \<le> capacity b"
  by (simp add: buf_wf_def buffer_defs)

lemma append_bytes_ok:
  assumes "buf_wf b" and "length xs \<le> writable_bytes b"
  shows "\<exists>b'. append_bytes xs b = Ret b' \<and> buf_wf b' \<and> readable b' = readable b @ xs \<and>
    writable_bytes b' = writable_bytes b - length xs \<and> capacity b' = capacity b"
proof -
  let ?n = "length xs"
  let ?d = "take (write_pos b) (buf_data b) @ xs @ drop (write_pos b + ?n) (buf_data b)"
  have le: "write_pos b + ?n \<le> length (buf_data b)" and wp: "read_pos b \<le> write_pos b"
    using assms by (auto simp: buf_wf_def writable_bytes_def)
  have "append_bytes xs b = Ret (b\<lparr>buf_data := ?d, write_pos := write_pos b + ?n\<rparr>)" (is "_ = Ret ?b'")
    using le by (simp add: append_bytes_def copy_in_def commit_write_def writable_bytes_def)
  moreover have "readable ?b' = readable b @ xs"
    using le wp by (simp add: readable_alt)
  ultimately show ?thesis
    using le wp by (auto simp: buf_wf_def writable_bytes_def capacity_def)
qed

lemma append_bytes_overflow:
  "writable_bytes b < length xs \<Longrightarrow> append_bytes xs b = Throw Out_of_bounds"
proof -
  assume "writable_bytes b < length xs"
  then have "\<not> write_pos b + length xs \<le> length (buf_data b)" by (simp add: writable_bytes_def)
  then show ?thesis by (simp add: append_bytes_def copy_in_def)
qed

lemma consume_ok:
  assumes "buf_wf b" and "n \<le> length (readable b)"
  shows "\<exists>b'. consume n b = Ret b' \<and> buf_wf b' \<and> readable b' = drop n (readable b) \<and>
    writable_bytes b' = writable_bytes b \<and> capacity b' = capacity b"
  using assms by (auto simp: buf_wf_def buffer_defs drop_take add.commute)

lemma consume_all_ok:
  "buf_wf (consume_all b) \<and> readable (consume_all b) = [] \<and>
   writable_bytes (consume_all b) = capacity b \<and> capacity (consume_all b) = capacity b"
  by (simp add: buf_wf_def buffer_defs)

lemma compact_ok:
  assumes "buf_wf b" and "compact b = (n, b')"
  shows "buf_wf b' \<and> readable b' = readable b \<and> capacity b' = capacity b \<and>
    writable_bytes b' = writable_bytes b + n \<and> writable_bytes b' + length (readable b') = capacity b"
  using assms by (auto simp: buf_wf_def buffer_defs Let_def split: if_splits)

lemma reserve_ok:
  assumes "buf_wf b"
  shows "buf_wf (reserve n b) \<and> readable (reserve n b) = readable b \<and>
    capacity (reserve n b) = max n (capacity b) \<and>
    (capacity b < n \<longrightarrow> writable_bytes (reserve n b) = n - length (readable b))"
proof (cases "n \<le> length (buf_data b)")
  case True
  with assms show ?thesis by (simp add: reserve_def capacity_def)
next
  case False
  obtain k b1 where c: "compact b = (k, b1)" by force
  note ok = compact_ok [OF assms c]
  let ?b = "b1\<lparr>buf_data := buf_data b1 @ replicate (n - length (buf_data b1)) (CHR 0x00)\<rparr>"
  have r: "reserve n b = ?b" using False c by (simp add: reserve_def)
  have wf: "buf_wf b1" "read_pos b1 = 0 \<or> read_pos b1 \<noteq> 0" using ok by auto
  have "readable ?b = readable b1" using wf by (simp add: readable_alt buf_wf_def)
  moreover have "length (readable b1) = readable_bytes b1" using wf length_readable by blast
  ultimately show ?thesis
    using ok wf False r by (auto simp: capacity_def buf_wf_def readable_bytes_def writable_bytes_def)
qed

lemma buf_reset_consume_all: "buf_reset b = consume_all b"
  by (simp add: buf_reset_def consume_all_def)

section \<open>The interface: a queue of bytes with room at its end\<close>

text \<open>A client's calls: bytes are put at the end or discarded at the front.\<close>

datatype queue_op = Put string | Discard nat | Squeeze | Grow nat

fun put_bytes :: "queue_op list \<Rightarrow> string" where
  "put_bytes [] = []"
| "put_bytes (Put xs # ops) = xs @ put_bytes ops"
| "put_bytes (_ # ops) = put_bytes ops"

fun discarded :: "queue_op list \<Rightarrow> nat" where
  "discarded [] = 0"
| "discarded (Discard n # ops) = n + discarded ops"
| "discarded (_ # ops) = discarded ops"

locale byte_queue =
  fixes content :: "'b \<Rightarrow> string"
    and room :: "'b \<Rightarrow> nat"
    and total :: "'b \<Rightarrow> nat"
    and valid :: "'b \<Rightarrow> bool"
    and put :: "string \<Rightarrow> 'b \<Rightarrow> 'b res"
    and discard :: "nat \<Rightarrow> 'b \<Rightarrow> 'b res"
    and squeeze :: "'b \<Rightarrow> nat \<times> 'b"
    and grow :: "nat \<Rightarrow> 'b \<Rightarrow> 'b"
  assumes fits: "valid b \<Longrightarrow> length (content b) + room b \<le> total b"
    and put_ok: "valid b \<Longrightarrow> length xs \<le> room b \<Longrightarrow>
      \<exists>b'. put xs b = Ret b' \<and> valid b' \<and> content b' = content b @ xs \<and>
        room b' = room b - length xs \<and> total b' = total b"
    and put_overflow: "room b < length xs \<Longrightarrow> put xs b = Throw Out_of_bounds"
    and discard_ok: "valid b \<Longrightarrow> n \<le> length (content b) \<Longrightarrow>
      \<exists>b'. discard n b = Ret b' \<and> valid b' \<and> content b' = drop n (content b) \<and>
        room b' = room b \<and> total b' = total b"
    and discard_underflow: "valid b \<Longrightarrow> length (content b) < n \<Longrightarrow> discard n b = Throw Assertion_failed"
    and squeeze_ok: "valid b \<Longrightarrow> squeeze b = (k, b') \<Longrightarrow>
      valid b' \<and> content b' = content b \<and> total b' = total b \<and> room b' = room b + k \<and>
      room b' + length (content b') = total b"
    and grow_ok: "valid b \<Longrightarrow> total b < n \<Longrightarrow>
      valid (grow n b) \<and> content (grow n b) = content b \<and> total (grow n b) = n \<and>
      room (grow n b) = n - length (content b)"
    and grow_small: "n \<le> total b \<Longrightarrow> grow n b = b"
begin

lemma put_Ret:
  assumes "valid b" and "put xs b = Ret b'"
  shows "valid b'" "content b' = content b @ xs" "total b' = total b" "length xs \<le> room b"
proof -
  have le: "length xs \<le> room b" using assms put_overflow [of b xs] by (cases "room b < length xs") auto
  with put_ok [OF assms(1) le] assms(2)
  show "valid b'" "content b' = content b @ xs" "total b' = total b" "length xs \<le> room b" by auto
qed

lemma discard_Ret:
  assumes "valid b" and "discard n b = Ret b'"
  shows "valid b'" "content b' = drop n (content b)" "total b' = total b" "n \<le> length (content b)"
proof -
  have le: "n \<le> length (content b)"
    using assms discard_underflow [of b n] by (cases "length (content b) < n") auto
  with discard_ok [OF assms(1) le] assms(2)
  show "valid b'" "content b' = drop n (content b)" "total b' = total b" "n \<le> length (content b)"
    by auto
qed

primrec run_op :: "queue_op \<Rightarrow> 'b \<Rightarrow> 'b res" where
  "run_op (Put xs) b = put xs b"
| "run_op (Discard n) b = discard n b"
| "run_op Squeeze b = Ret (snd (squeeze b))"
| "run_op (Grow n) b = Ret (grow n b)"

primrec run_ops :: "queue_op list \<Rightarrow> 'b \<Rightarrow> 'b res" where
  "run_ops [] b = Ret b"
| "run_ops (c # cs) b = res_bind (run_op c b) (run_ops cs)"

text \<open>First in, first out: what is discarded, then what is left, is what was put.\<close>

lemma run_ops_fifo:
  assumes "valid b" and "run_ops ops b = Ret b'"
  shows "valid b' \<and> discarded ops \<le> length (content b @ put_bytes ops) \<and>
    content b' = drop (discarded ops) (content b @ put_bytes ops)"
  using assms
proof (induction ops arbitrary: b)
  case (Cons c cs)
  then obtain b1 where 1: "run_op c b = Ret b1" "run_ops cs b1 = Ret b'" by auto
  show ?case
  proof (cases c)
    case (Put xs)
    with 1 have "put xs b = Ret b1" by simp
    note p = put_Ret [OF Cons.prems(1) this]
    from Cons.IH [OF p(1) 1(2)] p Put show ?thesis by simp
  next
    case (Discard n)
    with 1 have "discard n b = Ret b1" by simp
    note d = discard_Ret [OF Cons.prems(1) this]
    from Cons.IH [OF d(1) 1(2)] d Discard show ?thesis by (auto simp: add.commute)
  next
    case Squeeze
    with 1 have "squeeze b = (fst (squeeze b), b1)" by (cases "squeeze b") simp
    with squeeze_ok [OF Cons.prems(1) this] Cons.IH [OF _ 1(2)] Squeeze show ?thesis by simp
  next
    case (Grow n)
    with 1 have "b1 = grow n b" by simp
    moreover have "total b < n \<or> b1 = b" using calculation grow_small [of n b] by (cases "total b < n") auto
    ultimately have "valid b1 \<and> content b1 = content b" using grow_ok Cons.prems(1) by auto
    with Cons.IH [OF _ 1(2)] Grow show ?thesis by simp
  qed
qed simp

text \<open>
  One round of a client that makes room: squeeze, and if that is not enough, double. Either
  the room is there after it or the store has doubled with all its free space at the end.
\<close>

definition round :: "nat \<Rightarrow> 'b \<Rightarrow> 'b" where
  "round n b = (let b1 = snd (squeeze b) in if room b1 < n then grow (total b1 * 2) b1 else b1)"

lemma round_ok:
  assumes "valid b" and "0 < total b"
  shows "valid (round n b)" "content (round n b) = content b"
    "room (round n b) + length (content b) = total (round n b)"
    "n \<le> room (round n b) \<and> total (round n b) = total b \<or>
     total b < n + length (content b) \<and> total (round n b) = 2 * total b"
proof -
  obtain k b1 where s: "squeeze b = (k, b1)" by force
  note sq = squeeze_ok [OF assms(1) s]
  have g: "valid (grow (total b1 * 2) b1) \<and> content (grow (total b1 * 2) b1) = content b1 \<and>
      total (grow (total b1 * 2) b1) = total b1 * 2 \<and>
      room (grow (total b1 * 2) b1) = total b1 * 2 - length (content b1)"
    using grow_ok [of b1 "total b1 * 2"] sq assms(2) by simp
  have le: "length (content b) \<le> total b" using fits [OF assms(1)] by simp
  show "valid (round n b)" "content (round n b) = content b"
    "room (round n b) + length (content b) = total (round n b)"
    "n \<le> room (round n b) \<and> total (round n b) = total b \<or>
     total b < n + length (content b) \<and> total (round n b) = 2 * total b"
    using s sq g le by (auto simp: round_def Let_def)
qed

end

interpretation bq: byte_queue readable writable_bytes capacity buf_wf append_bytes consume compact reserve
proof
  fix b :: Buffer and xs :: string and n k :: nat and b' :: Buffer
  show "buf_wf b \<Longrightarrow> length (readable b) + writable_bytes b \<le> capacity b"
    by (rule room_bound)
  show "buf_wf b \<Longrightarrow> length xs \<le> writable_bytes b \<Longrightarrow>
      \<exists>b'. append_bytes xs b = Ret b' \<and> buf_wf b' \<and> readable b' = readable b @ xs \<and>
        writable_bytes b' = writable_bytes b - length xs \<and> capacity b' = capacity b"
    by (rule append_bytes_ok)
  show "writable_bytes b < length xs \<Longrightarrow> append_bytes xs b = Throw Out_of_bounds"
    by (rule append_bytes_overflow)
  show "buf_wf b \<Longrightarrow> n \<le> length (readable b) \<Longrightarrow>
      \<exists>b'. consume n b = Ret b' \<and> buf_wf b' \<and> readable b' = drop n (readable b) \<and>
        writable_bytes b' = writable_bytes b \<and> capacity b' = capacity b"
    by (rule consume_ok)
  show "buf_wf b \<Longrightarrow> length (readable b) < n \<Longrightarrow> consume n b = Throw Assertion_failed"
    by (simp add: consume_def length_readable)
  show "buf_wf b \<Longrightarrow> compact b = (k, b') \<Longrightarrow>
      buf_wf b' \<and> readable b' = readable b \<and> capacity b' = capacity b \<and>
      writable_bytes b' = writable_bytes b + k \<and> writable_bytes b' + length (readable b') = capacity b"
    by (rule compact_ok)
  show "buf_wf b \<Longrightarrow> capacity b < n \<Longrightarrow>
      buf_wf (reserve n b) \<and> readable (reserve n b) = readable b \<and> capacity (reserve n b) = n \<and>
      writable_bytes (reserve n b) = n - length (readable b)"
    using reserve_ok [of b n] by simp
  show "n \<le> capacity b \<Longrightarrow> reserve n b = b"
    by (simp add: reserve_def capacity_def)
qed

section \<open>Properties\<close>

primrec buffer_op :: "queue_op \<Rightarrow> Buffer \<Rightarrow> Buffer res" where
  "buffer_op (Put xs) b = append_bytes xs b"
| "buffer_op (Discard n) b = consume n b"
| "buffer_op Squeeze b = Ret (snd (compact b))"
| "buffer_op (Grow n) b = Ret (reserve n b)"

primrec buffer_ops :: "queue_op list \<Rightarrow> Buffer \<Rightarrow> Buffer res" where
  "buffer_ops [] b = Ret b"
| "buffer_ops (c # cs) b = res_bind (buffer_op c b) (buffer_ops cs)"

lemma bq_run_ops: "bq.run_ops ops b = buffer_ops ops b"
proof (induction ops arbitrary: b)
  case (Cons c cs)
  then have "bq.run_ops cs = buffer_ops cs" by blast
  then show ?case by (cases c) simp_all
qed simp

text \<open>
  C27 The buffer refines a queue of bytes: whatever sequence of writes (copy and commit),
  consumes, compactions and growths returns, the cursors stay in order, no more was consumed
  than written, and the readable bytes are the bytes written less those consumed, in order.
\<close>

theorem buffer_fifo:
  assumes "buffer_ops ops (new_buffer cap) = Ret b"
  shows "buf_wf b \<and> discarded ops \<le> length (put_bytes ops) \<and>
    readable b = drop (discarded ops) (put_bytes ops)"
  using bq.run_ops_fifo [of "new_buffer cap" ops b] assms by (simp add: bq_run_ops)

theorem buffer_fifo_witness:
  "\<exists>b. buffer_ops [Put ''abc'', Discard 2, Squeeze, Put ''de'', Grow 8, Discard 1] (new_buffer 4) = Ret b \<and>
     buf_wf b \<and> readable b = ''de''"
proof -
  let ?ops = "[Put ''abc'', Discard 2, Squeeze, Put ''de'', Grow 8, Discard 1]"
  let ?b = "\<lparr>buf_data = ''cde'' @ replicate 5 (CHR 0x00), read_pos = 1, write_pos = 3\<rparr>"
  have 1: "buffer_ops ?ops (new_buffer 4) = Ret ?b" by code_simp
  have 2: "put_bytes ?ops = ''abcde''" "discarded ?ops = 3" by code_simp+
  from buffer_fifo [OF 1] have "buf_wf ?b \<and> readable ?b = ''de''" unfolding 2 by simp
  with 1 show ?thesis by blast
qed

end
