(* ===== verification/Kernel.thy ===== *)
theory Kernel
  imports Server_Prelude
begin

text \<open>
  The operating system as the network layer sees it. The answers of the calls are data: each
  descriptor has a script of what \<open>recv\<close> and \<open>send\<close> will report, the listening
  socket one of what \<open>accept4\<close> will report, \<open>epoll_wait\<close> one of ready lists. A
  non-blocking call on an empty script reports \<open>EAGAIN\<close>. Scripts are arbitrary, so a
  theorem over all kernels covers every finite interaction. What the calls did is recorded:
  the bytes accepted per descriptor, the descriptors closed, the epoll interest list.
\<close>

unbundle bit_operations_syntax

section \<open>Errors\<close>

datatype errno = EAGAIN | EINTR | ECONNRESET | EPIPE | ECONNABORTED | EMFILE | EBADF | ENOENT
  | EEXIST | Other_errno string

fun strerror :: "errno \<Rightarrow> string" where
  "strerror EAGAIN = ''Resource temporarily unavailable''"
| "strerror EINTR = ''Interrupted system call''"
| "strerror ECONNRESET = ''Connection reset by peer''"
| "strerror EPIPE = ''Broken pipe''"
| "strerror ECONNABORTED = ''Software caused connection abort''"
| "strerror EMFILE = ''Too many open files''"
| "strerror EBADF = ''Bad file descriptor''"
| "strerror ENOENT = ''No such file or directory''"
| "strerror EEXIST = ''File exists''"
| "strerror (Other_errno s) = s"

text \<open>\<open>throw_errno\<close> of \<open>socket.cpp\<close> and \<open>epoll.cpp\<close>.\<close>

definition throw_errno :: "string \<Rightarrow> errno \<Rightarrow> fault" where
  "throw_errno ctx e = Runtime_error (ctx @ '': '' @ strerror e)"

section \<open>State\<close>

text \<open>
  \<open>Rx_bytes []\<close> is the end of the stream; a \<open>Tx_ok n\<close> accepts up to \<open>n + 1\<close>
  bytes, since a stream socket never accepts 0 of a non-empty request.
\<close>

datatype rx_event = Rx_bytes string | Rx_err errno
datatype tx_event = Tx_ok nat | Tx_err errno
datatype accept_event = Acc_ok int "rx_event list" "tx_event list" | Acc_err errno

record EpollEvent =
  ev_events :: "32 word"
  ev_fd :: int

datatype ready_event = Ready "EpollEvent list" | Wait_err errno

record kernel =
  clock :: int
  open_fds :: "int set"
  fd_flags :: "int \<Rightarrow> 32 word"
  rx :: "int \<Rightarrow> rx_event list"
  tx :: "int \<Rightarrow> tx_event list"
  sent :: "int \<Rightarrow> string"
  file_data :: "int \<Rightarrow> string"
  closes :: "int list"
  interest :: "int \<Rightarrow> 32 word option"
  socket_script :: "(errno + int) list"
  accept_script :: "accept_event list"
  ready_script :: "ready_event list"
  raw_events_size :: nat
  eventfd_count :: nat

text \<open>The kernel of a process that has opened nothing and that nobody talks to.\<close>

definition idle_kernel :: kernel where
  "idle_kernel =
     \<lparr>clock = 0, open_fds = {}, fd_flags = (\<lambda>_. 0), rx = (\<lambda>_. []), tx = (\<lambda>_. []),
      sent = (\<lambda>_. []), file_data = (\<lambda>_. []), closes = [], interest = (\<lambda>_. None),
      socket_script = [], accept_script = [], ready_script = [], raw_events_size = 0,
      eventfd_count = 0\<rparr>"

section \<open>Calls\<close>

definition sys_close :: "int \<Rightarrow> 'a kernel_scheme \<Rightarrow> 'a kernel_scheme" where
  "sys_close f k =
     k\<lparr>closes := closes k @ [f], open_fds := open_fds k - {f}, interest := (interest k)(f := None)\<rparr>"

text \<open>\<open>recv\<close>, \<open>n\<close> bytes at most: the bytes and the rest of the script.\<close>

fun sys_recv :: "nat \<Rightarrow> rx_event list \<Rightarrow> (errno + string) \<times> rx_event list" where
  "sys_recv n [] = (Inl EAGAIN, [])"
| "sys_recv n (Rx_err e # s) = (Inl e, s)"
| "sys_recv n (Rx_bytes xs # s) =
     (if length xs \<le> n then (Inr xs, s) else (Inr (take n xs), Rx_bytes (drop n xs) # s))"

text \<open>
  A scripted \<open>Rx_err EAGAIN\<close> separates what is there now from what arrives later.
\<close>

definition rx_now :: "rx_event list \<Rightarrow> rx_event list" where
  "rx_now s = takeWhile (\<lambda>e. e \<noteq> Rx_err EAGAIN) s"

definition rx_later :: "rx_event list \<Rightarrow> rx_event list" where
  "rx_later s = drop 1 (dropWhile (\<lambda>e. e \<noteq> Rx_err EAGAIN) s)"

definition next_tx :: "int \<Rightarrow> 'a kernel_scheme \<Rightarrow> tx_event \<times> 'a kernel_scheme" where
  "next_tx f k =
     (if f \<notin> open_fds k then (Tx_err EBADF, k)
      else case tx k f of
        [] \<Rightarrow> (Tx_err EAGAIN, k)
      | ev # s \<Rightarrow> (ev, k\<lparr>tx := (tx k)(f := s)\<rparr>))"

definition sys_send :: "int \<Rightarrow> string \<Rightarrow> 'a kernel_scheme \<Rightarrow> (errno + nat) \<times> 'a kernel_scheme" where
  "sys_send f xs k =
     (case next_tx f k of
        (Tx_err e, k1) \<Rightarrow> (Inl e, k1)
      | (Tx_ok n, k1) \<Rightarrow>
          (Inr (length (take (n + 1) xs)),
           k1\<lparr>sent := (sent k1)(f := sent k1 f @ take (n + 1) xs)\<rparr>))"

definition sys_sendfile ::
  "int \<Rightarrow> int \<Rightarrow> nat \<Rightarrow> nat \<Rightarrow> 'a kernel_scheme \<Rightarrow> (errno + nat) \<times> 'a kernel_scheme" where
  "sys_sendfile f g off cnt k =
     (if g \<notin> open_fds k then (Inl EBADF, k) else
      case next_tx f k of
        (Tx_err e, k1) \<Rightarrow> (Inl e, k1)
      | (Tx_ok n, k1) \<Rightarrow>
          (let xs = take (n + 1) (take cnt (drop off (file_data k1 g)))
           in (Inr (length xs), k1\<lparr>sent := (sent k1)(f := sent k1 f @ xs)\<rparr>)))"

text \<open>\<open>fcntl\<close> with \<open>F_GETFL\<close> and \<open>F_SETFL\<close>, \<open>socket\<close>, \<open>accept4\<close>, \<open>epoll_ctl\<close>.\<close>

definition O_NONBLOCK :: "32 word" where "O_NONBLOCK = 0x800"

definition sys_getfl :: "int \<Rightarrow> 'a kernel_scheme \<Rightarrow> errno + 32 word" where
  "sys_getfl f k = (if f \<in> open_fds k then Inr (fd_flags k f) else Inl EBADF)"

definition sys_setfl :: "int \<Rightarrow> 32 word \<Rightarrow> 'a kernel_scheme \<Rightarrow> errno option \<times> 'a kernel_scheme" where
  "sys_setfl f w k =
     (if f \<in> open_fds k then (None, k\<lparr>fd_flags := (fd_flags k)(f := w)\<rparr>) else (Some EBADF, k))"

definition sys_socket :: "'a kernel_scheme \<Rightarrow> (errno + int) \<times> 'a kernel_scheme" where
  "sys_socket k =
     (case socket_script k of
        [] \<Rightarrow> (Inl EMFILE, k)
      | Inl e # s \<Rightarrow> (Inl e, k\<lparr>socket_script := s\<rparr>)
      | Inr f # s \<Rightarrow>
          (Inr f, k\<lparr>socket_script := s, open_fds := insert f (open_fds k),
                   fd_flags := (fd_flags k)(f := O_NONBLOCK), interest := (interest k)(f := None)\<rparr>))"

definition sys_accept4 :: "int \<Rightarrow> 'a kernel_scheme \<Rightarrow> (errno + int) \<times> 'a kernel_scheme" where
  "sys_accept4 l k =
     (if l \<notin> open_fds k then (Inl EBADF, k) else
      case accept_script k of
        [] \<Rightarrow> (Inl EAGAIN, k)
      | Acc_err e # s \<Rightarrow> (Inl e, k\<lparr>accept_script := s\<rparr>)
      | Acc_ok f r t # s \<Rightarrow>
          (Inr f, k\<lparr>accept_script := s, open_fds := insert f (open_fds k),
                   fd_flags := (fd_flags k)(f := O_NONBLOCK), rx := (rx k)(f := r),
                   tx := (tx k)(f := t), sent := (sent k)(f := []),
                   interest := (interest k)(f := None)\<rparr>))"

datatype ctl_op = Ctl_add | Ctl_mod | Ctl_del

fun sys_epoll_ctl :: "ctl_op \<Rightarrow> int \<Rightarrow> 32 word \<Rightarrow> 'a kernel_scheme \<Rightarrow> errno option \<times> 'a kernel_scheme" where
  "sys_epoll_ctl c f w k =
     (if f \<notin> open_fds k then (Some EBADF, k)
      else case (c, interest k f) of
        (Ctl_add, None) \<Rightarrow> (None, k\<lparr>interest := (interest k)(f := Some w)\<rparr>)
      | (Ctl_add, Some _) \<Rightarrow> (Some EEXIST, k)
      | (Ctl_mod, None) \<Rightarrow> (Some ENOENT, k)
      | (Ctl_mod, Some _) \<Rightarrow> (None, k\<lparr>interest := (interest k)(f := Some w)\<rparr>)
      | (Ctl_del, None) \<Rightarrow> (Some ENOENT, k)
      | (Ctl_del, Some _) \<Rightarrow> (None, k\<lparr>interest := (interest k)(f := None)\<rparr>))"

text \<open>
  \<open>epoll_wait\<close>: at most \<open>m\<close> events, the others stay ready. Without an answer it
  times out, or never returns when the timeout is negative.
\<close>

definition sys_epoll_wait :: "nat \<Rightarrow> int \<Rightarrow> 'a kernel_scheme \<Rightarrow> (errno + EpollEvent list) res \<times> 'a kernel_scheme" where
  "sys_epoll_wait m timeout k =
     (case ready_script k of
        [] \<Rightarrow> (if timeout < 0 then Blocked else Ret (Inr []), k)
      | Wait_err e # s \<Rightarrow> (Ret (Inl e), k\<lparr>ready_script := s\<rparr>)
      | Ready evs # s \<Rightarrow>
          (Ret (Inr (take m evs)),
           k\<lparr>ready_script := (if length evs \<le> m then s else Ready (drop m evs) # s)\<rparr>))"

text \<open>\<open>eventfd\<close>: a write adds to the counter, a read returns and clears it.\<close>

definition sys_eventfd_write :: "'a kernel_scheme \<Rightarrow> 'a kernel_scheme" where
  "sys_eventfd_write k = k\<lparr>eventfd_count := eventfd_count k + 1\<rparr>"

definition sys_eventfd_read :: "'a kernel_scheme \<Rightarrow> 'a kernel_scheme" where
  "sys_eventfd_read k = k\<lparr>eventfd_count := 0\<rparr>"

lemmas sys_defs = sys_close_def sys_send_def sys_sendfile_def sys_getfl_def sys_setfl_def
  sys_socket_def sys_accept4_def sys_eventfd_write_def sys_eventfd_read_def

section \<open>Lemmas\<close>

text \<open>A call on a script consumes it; its size is the measure of the loops.\<close>

lemma next_tx_cases:
  assumes "next_tx f k = (ev, k1)"
  shows "ev = Tx_err EBADF \<and> f \<notin> open_fds k \<and> k1 = k \<or> ev = Tx_err EAGAIN \<and> k1 = k \<and> tx k f = [] \<or>
    f \<in> open_fds k \<and> tx k f = ev # tl (tx k f) \<and> k1 = k\<lparr>tx := (tx k)(f := tl (tx k f))\<rparr>"
  using assms by (auto simp: next_tx_def split: if_splits list.splits)

fun rx_size :: "rx_event list \<Rightarrow> nat" where
  "rx_size [] = 0"
| "rx_size (Rx_err e # s) = Suc (rx_size s)"
| "rx_size (Rx_bytes xs # s) = Suc (length xs) + rx_size s"

lemma sys_recv_progress:
  "(Inr xs, s') = sys_recv n s \<Longrightarrow> xs \<noteq> [] \<Longrightarrow> rx_size s' < rx_size s"
  "(Inl EINTR, s') = sys_recv n s \<Longrightarrow> rx_size s' < rx_size s"
  by (cases s rule: rx_size.cases; auto split: if_splits)+

end
