(* ===== verification/Owned_Fd.thy ===== *)
theory Owned_Fd
  imports Kernel "HOL-Library.Multiset"
begin

text \<open>
  The contract of the classes that own a file descriptor (\<open>Socket\<close>, \<open>Epoll\<close>,
  \<open>SendfileOp\<close>): a destructor, a move constructor and a move assignment. The locale
  \<open>fd_handle\<close> states the laws of one call each; its lemma \<open>run_owned\<close> shows what they
  give for every program over many objects: a descriptor is closed exactly once, when its
  owner goes.
\<close>

section \<open>Programs over handles\<close>

text \<open>
  The objects of a program are a list; a move constructor adds one at the end. The object
  of a destructor stays in the list, without a descriptor. An assignment checks for self-move,
  as the classes do.
\<close>

datatype handle_op = Move_construct nat | Move_assign nat nat | Destroy nat

fun handle_step ::
  "('h \<Rightarrow> 'k \<Rightarrow> 'h \<times> 'k) \<Rightarrow> ('h \<Rightarrow> 'h \<times> 'h) \<Rightarrow> ('h \<Rightarrow> 'h \<Rightarrow> 'k \<Rightarrow> 'h \<times> 'h \<times> 'k) \<Rightarrow>
   handle_op \<Rightarrow> 'h list \<times> 'k \<Rightarrow> 'h list \<times> 'k" where
  "handle_step rel mv asg (Move_construct i) (hs, k) =
     (if i < length hs then case mv (hs ! i) of (new, old) \<Rightarrow> (hs[i := old] @ [new], k) else (hs, k))"
| "handle_step rel mv asg (Move_assign i j) (hs, k) =
     (if i < length hs \<and> j < length hs \<and> i \<noteq> j
      then case asg (hs ! i) (hs ! j) k of (a, b, k1) \<Rightarrow> (hs[i := a, j := b], k1)
      else (hs, k))"
| "handle_step rel mv asg (Destroy i) (hs, k) =
     (if i < length hs then case rel (hs ! i) k of (h, k1) \<Rightarrow> (hs[i := h], k1) else (hs, k))"

definition handle_run ::
  "('h \<Rightarrow> 'k \<Rightarrow> 'h \<times> 'k) \<Rightarrow> ('h \<Rightarrow> 'h \<times> 'h) \<Rightarrow> ('h \<Rightarrow> 'h \<Rightarrow> 'k \<Rightarrow> 'h \<times> 'h \<times> 'k) \<Rightarrow>
   handle_op list \<Rightarrow> 'h list \<times> 'k \<Rightarrow> 'h list \<times> 'k" where
  "handle_run rel mv asg ops s = fold (handle_step rel mv asg) ops s"

section \<open>The contract\<close>

definition owns :: "int \<Rightarrow> int multiset" where
  "owns f = (if 0 \<le> f then {#f#} else {#})"

lemma owns_invalid [simp]: "owns (- 1) = {#}"
  by (simp add: owns_def)

lemma sum_list_update:
  "i < length xs \<Longrightarrow>
   sum_list (map f (xs[i := x])) + f (xs ! i) = sum_list (map f xs) + (f x :: 'a multiset)"
proof (induction xs arbitrary: i)
  case (Cons y ys)
  then show ?case by (cases i) (auto simp: ac_simps)
qed simp

locale fd_handle =
  fixes hfd :: "'h \<Rightarrow> int"
    and release :: "'h \<Rightarrow> 'k \<Rightarrow> 'h \<times> 'k"
    and move :: "'h \<Rightarrow> 'h \<times> 'h"
    and assign :: "'h \<Rightarrow> 'h \<Rightarrow> 'k \<Rightarrow> 'h \<times> 'h \<times> 'k"
    and closed :: "'k \<Rightarrow> int list"
  assumes release: "-1 \<le> hfd h \<Longrightarrow> release h k = (h', k') \<Longrightarrow>
      hfd h' = -1 \<and> (\<exists>cs. closed k' = closed k @ cs \<and> mset cs = owns (hfd h))"
    and move: "move h = (new, old) \<Longrightarrow> hfd new = hfd h \<and> hfd old = -1"
    and assign: "-1 \<le> hfd a \<Longrightarrow> assign a b k = (a', b', k') \<Longrightarrow>
      hfd a' = hfd b \<and> hfd b' = -1 \<and> (\<exists>cs. closed k' = closed k @ cs \<and> mset cs = owns (hfd a))"
begin

definition owned :: "'h list \<Rightarrow> int multiset" where
  "owned hs = sum_list (map (owns \<circ> hfd) hs)"

definition sane :: "'h list \<Rightarrow> bool" where
  "sane hs \<longleftrightarrow> (\<forall>h \<in> set hs. -1 \<le> hfd h)"

lemma owned_update:
  "i < length hs \<Longrightarrow> owned (hs[i := h]) + owns (hfd (hs ! i)) = owned hs + owns (hfd h)"
  using sum_list_update [of i hs "owns \<circ> hfd" h] by (simp add: owned_def)

lemma sane_nth: "sane hs \<Longrightarrow> i < length hs \<Longrightarrow> -1 \<le> hfd (hs ! i)"
  by (simp add: sane_def)

lemma sane_update: "sane hs \<Longrightarrow> -1 \<le> hfd h \<Longrightarrow> sane (hs[i := h])"
  by (auto simp: sane_def dest: set_update_subset_insert [THEN subsetD])

lemma step_owned:
  assumes "sane hs" and "handle_step release move assign c (hs, k) = (hs', k')"
  shows "sane hs' \<and> (\<exists>cs. closed k' = closed k @ cs \<and> mset cs + owned hs' = owned hs)"
proof (cases c)
  case (Move_construct i)
  show ?thesis
  proof (cases "i < length hs")
    case True
    obtain new old where m: "move (hs ! i) = (new, old)" by force
    from move [OF m] have f: "hfd new = hfd (hs ! i)" "hfd old = -1" by auto
    from True m assms(2) Move_construct have e: "hs' = hs[i := old] @ [new]" "k' = k" by auto
    have "owned hs' = owned hs"
      using owned_update [OF True, of old] f e by (simp add: owned_def)
    moreover have "sane hs'"
      using sane_update [OF assms(1), of old i] sane_nth [OF assms(1) True] f e by (simp add: sane_def)
    ultimately show ?thesis using e by simp
  qed (use assms Move_construct in simp)
next
  case (Move_assign i j)
  show ?thesis
  proof (cases "i < length hs \<and> j < length hs \<and> i \<noteq> j")
    case True
    obtain a b k1 where m: "assign (hs ! i) (hs ! j) k = (a, b, k1)" by (metis prod_cases3)
    from True m assms(2) Move_assign have e: "hs' = hs[i := a, j := b]" "k' = k1" by auto
    from assign [OF sane_nth m] assms(1) True
    obtain cs where f: "hfd a = hfd (hs ! j)" "hfd b = -1" "closed k' = closed k @ cs"
      "mset cs = owns (hfd (hs ! i))" using e by auto
    have o1: "owned hs' + owns (hfd (hs ! j)) = owned (hs[i := a])"
      using owned_update [of j "hs[i := a]" b] True f e by simp
    have o2: "owned (hs[i := a]) + owns (hfd (hs ! i)) = owned hs + owns (hfd (hs ! j))"
      using owned_update [of i hs a] True f by simp
    have "(mset cs + owned hs') + owns (hfd (hs ! j)) =
        (owned hs' + owns (hfd (hs ! j))) + owns (hfd (hs ! i))"
      unfolding f(4) by (simp only: ac_simps)
    also have "\<dots> = owned hs + owns (hfd (hs ! j))" by (simp only: o1 o2)
    finally have "mset cs + owned hs' = owned hs" by simp
    moreover have "sane hs'"
      using sane_update [OF sane_update [OF assms(1), of a i], of b j] sane_nth [OF assms(1)] True f e
      by simp
    ultimately show ?thesis using f by blast
  qed (use assms Move_assign in auto)
next
  case (Destroy i)
  show ?thesis
  proof (cases "i < length hs")
    case True
    obtain h k1 where m: "release (hs ! i) k = (h, k1)" by force
    from True m assms(2) Destroy have e: "hs' = hs[i := h]" "k' = k1" by auto
    from release [OF sane_nth [OF assms(1) True] m] e
    obtain cs where f: "hfd h = -1" "closed k' = closed k @ cs" "mset cs = owns (hfd (hs ! i))" by auto
    have "mset cs + owned hs' = owned hs"
      using owned_update [OF True, of h] f e by (simp add: add.commute)
    moreover have "sane hs'" using sane_update [OF assms(1), of h i] f e by simp
    ultimately show ?thesis using f by blast
  qed (use assms Destroy in simp)
qed

lemma run_owned:
  assumes "sane hs" and "handle_run release move assign ops (hs, k) = (hs', k')"
  shows "sane hs' \<and> (\<exists>cs. closed k' = closed k @ cs \<and> mset cs + owned hs' = owned hs)"
  using assms
proof (induction ops arbitrary: hs k)
  case Nil
  then show ?case by (simp add: handle_run_def)
next
  case (Cons c cs)
  obtain hs1 k1 where s: "handle_step release move assign c (hs, k) = (hs1, k1)" by force
  with Cons.prems(2) have r: "handle_run release move assign cs (hs1, k1) = (hs', k')"
    by (simp add: handle_run_def)
  from step_owned [OF Cons.prems(1) s] obtain cs1 where 1: "sane hs1" "closed k1 = closed k @ cs1"
    "mset cs1 + owned hs1 = owned hs" by auto
  from Cons.IH [OF 1(1) r] obtain cs2 where 2: "sane hs'" "closed k' = closed k1 @ cs2"
    "mset cs2 + owned hs' = owned hs1" by auto
  have "closed k' = closed k @ (cs1 @ cs2)" "mset (cs1 @ cs2) + owned hs' = owned hs"
    using 1 2 by (auto simp: ac_simps)
  with 2(1) show ?case by blast
qed

end

end
