(* ===== verification/Socket.thy ===== *)
theory Socket
  imports Owned_Fd
begin

text \<open>
  \<open>include/net/socket.hpp\<close> and \<open>src/net/socket.cpp\<close>: the owner of a socket descriptor.
  \<open>setsockopt\<close>, \<open>bind\<close> and \<open>listen\<close> are calls whose result the caller gives
  (\<open>errno option\<close>, \<open>None\<close> for success); the code only passes a failure on.
\<close>

record Socket =
  sock_fd :: int

definition INVALID_FD :: int where "INVALID_FD = -1"

definition no_socket :: Socket where "no_socket = \<lparr>sock_fd = INVALID_FD\<rparr>"

definition is_valid :: "Socket \<Rightarrow> bool" where
  "is_valid s \<longleftrightarrow> sock_fd s \<noteq> INVALID_FD"

definition socket_close :: "Socket \<Rightarrow> 'a kernel_scheme \<Rightarrow> Socket \<times> 'a kernel_scheme" where
  "socket_close s k =
     (if sock_fd s \<noteq> INVALID_FD then (s\<lparr>sock_fd := INVALID_FD\<rparr>, sys_close (sock_fd s) k) else (s, k))"

text \<open>The move constructor returns the new object and what is left of the old one.\<close>

definition socket_move :: "Socket \<Rightarrow> Socket \<times> Socket" where
  "socket_move other = (\<lparr>sock_fd = sock_fd other\<rparr>, other\<lparr>sock_fd := INVALID_FD\<rparr>)"

definition socket_assign ::
  "Socket \<Rightarrow> Socket \<Rightarrow> 'a kernel_scheme \<Rightarrow> Socket \<times> Socket \<times> 'a kernel_scheme" where
  "socket_assign s other k =
     (case socket_close s k of (s1, k1) \<Rightarrow>
        (s1\<lparr>sock_fd := sock_fd other\<rparr>, other\<lparr>sock_fd := INVALID_FD\<rparr>, k1))"

section \<open>Construction\<close>

definition set_nonblocking :: "Socket \<Rightarrow> 'a kernel_scheme \<Rightarrow> unit res \<times> 'a kernel_scheme" where
  "set_nonblocking s k =
     (case sys_getfl (sock_fd s) k of
        Inl e \<Rightarrow> (Throw (throw_errno ''fcntl(F_GETFL)'' e), k)
      | Inr flags \<Rightarrow>
          (case sys_setfl (sock_fd s) (flags OR O_NONBLOCK) k of
             (Some e, k1) \<Rightarrow> (Throw (throw_errno ''fcntl(F_SETFL, O_NONBLOCK)'' e), k1)
           | (None, k1) \<Rightarrow> (Ret (), k1)))"

definition socket_of_fd :: "int \<Rightarrow> 'a kernel_scheme \<Rightarrow> Socket res \<times> 'a kernel_scheme" where
  "socket_of_fd raw_fd k =
     (let s = \<lparr>sock_fd = raw_fd\<rparr>
      in if sock_fd s \<noteq> INVALID_FD then bind_st (set_nonblocking s k) (\<lambda>_ k1. (Ret s, k1))
         else (Ret s, k))"

definition make_tcp :: "'a kernel_scheme \<Rightarrow> Socket res \<times> 'a kernel_scheme" where
  "make_tcp k =
     (case sys_socket k of
        (Inl e, k1) \<Rightarrow> (Throw (throw_errno ''socket()'' e), k1)
      | (Inr f, k1) \<Rightarrow> (Ret \<lparr>sock_fd = f\<rparr>, k1))"

section \<open>Configuration\<close>

definition pass_errno :: "string \<Rightarrow> errno option \<Rightarrow> unit res" where
  "pass_errno ctx r = (case r of Some e \<Rightarrow> Throw (throw_errno ctx e) | None \<Rightarrow> Ret ())"

text \<open>The outcomes of the calls of one program run: option, value, descriptor to result.\<close>

record socket_calls =
  setsockopt_int :: "int \<Rightarrow> string \<Rightarrow> int \<Rightarrow> errno option"
  sys_bind :: "int \<Rightarrow> 16 word \<Rightarrow> errno option"
  sys_listen :: "int \<Rightarrow> int \<Rightarrow> errno option"

definition set_reuse_addr :: "socket_calls \<Rightarrow> bool \<Rightarrow> Socket \<Rightarrow> unit res" where
  "set_reuse_addr cs enable s =
     pass_errno ''setsockopt(SO_REUSEADDR)''
       (setsockopt_int cs (sock_fd s) ''SO_REUSEADDR'' (if enable then 1 else 0))"

definition set_reuse_port :: "socket_calls \<Rightarrow> bool \<Rightarrow> Socket \<Rightarrow> unit res" where
  "set_reuse_port cs enable s =
     pass_errno ''setsockopt(SO_REUSEPORT)''
       (setsockopt_int cs (sock_fd s) ''SO_REUSEPORT'' (if enable then 1 else 0))"

definition set_tcp_nodelay :: "socket_calls \<Rightarrow> bool \<Rightarrow> Socket \<Rightarrow> unit res" where
  "set_tcp_nodelay cs enable s =
     pass_errno ''setsockopt(TCP_NODELAY)''
       (setsockopt_int cs (sock_fd s) ''TCP_NODELAY'' (if enable then 1 else 0))"

definition set_recv_buf :: "socket_calls \<Rightarrow> int \<Rightarrow> Socket \<Rightarrow> unit res" where
  "set_recv_buf cs bytes s =
     pass_errno ''setsockopt(SO_RCVBUF)'' (setsockopt_int cs (sock_fd s) ''SO_RCVBUF'' bytes)"

definition set_send_buf :: "socket_calls \<Rightarrow> int \<Rightarrow> Socket \<Rightarrow> unit res" where
  "set_send_buf cs bytes s =
     pass_errno ''setsockopt(SO_SNDBUF)'' (setsockopt_int cs (sock_fd s) ''SO_SNDBUF'' bytes)"

text \<open>\<open>htons\<close> on the little-endian hosts the server is built for: the two bytes change places.\<close>

definition htons :: "16 word \<Rightarrow> 16 word" where
  "htons p = (push_bit 8 p) OR (drop_bit 8 p)"

definition bind_port :: "socket_calls \<Rightarrow> 16 word \<Rightarrow> Socket \<Rightarrow> unit res" where
  "bind_port cs port s = pass_errno ''bind()'' (sys_bind cs (sock_fd s) (htons port))"

definition DEFAULT_BACKLOG :: int where "DEFAULT_BACKLOG = 4096"

definition listen :: "socket_calls \<Rightarrow> int \<Rightarrow> Socket \<Rightarrow> unit res" where
  "listen cs backlog s = pass_errno ''listen()'' (sys_listen cs (sock_fd s) backlog)"

section \<open>Accepting\<close>

definition socket_accept :: "Socket \<Rightarrow> 'a kernel_scheme \<Rightarrow> Socket res \<times> 'a kernel_scheme" where
  "socket_accept s k =
     (case sys_accept4 (sock_fd s) k of
        (Inl e, k1) \<Rightarrow>
          if e = EAGAIN then (Ret no_socket, k1)
          else if e = ECONNABORTED then (Ret no_socket, k1)
          else (Throw (throw_errno ''accept4()'' e), k1)
      | (Inr f, k1) \<Rightarrow> (Ret \<lparr>sock_fd = f\<rparr>, k1))"

lemmas socket_defs [net_defs] =
  INVALID_FD_def no_socket_def is_valid_def socket_close_def socket_move_def socket_assign_def
  set_nonblocking_def socket_of_fd_def make_tcp_def socket_accept_def

section \<open>Ownership\<close>

interpretation sock: fd_handle sock_fd socket_close socket_move socket_assign closes
proof
  fix h h' new old a b a' b' :: Socket and k k' :: "'a kernel_scheme"
  show "-1 \<le> sock_fd h \<Longrightarrow> socket_close h k = (h', k') \<Longrightarrow>
      sock_fd h' = -1 \<and> (\<exists>cs. closes k' = closes k @ cs \<and> mset cs = owns (sock_fd h))"
    by (auto simp: socket_close_def INVALID_FD_def sys_close_def owns_def split: if_splits)
  show "socket_move h = (new, old) \<Longrightarrow> sock_fd new = sock_fd h \<and> sock_fd old = -1"
    by (auto simp: socket_move_def INVALID_FD_def)
  show "-1 \<le> sock_fd a \<Longrightarrow> socket_assign a b k = (a', b', k') \<Longrightarrow>
      sock_fd a' = sock_fd b \<and> sock_fd b' = -1 \<and>
      (\<exists>cs. closes k' = closes k @ cs \<and> mset cs = owns (sock_fd a))"
    by (auto simp: socket_assign_def socket_close_def INVALID_FD_def sys_close_def owns_def split: if_splits)
qed

text \<open>
  Descriptors are owned: whatever moves, assignments and destructions a program makes of
  its sockets, the descriptors closed and those still owned are together those it began
  with, each once. So none is closed twice, and once no object owns one all are closed.
\<close>

lemma sockets_closed_once:
  assumes "\<forall>s \<in> set ss. -1 \<le> sock_fd s"
    and "handle_run socket_close socket_move socket_assign ops (ss, k) = (ss', k')"
  shows "\<exists>cs. closes k' = closes k @ cs \<and>
    mset cs + mset (filter (\<lambda>f. 0 \<le> f) (map sock_fd ss')) = mset (filter (\<lambda>f. 0 \<le> f) (map sock_fd ss))"
proof -
  have o: "sock.owned xs = mset (filter (\<lambda>f. 0 \<le> f) (map sock_fd xs))" for xs
    by (induction xs) (auto simp: sock.owned_def owns_def)
  show ?thesis using sock.run_owned [OF _ assms(2)] assms(1) by (simp add: sock.sane_def o)
qed

lemma sockets_closed_once_witness:
  "\<exists>cs. closes (snd (handle_run socket_close socket_move socket_assign
        [Move_construct 0, Move_assign 1 2, Move_assign 1 1, Destroy 0, Destroy 1]
        ([\<lparr>sock_fd = 7\<rparr>, \<lparr>sock_fd = 8\<rparr>], idle_kernel))) = cs \<and> mset cs = {#7, 8#}"
proof -
  let ?ss = "[\<lparr>sock_fd = 7\<rparr>, \<lparr>sock_fd = 8\<rparr>]"
  let ?ops = "[Move_construct 0, Move_assign 1 2, Move_assign 1 1, Destroy 0, Destroy 1]"
  have 1: "\<forall>s \<in> set ?ss. -1 \<le> sock_fd s" by simp
  obtain ss' k' where r: "handle_run socket_close socket_move socket_assign ?ops (?ss, idle_kernel) = (ss', k')"
    by (meson surj_pair)
  have "map sock_fd ss' = map sock_fd (fst (handle_run socket_close socket_move socket_assign ?ops (?ss, idle_kernel)))"
    by (simp only: r fst_conv)
  also have "\<dots> = [-1, -1, -1]" by code_simp
  finally have f: "map sock_fd ss' = [-1, -1, -1]" .
  from sockets_closed_once [OF 1 r] f show ?thesis
    by (simp only: r snd_conv) (simp add: idle_kernel_def)
qed

text \<open>
  A socket made from a descriptor is non-blocking and its other flags are those it had; for a
  closed descriptor the constructor throws and nothing changes.
\<close>

lemma socket_of_fd_eq:
  "socket_of_fd f k =
     (if f = -1 then (Ret no_socket, k)
      else if f \<in> open_fds k
      then (Ret \<lparr>sock_fd = f\<rparr>, k\<lparr>fd_flags := (fd_flags k)(f := fd_flags k f OR O_NONBLOCK)\<rparr>)
      else (Throw (throw_errno ''fcntl(F_GETFL)'' EBADF), k))"
  by (auto simp: socket_of_fd_def set_nonblocking_def sys_getfl_def sys_setfl_def INVALID_FD_def
      no_socket_def Let_def)

lemma bit_nonblock: "n < 32 \<Longrightarrow> bit (w OR O_NONBLOCK) n = (bit w n \<or> n = 11)"
proof -
  assume n: "n < 32"
  have m: "O_NONBLOCK = push_bit 11 1" by (simp add: O_NONBLOCK_def)
  have "bit O_NONBLOCK n = (n = 11)" using n by (simp only: m bit_push_bit_iff bit_1_iff) auto
  then show ?thesis by (simp add: bit_or_iff)
qed

end
