(* ===== verification/Epoll.thy ===== *)
theory Epoll
  imports Owned_Fd
begin

text \<open>
  \<open>include/net/epoll.hpp\<close> and \<open>src/net/epoll.cpp\<close>: the owner of an epoll instance.
  One instance is modelled, so the interest list is the kernel's. The array into which
  \<open>epoll_wait\<close> writes is thread-local and shared by all instances of a thread; its size is
  the kernel field \<open>raw_events_size\<close>.
\<close>

section \<open>Events\<close>

definition EPOLLIN :: "32 word" where "EPOLLIN = 0x1"
definition EPOLLOUT :: "32 word" where "EPOLLOUT = 0x4"
definition EPOLLERR :: "32 word" where "EPOLLERR = 0x8"
definition EPOLLHUP :: "32 word" where "EPOLLHUP = 0x10"
definition EPOLLRDHUP :: "32 word" where "EPOLLRDHUP = 0x2000"
definition EPOLLET :: "32 word" where "EPOLLET = 0x80000000"

definition is_readable :: "EpollEvent \<Rightarrow> bool" where
  "is_readable e \<longleftrightarrow> ev_events e AND EPOLLIN \<noteq> 0"

definition is_writable :: "EpollEvent \<Rightarrow> bool" where
  "is_writable e \<longleftrightarrow> ev_events e AND EPOLLOUT \<noteq> 0"

definition is_hangup :: "EpollEvent \<Rightarrow> bool" where
  "is_hangup e \<longleftrightarrow> ev_events e AND (EPOLLHUP OR EPOLLRDHUP) \<noteq> 0"

definition is_error :: "EpollEvent \<Rightarrow> bool" where
  "is_error e \<longleftrightarrow> ev_events e AND EPOLLERR \<noteq> 0"

definition is_closed :: "EpollEvent \<Rightarrow> bool" where
  "is_closed e \<longleftrightarrow> is_hangup e \<or> is_error e"

lemmas event_masks = EPOLLIN_def EPOLLOUT_def EPOLLERR_def EPOLLHUP_def EPOLLRDHUP_def EPOLLET_def
lemmas event_defs = is_readable_def is_writable_def is_hangup_def is_error_def is_closed_def

text \<open>The masks are single, distinct bits: each predicate reads its own.\<close>

lemma event_bits:
  "is_readable e \<longleftrightarrow> bit (ev_events e) 0"
  "is_writable e \<longleftrightarrow> bit (ev_events e) 2"
  "is_error e \<longleftrightarrow> bit (ev_events e) 3"
  "is_hangup e \<longleftrightarrow> bit (ev_events e) 4 \<or> bit (ev_events e) 13"
proof -
  have m: "w AND push_bit n 1 \<noteq> 0 \<longleftrightarrow> bit w n" if "n < 32" for w :: "32 word" and n
    using that by (simp add: and_exp_eq_0_iff_not_bit push_bit_eq_mult)
  have b: "w AND EPOLLIN \<noteq> 0 \<longleftrightarrow> bit w 0" "w AND EPOLLOUT \<noteq> 0 \<longleftrightarrow> bit w 2"
    "w AND EPOLLERR \<noteq> 0 \<longleftrightarrow> bit w 3" "w AND EPOLLHUP \<noteq> 0 \<longleftrightarrow> bit w 4"
    "w AND EPOLLRDHUP \<noteq> 0 \<longleftrightarrow> bit w 13" for w
    using m [of 0 w] m [of 2 w] m [of 3 w] m [of 4 w] m [of 13 w] by (simp_all add: event_masks)
  have h: "w AND (EPOLLHUP OR EPOLLRDHUP) \<noteq> 0 \<longleftrightarrow> bit w 4 \<or> bit w 13" for w
    using b(4,5) [of w] by (auto simp: bit.conj_disj_distrib or_eq_0_iff)
  show "is_readable e \<longleftrightarrow> bit (ev_events e) 0"
    "is_writable e \<longleftrightarrow> bit (ev_events e) 2"
    "is_error e \<longleftrightarrow> bit (ev_events e) 3"
    "is_hangup e \<longleftrightarrow> bit (ev_events e) 4 \<or> bit (ev_events e) 13"
    by (simp_all only: event_defs b h)
qed

section \<open>The instance\<close>

record Epoll =
  epfd :: int
  ep_events :: "EpollEvent list"
  n_ready :: nat

definition DEFAULT_MAX_EVENTS :: nat where "DEFAULT_MAX_EVENTS = 1024"

definition no_event :: EpollEvent where "no_event = \<lparr>ev_events = 0, ev_fd = 0\<rparr>"

text \<open>\<open>created\<close> is what \<open>epoll_create1\<close> returned.\<close>

definition make_epoll :: "nat \<Rightarrow> errno + int \<Rightarrow> Epoll res" where
  "make_epoll max_events created =
     (case created of
        Inl e \<Rightarrow> Throw (throw_errno ''epoll_create1'' e)
      | Inr f \<Rightarrow> Ret \<lparr>epfd = f, ep_events = replicate max_events no_event, n_ready = 0\<rparr>)"

definition epoll_destroy :: "Epoll \<Rightarrow> 'a kernel_scheme \<Rightarrow> Epoll \<times> 'a kernel_scheme" where
  "epoll_destroy e k = (if 0 \<le> epfd e then (e\<lparr>epfd := -1\<rparr>, sys_close (epfd e) k) else (e, k))"

definition epoll_move :: "Epoll \<Rightarrow> Epoll \<times> Epoll" where
  "epoll_move other =
     (\<lparr>epfd = epfd other, ep_events = ep_events other, n_ready = n_ready other\<rparr>,
      other\<lparr>epfd := -1, ep_events := [], n_ready := 0\<rparr>)"

definition epoll_assign ::
  "Epoll \<Rightarrow> Epoll \<Rightarrow> 'a kernel_scheme \<Rightarrow> Epoll \<times> Epoll \<times> 'a kernel_scheme" where
  "epoll_assign e other k =
     (let k1 = (if 0 \<le> epfd e then sys_close (epfd e) k else k)
      in (\<lparr>epfd = epfd other, ep_events = ep_events other, n_ready = n_ready other\<rparr>,
          other\<lparr>epfd := -1, ep_events := [], n_ready := 0\<rparr>, k1))"

definition epoll_is_valid :: "Epoll \<Rightarrow> bool" where
  "epoll_is_valid e \<longleftrightarrow> epfd e \<noteq> -1"

section \<open>Registration\<close>

definition epoll_add :: "int \<Rightarrow> 32 word \<Rightarrow> 'a kernel_scheme \<Rightarrow> unit res \<times> 'a kernel_scheme" where
  "epoll_add watched_fd events k =
     (case sys_epoll_ctl Ctl_add watched_fd events k of
        (Some e, k1) \<Rightarrow> (Throw (throw_errno ''epoll_ctl(ADD)'' e), k1)
      | (None, k1) \<Rightarrow> (Ret (), k1))"

definition epoll_modify :: "int \<Rightarrow> 32 word \<Rightarrow> 'a kernel_scheme \<Rightarrow> unit res \<times> 'a kernel_scheme" where
  "epoll_modify watched_fd events k =
     (case sys_epoll_ctl Ctl_mod watched_fd events k of
        (Some e, k1) \<Rightarrow> (Throw (throw_errno ''epoll_ctl(MOD)'' e), k1)
      | (None, k1) \<Rightarrow> (Ret (), k1))"

text \<open>A failure is only logged.\<close>

definition epoll_remove :: "int \<Rightarrow> 'a kernel_scheme \<Rightarrow> 'a kernel_scheme" where
  "epoll_remove watched_fd k = snd (sys_epoll_ctl Ctl_del watched_fd 0 k)"

section \<open>Waiting\<close>

text \<open>Lines 131 to 137: the copy of the events into \<open>events_\<close>, by index from 0.\<close>

definition copy_events :: "EpollEvent list \<Rightarrow> EpollEvent list \<Rightarrow> EpollEvent list res" where
  "copy_events raw evs =
     (if length raw \<le> length evs then Ret (raw @ drop (length raw) evs) else Throw Out_of_bounds)"

definition epoll_wait ::
  "int \<Rightarrow> Epoll \<Rightarrow> 'a kernel_scheme \<Rightarrow> (EpollEvent list \<times> Epoll) res \<times> 'a kernel_scheme" where
  "epoll_wait timeout_ms e k =
     (let k0 = (if raw_events_size k < length (ep_events e)
                then k\<lparr>raw_events_size := length (ep_events e)\<rparr> else k)
      in bind_st (sys_epoll_wait (raw_events_size k0) timeout_ms k0) (\<lambda>r k1.
         case r of
           Inl err \<Rightarrow>
             if err = EINTR then (Ret ([], e\<lparr>n_ready := 0\<rparr>), k1)
             else (Throw (throw_errno ''epoll_wait'' err), k1)
         | Inr raw \<Rightarrow>
             (res_bind (copy_events raw (ep_events e)) (\<lambda>evs.
                Ret (take (length raw) evs, e\<lparr>n_ready := length raw, ep_events := evs\<rparr>)), k1)))"

lemmas epoll_defs [net_defs] =
  epoll_destroy_def epoll_move_def epoll_assign_def epoll_add_def epoll_modify_def epoll_remove_def
  epoll_wait_def copy_events_def

section \<open>Ownership\<close>

interpretation ep: fd_handle epfd epoll_destroy epoll_move epoll_assign closes
proof
  fix h h' new old a b a' b' :: Epoll and k k' :: "'a kernel_scheme"
  show "-1 \<le> epfd h \<Longrightarrow> epoll_destroy h k = (h', k') \<Longrightarrow>
      epfd h' = -1 \<and> (\<exists>cs. closes k' = closes k @ cs \<and> mset cs = owns (epfd h))"
    by (auto simp: epoll_destroy_def sys_close_def owns_def split: if_splits)
  show "epoll_move h = (new, old) \<Longrightarrow> epfd new = epfd h \<and> epfd old = -1"
    by (auto simp: epoll_move_def)
  show "-1 \<le> epfd a \<Longrightarrow> epoll_assign a b k = (a', b', k') \<Longrightarrow>
      epfd a' = epfd b \<and> epfd b' = -1 \<and>
      (\<exists>cs. closes k' = closes k @ cs \<and> mset cs = owns (epfd a))"
    by (auto simp: epoll_assign_def Let_def sys_close_def owns_def split: if_splits)
qed

section \<open>Registration facts\<close>

lemma epoll_add_ok: "f \<in> open_fds k \<Longrightarrow> interest k f = None \<Longrightarrow>
    epoll_add f w k = (Ret (), k\<lparr>interest := (interest k)(f := Some w)\<rparr>)"
  by (simp add: epoll_add_def)

lemma epoll_modify_ok: "f \<in> open_fds k \<Longrightarrow> interest k f \<noteq> None \<Longrightarrow>
    epoll_modify f w k = (Ret (), k\<lparr>interest := (interest k)(f := Some w)\<rparr>)"
  by (auto simp: epoll_modify_def)

lemma epoll_modify_closed: "f \<notin> open_fds k \<Longrightarrow>
    epoll_modify f w k = (Throw (throw_errno ''epoll_ctl(MOD)'' EBADF), k)"
  by (simp add: epoll_modify_def)

lemma epoll_remove_eq:
  "epoll_remove f k = (if f \<in> open_fds k then k\<lparr>interest := (interest k)(f := None)\<rparr> else k)"
  by (cases "interest k f") (auto simp: epoll_remove_def fun_upd_idem)

section \<open>Properties\<close>

text \<open>
  Waiting stays inside the event array: as long as no larger instance has waited on the same
  thread, a call returns the ready events in order, at most as many as the array holds, keeps
  the rest ready for the next call, and keeps that condition.
\<close>

lemma epoll_wait_result:
  assumes "raw_events_size k \<le> length (ep_events e)" and "ready_script k = Ready evs # s"
  shows "\<exists>e' k'. epoll_wait t e k = (Ret (take (length (ep_events e)) evs, e'), k') \<and>
    n_ready e' = length (take (length (ep_events e)) evs) \<and>
    length (ep_events e') = length (ep_events e) \<and> epfd e' = epfd e \<and>
    ready_script k' = (if length evs \<le> length (ep_events e) then s
                       else Ready (drop (length (ep_events e)) evs) # s) \<and>
    raw_events_size k' = length (ep_events e')"
proof -
  let ?n = "length (ep_events e)"
  let ?k0 = "k\<lparr>raw_events_size := ?n\<rparr>"
  have k0: "(if raw_events_size k < ?n then ?k0 else k) = ?k0"
    using assms(1) by (simp add: kernel.equality)
  have le: "length (take ?n evs) \<le> ?n" "take (length (take ?n evs)) evs = take ?n evs"
    by (simp_all add: min_def)
  show ?thesis
    using assms(2) le unfolding epoll_wait_def Let_def k0
    by (simp add: sys_epoll_wait_def copy_events_def del: length_take)
qed

lemma epoll_wait_result_witness:
  "\<exists>e' k'. epoll_wait 100 \<lparr>epfd = 3, ep_events = [no_event], n_ready = 0\<rparr>
      (idle_kernel\<lparr>ready_script := [Ready [\<lparr>ev_events = 1, ev_fd = 5\<rparr>, \<lparr>ev_events = 1, ev_fd = 6\<rparr>]]\<rparr>) =
      (Ret ([\<lparr>ev_events = 1, ev_fd = 5\<rparr>], e'), k') \<and>
    ready_script k' = [Ready [\<lparr>ev_events = 1, ev_fd = 6\<rparr>]]"
  using epoll_wait_result [of
      "idle_kernel\<lparr>ready_script := [Ready [\<lparr>ev_events = 1, ev_fd = 5\<rparr>, \<lparr>ev_events = 1, ev_fd = 6\<rparr>]]\<rparr>"
      "\<lparr>epfd = 3, ep_events = [no_event], n_ready = 0\<rparr>"
      "[\<lparr>ev_events = 1, ev_fd = 5\<rparr>, \<lparr>ev_events = 1, ev_fd = 6\<rparr>]" "[]" 100]
  by (auto simp: idle_kernel_def)

text \<open>
  The array the kernel fills is shared by all instances of a thread and keeps the size of the
  largest: an instance with a smaller array then copies past its end when more events are
  ready than it can hold.
\<close>

lemma epoll_wait_overflow:
  assumes "length (ep_events e) < raw_events_size k" and "ready_script k = Ready evs # s"
    and "length (ep_events e) < length evs"
  shows "fst (epoll_wait t e k) = Throw Out_of_bounds"
  using assms by (simp add: epoll_wait_def sys_epoll_wait_def copy_events_def Let_def)

lemma epoll_wait_overflow_witness:
  "fst (epoll_wait 0 \<lparr>epfd = 3, ep_events = [no_event], n_ready = 0\<rparr>
      (idle_kernel\<lparr>raw_events_size := 1024,
         ready_script := [Ready [\<lparr>ev_events = 1, ev_fd = 5\<rparr>, \<lparr>ev_events = 1, ev_fd = 6\<rparr>]]\<rparr>)) =
    Throw Out_of_bounds"
  by (rule epoll_wait_overflow [where evs = "[\<lparr>ev_events = 1, ev_fd = 5\<rparr>, \<lparr>ev_events = 1, ev_fd = 6\<rparr>]" and s = "[]"])
    (simp_all add: idle_kernel_def)

end
