(* ===== verification/Connection.thy ===== *)
theory Connection
  imports Buffer Socket Epoll
begin

text \<open>
  \<open>include/net/connection.hpp\<close> and \<open>src/net/connection.cpp\<close>: the state machine of one
  TCP connection.

  The callbacks are arguments of the operations that may call them: a function of the
  connection (they get a reference) and of the world, which is any extension of the kernel.
  Loops over the answers of \<open>recv\<close>, \<open>send\<close> and \<open>sendfile\<close> end because each round
  consumes an answer; \<open>recv\<close> takes its answers from a script that is set apart when
  \<open>on_readable\<close> begins, so that a callback cannot change it.
\<close>

section \<open>SendfileOp\<close>

record SendfileOp =
  file_fd :: int
  offset :: int
  remaining :: int

definition make_sendfile :: "int \<Rightarrow> int \<Rightarrow> SendfileOp" where
  "make_sendfile f sz = \<lparr>file_fd = f, offset = 0, remaining = sz\<rparr>"

definition sendfile_active :: "SendfileOp \<Rightarrow> bool" where
  "sendfile_active op \<longleftrightarrow> 0 \<le> file_fd op \<and> 0 < remaining op"

definition sendfile_destroy :: "SendfileOp \<Rightarrow> 'a kernel_scheme \<Rightarrow> SendfileOp \<times> 'a kernel_scheme" where
  "sendfile_destroy op k =
     (if 0 \<le> file_fd op then (op\<lparr>file_fd := -1\<rparr>, sys_close (file_fd op) k) else (op, k))"

definition sendfile_move :: "SendfileOp \<Rightarrow> SendfileOp \<times> SendfileOp" where
  "sendfile_move other =
     (\<lparr>file_fd = file_fd other, offset = offset other, remaining = remaining other\<rparr>,
      other\<lparr>file_fd := -1\<rparr>)"

definition sendfile_assign ::
  "SendfileOp \<Rightarrow> SendfileOp \<Rightarrow> 'a kernel_scheme \<Rightarrow> SendfileOp \<times> SendfileOp \<times> 'a kernel_scheme" where
  "sendfile_assign op other k =
     (let k1 = (if 0 \<le> file_fd op then sys_close (file_fd op) k else k)
      in (op\<lparr>file_fd := file_fd other, offset := offset other, remaining := remaining other\<rparr>,
          other\<lparr>file_fd := -1\<rparr>, k1))"

interpretation sfo: fd_handle file_fd sendfile_destroy sendfile_move sendfile_assign closes
proof
  fix h h' new old a b a' b' :: SendfileOp and k k' :: "'a kernel_scheme"
  show "-1 \<le> file_fd h \<Longrightarrow> sendfile_destroy h k = (h', k') \<Longrightarrow>
      file_fd h' = -1 \<and> (\<exists>cs. closes k' = closes k @ cs \<and> mset cs = owns (file_fd h))"
    by (auto simp: sendfile_destroy_def sys_close_def owns_def split: if_splits)
  show "sendfile_move h = (new, old) \<Longrightarrow> file_fd new = file_fd h \<and> file_fd old = -1"
    by (auto simp: sendfile_move_def)
  show "-1 \<le> file_fd a \<Longrightarrow> sendfile_assign a b k = (a', b', k') \<Longrightarrow>
      file_fd a' = file_fd b \<and> file_fd b' = -1 \<and>
      (\<exists>cs. closes k' = closes k @ cs \<and> mset cs = owns (file_fd a))"
    by (auto simp: sendfile_assign_def Let_def sys_close_def owns_def split: if_splits)
qed

text \<open>\<open>std::optional<SendfileOp>::reset\<close>: the value is destroyed.\<close>

definition sendfile_reset :: "SendfileOp option \<Rightarrow> 'a kernel_scheme \<Rightarrow> 'a kernel_scheme" where
  "sendfile_reset o1 k = (case o1 of None \<Rightarrow> k | Some op \<Rightarrow> snd (sendfile_destroy op k))"

section \<open>Connection\<close>

datatype State = Reading | Writing | Closing | Closed

record Connection =
  socket :: Socket
  conn_id :: "64 word"
  state :: State
  read_buf :: Buffer
  write_buf :: Buffer
  sendfile_op :: "SendfileOp option"
  keep_alive :: bool
  last_active :: int

type_synonym 'k callback = "Connection \<Rightarrow> 'k \<Rightarrow> Connection res \<times> 'k"

definition new_connection :: "Socket \<Rightarrow> 64 word \<Rightarrow> 'a kernel_scheme \<Rightarrow> Connection" where
  "new_connection s i k =
     \<lparr>socket = s, conn_id = i, state = Reading, read_buf = new_buffer DEFAULT_CAPACITY,
      write_buf = new_buffer DEFAULT_CAPACITY, sendfile_op = None, keep_alive = True,
      last_active = clock k\<rparr>"

text \<open>Members are destroyed in reverse order of declaration: the transfer, then the socket.\<close>

definition connection_destroy :: "Connection \<Rightarrow> 'a kernel_scheme \<Rightarrow> 'a kernel_scheme" where
  "connection_destroy c k = snd (socket_close (socket c) (sendfile_reset (sendfile_op c) k))"

definition conn_fd :: "Connection \<Rightarrow> int" where "conn_fd c = sock_fd (socket c)"

definition is_alive :: "Connection \<Rightarrow> bool" where "is_alive c \<longleftrightarrow> state c \<noteq> Closed"

definition set_keep_alive :: "bool \<Rightarrow> Connection \<Rightarrow> Connection" where
  "set_keep_alive val c = c\<lparr>keep_alive := val\<rparr>"

definition touch :: "'a kernel_scheme \<Rightarrow> Connection \<Rightarrow> Connection" where
  "touch k c = c\<lparr>last_active := clock k\<rparr>"

text \<open>The clock counts nanoseconds, the timeout seconds.\<close>

definition is_timed_out :: "int \<Rightarrow> 'a kernel_scheme \<Rightarrow> Connection \<Rightarrow> bool" where
  "is_timed_out timeout k c \<longleftrightarrow> clock k - last_active c > timeout * 1000000000"

definition call_back :: "'k callback option \<Rightarrow> 'k callback" where
  "call_back cb c k = (case cb of None \<Rightarrow> (Ret c, k) | Some f \<Rightarrow> f c k)"

lemma call_back_simps [simp]: "call_back (Some f) = f" "call_back None c k = (Ret c, k)"
  by (simp_all add: call_back_def fun_eq_iff)

definition on_closed :: "'a kernel_scheme callback option \<Rightarrow> 'a kernel_scheme callback" where
  "on_closed on_close c k =
     (if state c = Closed then (Ret c, k)
      else let k1 = sendfile_reset (sendfile_op c) k;
               c1 = c\<lparr>state := Closed, sendfile_op := None\<rparr>
           in bind_st (call_back on_close c1 k1) (\<lambda>c2 k2.
                case socket_close (socket c2) k2 of (s, k3) \<Rightarrow> (Ret (c2\<lparr>socket := s\<rparr>), k3)))"

text \<open>The handlers return false after \<open>on_closed\<close>, \<open>flush_write\<close> returns 0.\<close>

definition close_return ::
  "'r \<Rightarrow> 'a kernel_scheme callback option \<Rightarrow> Connection \<Rightarrow> 'a kernel_scheme \<Rightarrow>
   ('r \<times> Connection) res \<times> 'a kernel_scheme" where
  "close_return r on_close c k = bind_st (on_closed on_close c k) (\<lambda>c1 k1. (Ret (r, c1), k1))"

section \<open>Reading\<close>

text \<open>Lines 56 to 63: whether the buffer is full even after compaction.\<close>

definition make_read_room :: "Connection \<Rightarrow> bool \<times> Connection" where
  "make_read_room c =
     (if writable_bytes (read_buf c) = 0
      then case compact (read_buf c) of (recovered, b) \<Rightarrow> (recovered = 0, c\<lparr>read_buf := b\<rparr>)
      else (False, c))"

function read_loop ::
  "'a kernel_scheme callback option \<Rightarrow> 'a kernel_scheme callback option \<Rightarrow> rx_event list \<Rightarrow>
   Connection \<Rightarrow> 'a kernel_scheme \<Rightarrow> (bool \<times> Connection) res \<times> 'a kernel_scheme" where
  "read_loop on_read on_close script c k =
     (case make_read_room c of (full, c1) \<Rightarrow>
      if full then close_return False on_close c1 k
      else case (if conn_fd c1 \<in> open_fds k then sys_recv (writable_bytes (read_buf c1)) script
                 else (Inl EBADF, [])) of
        (Inr xs, script1) \<Rightarrow>
          if xs = [] then close_return False on_close c1 k
          else (case append_bytes xs (read_buf c1) of
                  Ret b \<Rightarrow> bind_st (call_back on_read (c1\<lparr>read_buf := b\<rparr>) k)
                             (\<lambda>c2 k1. read_loop on_read on_close script1 c2 k1)
                | Throw e \<Rightarrow> (Throw e, k)
                | Blocked \<Rightarrow> (Blocked, k))
      | (Inl e, script1) \<Rightarrow>
          if e = EAGAIN then (Ret (True, c1), k)
          else if e = EINTR then read_loop on_read on_close script1 c1 k
          else close_return False on_close c1 k)"
  by pat_completeness auto
termination
  by (relation "measure (\<lambda>(_, _, script, _, _). rx_size script)")
    (auto split: if_splits intro: sys_recv_progress)

declare read_loop.simps [simp del]

definition on_readable ::
  "'a kernel_scheme callback option \<Rightarrow> 'a kernel_scheme callback option \<Rightarrow> Connection \<Rightarrow>
   'a kernel_scheme \<Rightarrow> (bool \<times> Connection) res \<times> 'a kernel_scheme" where
  "on_readable on_read on_close c k =
     (let s = rx k (conn_fd c)
      in read_loop on_read on_close (rx_now s) (touch k c) (k\<lparr>rx := (rx k)(conn_fd c := rx_later s)\<rparr>))"

section \<open>Writing\<close>

text \<open>
  The loop of \<open>enqueue_write\<close> doubles the capacity until the data fits. It is a partial
  function, \<open>None\<close> when it does not end: a buffer of capacity 0 would stay so.
\<close>

partial_function (option) make_room :: "nat \<Rightarrow> Buffer \<Rightarrow> Buffer option" where
  "make_room len b =
     (if writable_bytes b < len
      then make_room len
             (let b1 = snd (compact b)
              in if writable_bytes b1 < len then reserve (capacity b1 * 2) b1 else b1)
      else Some b)"

definition enqueue_write :: "string \<Rightarrow> Connection \<Rightarrow> Connection res" where
  "enqueue_write data c =
     (case make_room (length data) (write_buf c) of
        None \<Rightarrow> Blocked
      | Some b \<Rightarrow> res_bind (append_bytes data b) (\<lambda>b1. Ret (c\<lparr>write_buf := b1, state := Writing\<rparr>)))"

definition begin_sendfile ::
  "int \<Rightarrow> int \<Rightarrow> Connection \<Rightarrow> 'a kernel_scheme \<Rightarrow> Connection \<times> 'a kernel_scheme" where
  "begin_sendfile f sz c k =
     (c\<lparr>sendfile_op := Some (make_sendfile f sz), state := Writing\<rparr>, sendfile_reset (sendfile_op c) k)"

text \<open>How a loop of \<open>flush_write\<close> ends: done, the socket would block, or an error.\<close>

datatype flush_stop = Go_on | Would_block | Gone

function send_loop ::
  "int \<Rightarrow> Buffer \<Rightarrow> 'a kernel_scheme \<Rightarrow> (flush_stop \<times> Buffer) res \<times> 'a kernel_scheme" where
  "send_loop f b k =
     (if buf_empty b then (Ret (Go_on, b), k)
      else case sys_send f (readable b) k of
        (Inr n, k1) \<Rightarrow>
          if 0 < n then (case consume n b of
                           Ret b1 \<Rightarrow> send_loop f b1 k1
                         | Throw e \<Rightarrow> (Throw e, k1)
                         | Blocked \<Rightarrow> (Blocked, k1))
          else send_loop f b k1
      | (Inl e, k1) \<Rightarrow>
          if e = EAGAIN then (Ret (Would_block, b), k1)
          else if e = EINTR then send_loop f b k1
          else (Ret (Gone, b), k1))"
  by pat_completeness auto
termination
  by (relation "measure (\<lambda>(f, _, k). length (tx k f))")
    (auto simp: sys_send_def next_tx_def split: if_splits list.splits prod.splits tx_event.splits)

declare send_loop.simps [simp del]

function sendfile_loop ::
  "int \<Rightarrow> SendfileOp \<Rightarrow> 'a kernel_scheme \<Rightarrow> (flush_stop \<times> SendfileOp) res \<times> 'a kernel_scheme" where
  "sendfile_loop f op k =
     (if \<not> sendfile_active op then (Ret (Go_on, op), k)
      else case sys_sendfile f (file_fd op) (nat (offset op)) (nat (remaining op)) k of
        (Inr n, k1) \<Rightarrow>
          if 0 < n
          then sendfile_loop f (op\<lparr>offset := offset op + int n, remaining := remaining op - int n\<rparr>) k1
          else (Ret (Go_on, op), k1)
      | (Inl e, k1) \<Rightarrow>
          if e = EAGAIN then (Ret (Would_block, op), k1)
          else if e = EINTR then sendfile_loop f op k1
          else (Ret (Gone, op), k1))"
  by pat_completeness auto
termination
  by (relation "measure (\<lambda>(f, _, k). length (tx k f))")
    (auto simp: sys_sendfile_def next_tx_def Let_def
      split: if_splits list.splits prod.splits tx_event.splits)

declare sendfile_loop.simps [simp del]

text \<open>The cast of an \<open>off_t\<close> to \<open>std::size_t\<close>.\<close>

definition off_to_size :: "int \<Rightarrow> nat" where
  "off_to_size x = nat (x mod 2 ^ 64)"

text \<open>Lines 186 to 195: the next state and the result.\<close>

definition flush_finish ::
  "Connection \<Rightarrow> 'a kernel_scheme \<Rightarrow> (nat \<times> Connection) res \<times> 'a kernel_scheme" where
  "flush_finish c k =
     (let empty = buf_empty (write_buf c);
          sf_done = (case sendfile_op c of None \<Rightarrow> True | Some op \<Rightarrow> \<not> sendfile_active op);
          k1 = (if empty \<and> sf_done then sendfile_reset (sendfile_op c) k else k);
          c1 = (if empty \<and> sf_done
                then c\<lparr>sendfile_op := None, state := if keep_alive c then Reading else Closing\<rparr> else c)
      in (Ret (readable_bytes (write_buf c1) +
               (case sendfile_op c1 of None \<Rightarrow> 0 | Some op \<Rightarrow> off_to_size (remaining op)), c1), k1))"

definition flush_write ::
  "'a kernel_scheme callback option \<Rightarrow> Connection \<Rightarrow> 'a kernel_scheme \<Rightarrow>
   (nat \<times> Connection) res \<times> 'a kernel_scheme" where
  "flush_write on_close c k =
     bind_st (send_loop (conn_fd c) (write_buf c) k) (\<lambda>(stop, b) k1.
       let c1 = c\<lparr>write_buf := b\<rparr>
       in case stop of
            Gone \<Rightarrow> close_return 0 on_close c1 k1
          | Would_block \<Rightarrow> flush_finish c1 k1
          | Go_on \<Rightarrow>
              (case sendfile_op c1 of
                 None \<Rightarrow> flush_finish c1 k1
               | Some op \<Rightarrow>
                   bind_st (sendfile_loop (conn_fd c1) op k1) (\<lambda>(stop2, op2) k2.
                     let c2 = c1\<lparr>sendfile_op := Some op2\<rparr>
                     in if stop2 = Gone then close_return 0 on_close c2 k2
                        else flush_finish c2 k2)))"

definition on_writable ::
  "'a kernel_scheme callback option \<Rightarrow> Connection \<Rightarrow> 'a kernel_scheme \<Rightarrow>
   (bool \<times> Connection) res \<times> 'a kernel_scheme" where
  "on_writable on_close c k =
     bind_st (flush_write on_close (touch k c) k) (\<lambda>(left, c1) k1.
       if state c1 = Closed then (Ret (False, c1), k1)
       else if left = 0 \<and> \<not> keep_alive c1 then close_return False on_close c1 k1
       else (Ret (True, c1), k1))"

lemmas connection_defs [net_defs] =
  make_sendfile_def sendfile_active_def sendfile_destroy_def sendfile_reset_def new_connection_def
  conn_fd_def is_alive_def set_keep_alive_def touch_def call_back_def on_closed_def close_return_def
  make_read_room_def on_readable_def enqueue_write_def begin_sendfile_def flush_finish_def
  flush_write_def on_writable_def

end
