(* ===== verification/Connection_Proofs.thy ===== *)
theory Connection_Proofs
  imports Connection
begin

text \<open>
  The lemmas behind the properties of a connection: what the two loops of \<open>flush_write\<close>
  send, that \<open>enqueue_write\<close> makes room, and the locale \<open>read_client\<close>, the contract
  between \<open>on_readable\<close> and the read callback.
\<close>

section \<open>What a call to the kernel leaves alone\<close>

definition io_frame :: "int \<Rightarrow> 'a kernel_scheme \<Rightarrow> 'a kernel_scheme \<Rightarrow> bool" where
  "io_frame f k k' \<longleftrightarrow>
     (\<exists>t s. k' = k\<lparr>tx := (tx k)(f := t), sent := (sent k)(f := s)\<rparr>)"

lemma io_frame_refl [simp]: "io_frame f k k"
proof -
  have "k = k\<lparr>tx := (tx k)(f := tx k f), sent := (sent k)(f := sent k f)\<rparr>" by simp
  then show ?thesis unfolding io_frame_def by blast
qed

lemma io_frame_tx: "io_frame f k (k\<lparr>tx := (tx k)(f := t)\<rparr>)"
proof -
  have "k\<lparr>tx := (tx k)(f := t)\<rparr> = k\<lparr>tx := (tx k)(f := t), sent := (sent k)(f := sent k f)\<rparr>" by simp
  then show ?thesis unfolding io_frame_def by blast
qed

lemma io_frame_trans: "io_frame f k k1 \<Longrightarrow> io_frame f k1 k2 \<Longrightarrow> io_frame f k k2"
  by (force simp: io_frame_def)

lemma io_frame_sel:
  assumes "io_frame f k k'"
  shows "open_fds k' = open_fds k" "closes k' = closes k" "interest k' = interest k"
    "file_data k' = file_data k" "clock k' = clock k" "rx k' = rx k"
    "kernel.more k' = kernel.more k" "g \<noteq> f \<Longrightarrow> sent k' g = sent k g" "g \<noteq> f \<Longrightarrow> tx k' g = tx k g"
  using assms by (auto simp: io_frame_def)

lemma next_tx_frame: "next_tx f k = (ev, k1) \<Longrightarrow> \<exists>t. k1 = k\<lparr>tx := (tx k)(f := t)\<rparr>"
proof -
  assume "next_tx f k = (ev, k1)"
  from next_tx_cases [OF this] have "k1 = k \<or> k1 = k\<lparr>tx := (tx k)(f := tl (tx k f))\<rparr>" by auto
  then have "k1 = k\<lparr>tx := (tx k)(f := tx k f)\<rparr> \<or> k1 = k\<lparr>tx := (tx k)(f := tl (tx k f))\<rparr>" by simp
  then show ?thesis by blast
qed

lemma sys_send_frame:
  assumes "sys_send f xs k = (r, k')"
  shows "io_frame f k k'"
    "case r of Inl e \<Rightarrow> sent k' f = sent k f
     | Inr n \<Rightarrow> n \<le> length xs \<and> sent k' f = sent k f @ take n xs \<and> (n = 0 \<longrightarrow> xs = [])"
proof -
  obtain ev k1 where nt: "next_tx f k = (ev, k1)" by force
  from next_tx_frame [OF this] obtain t where k1: "k1 = k\<lparr>tx := (tx k)(f := t)\<rparr>" by auto
  then have fr: "io_frame f k k1"
    "io_frame f k (k1\<lparr>sent := (sent k)(f := ys)\<rparr>)" for ys
    by (simp_all add: io_frame_tx) (auto simp: io_frame_def)
  show "io_frame f k k'"
    "case r of Inl e \<Rightarrow> sent k' f = sent k f
     | Inr n \<Rightarrow> n \<le> length xs \<and> sent k' f = sent k f @ take n xs \<and> (n = 0 \<longrightarrow> xs = [])"
    using assms nt k1 fr
    by (auto simp: sys_send_def min_def split: tx_event.splits)
qed

lemma sys_sendfile_frame:
  assumes "sys_sendfile f g off cnt k = (r, k')"
  shows "io_frame f k k'"
    "case r of Inl e \<Rightarrow> sent k' f = sent k f
     | Inr n \<Rightarrow> n \<le> length (take cnt (drop off (file_data k g))) \<and>
               sent k' f = sent k f @ take n (take cnt (drop off (file_data k g))) \<and>
               (n = 0 \<longrightarrow> take cnt (drop off (file_data k g)) = [])"
proof -
  define xs where "xs = take cnt (drop off (file_data k g))"
  obtain ev k1 where nt: "next_tx f k = (ev, k1)" by force
  from next_tx_frame [OF this] obtain t where k1: "k1 = k\<lparr>tx := (tx k)(f := t)\<rparr>" by auto
  then have fr: "io_frame f k k1"
    "io_frame f k (k1\<lparr>sent := (sent k)(f := ys)\<rparr>)" for ys
    by (simp_all add: io_frame_tx) (auto simp: io_frame_def)
  have a: "take (length (take n xs)) xs = take n xs" "length (take n xs) \<le> length xs" for n
    by (simp_all add: min_def)
  have "(g \<notin> open_fds k \<and> r = Inl EBADF \<and> k' = k) \<or> (\<exists>e. r = Inl e \<and> k' = k1) \<or>
      (\<exists>n. r = Inr (length (take (n + 1) xs)) \<and>
         k' = k1\<lparr>sent := (sent k1)(f := sent k1 f @ take (n + 1) xs)\<rparr>)"
    using assms nt k1 by (auto simp: sys_sendfile_def Let_def xs_def split: tx_event.splits if_splits)
  then have h: "io_frame f k k' \<and> (case r of Inl e \<Rightarrow> sent k' f = sent k f
     | Inr n \<Rightarrow> n \<le> length xs \<and> sent k' f = sent k f @ take n xs \<and> (n = 0 \<longrightarrow> xs = []))"
  proof (elim disjE exE conjE)
    fix e assume "r = Inl e" "k' = k1"
    then show ?thesis using k1 fr by simp
  next
    fix n assume r: "r = Inr (length (take (n + 1) xs))"
      and k': "k' = k1\<lparr>sent := (sent k1)(f := sent k1 f @ take (n + 1) xs)\<rparr>"
    have "io_frame f k k'" using k' k1 fr by simp
    moreover have "sent k' f = sent k f @ take (length (take (n + 1) xs)) xs"
      using a(1) [of "n + 1"] k' k1 by simp
    ultimately show ?thesis using r a(2) [of "n + 1"] by (simp del: length_take)
  qed simp
  show "io_frame f k k'" by (rule conjunct1 [OF h])
  show "case r of Inl e \<Rightarrow> sent k' f = sent k f
     | Inr n \<Rightarrow> n \<le> length (take cnt (drop off (file_data k g))) \<and>
               sent k' f = sent k f @ take n (take cnt (drop off (file_data k g))) \<and>
               (n = 0 \<longrightarrow> take cnt (drop off (file_data k g)) = [])"
    by (rule conjunct2 [OF h, unfolded xs_def])
qed

section \<open>The loops of flush_write\<close>

lemma send_loop_ok:
  assumes "buf_wf b"
  shows "\<exists>stop b' k'. send_loop f b k = (Ret (stop, b'), k') \<and> buf_wf b' \<and> io_frame f k k' \<and>
    sent k' f @ readable b' = sent k f @ readable b \<and> (stop = Go_on \<longleftrightarrow> readable b' = []) \<and>
    capacity b' = capacity b"
  using assms
proof (induction f b k rule: send_loop.induct)
  case (1 f b k)
  show ?case
  proof (cases "buf_empty b")
    case True
    with 1(4) have "send_loop f b k = (Ret (Go_on, b), k)" "readable b = []"
      by (simp_all add: send_loop.simps [of f b k] buf_empty_iff)
    with 1(4) show ?thesis by auto
  next
    case False
    obtain r k1 where s: "sys_send f (readable b) k = (r, k1)" by force
    note fr = sys_send_frame [OF s]
    have ne: "readable b \<noteq> []" using False 1(4) by (simp add: buf_empty_iff)
    show ?thesis
    proof (cases r)
      case (Inr n)
      with fr have n: "n \<le> length (readable b)" "sent k1 f = sent k f @ take n (readable b)" by auto
      show ?thesis
      proof (cases "0 < n")
        case True
        from bq.discard_ok [OF 1(4) n(1)] obtain b1 where
          c: "consume n b = Ret b1" "buf_wf b1" "readable b1 = drop n (readable b)"
          "capacity b1 = capacity b" by auto
        from 1(2) [OF False s [symmetric] Inr True c(1,2)] obtain stop b' k' where
          i: "send_loop f b1 k1 = (Ret (stop, b'), k')" "buf_wf b'" "io_frame f k1 k'"
          "sent k' f @ readable b' = sent k1 f @ readable b1" "stop = Go_on \<longleftrightarrow> readable b' = []"
          "capacity b' = capacity b1" by auto
        have "send_loop f b k = (Ret (stop, b'), k')"
          using False s Inr True c i by (simp add: send_loop.simps [of f b k])
        with i c n fr show ?thesis by (auto intro: io_frame_trans)
      next
        case n0: False
        from 1(3) [OF False s [symmetric] Inr n0 1(4)] obtain stop b' k' where
          i: "send_loop f b k1 = (Ret (stop, b'), k')" "buf_wf b'" "io_frame f k1 k'"
          "sent k' f @ readable b' = sent k1 f @ readable b" "stop = Go_on \<longleftrightarrow> readable b' = []"
          "capacity b' = capacity b" by auto
        have "send_loop f b k = (Ret (stop, b'), k')"
          using False s Inr n0 i by (simp add: send_loop.simps [of f b k])
        with i n n0 fr show ?thesis by (auto intro: io_frame_trans)
      qed
    next
      case (Inl e)
      show ?thesis
      proof (cases "e = EINTR")
        case True
        from 1(1) [OF False s [symmetric] Inl _ True 1(4)] True obtain stop b' k' where
          i: "send_loop f b k1 = (Ret (stop, b'), k')" "buf_wf b'" "io_frame f k1 k'"
          "sent k' f @ readable b' = sent k1 f @ readable b" "stop = Go_on \<longleftrightarrow> readable b' = []"
          "capacity b' = capacity b" by auto
        have "send_loop f b k = (Ret (stop, b'), k')"
          using False s Inl True i by (simp add: send_loop.simps [of f b k])
        with i Inl fr show ?thesis by (auto intro: io_frame_trans)
      next
        case ne2: False
        have "send_loop f b k = (Ret (if e = EAGAIN then Would_block else Gone, b), k1)"
          using False s Inl ne2 by (simp add: send_loop.simps [of f b k])
        with 1(4) Inl fr ne show ?thesis by auto
      qed
    qed
  qed
qed

text \<open>The bytes of the file that a transfer still has to send.\<close>

definition file_rest :: "SendfileOp \<Rightarrow> 'a kernel_scheme \<Rightarrow> string" where
  "file_rest op k = take (nat (remaining op)) (drop (nat (offset op)) (file_data k (file_fd op)))"

text \<open>The transfer lies inside its file; \<open>off_t\<close> values stay below \<open>2 ^ 63\<close>.\<close>

definition sendfile_wf :: "'a kernel_scheme \<Rightarrow> SendfileOp \<Rightarrow> bool" where
  "sendfile_wf k op \<longleftrightarrow> 0 \<le> file_fd op \<and> 0 \<le> offset op \<and> 0 \<le> remaining op \<and>
     offset op + remaining op \<le> int (length (file_data k (file_fd op))) \<and>
     offset op + remaining op < 2 ^ 63"

lemma length_file_rest: "sendfile_wf k op \<Longrightarrow> length (file_rest op k) = nat (remaining op)"
  by (auto simp: sendfile_wf_def file_rest_def min_def)

lemma sendfile_loop_ok:
  assumes "sendfile_wf k op"
  shows "\<exists>stop op' k'. sendfile_loop f op k = (Ret (stop, op'), k') \<and> sendfile_wf k' op' \<and>
    file_fd op' = file_fd op \<and> io_frame f k k' \<and>
    sent k' f @ file_rest op' k' = sent k f @ file_rest op k \<and> (stop = Go_on \<longrightarrow> remaining op' = 0)"
  using assms
proof (induction f op k rule: sendfile_loop.induct)
  case (1 f op k)
  show ?case
  proof (cases "sendfile_active op")
    case False
    with 1(3) have "sendfile_loop f op k = (Ret (Go_on, op), k)" "remaining op = 0"
      by (auto simp: sendfile_loop.simps [of f op k] sendfile_active_def sendfile_wf_def)
    with 1(3) show ?thesis by auto
  next
    case True
    let ?off = "nat (offset op)" and ?cnt = "nat (remaining op)"
    obtain r k1 where s: "sys_sendfile f (file_fd op) ?off ?cnt k = (r, k1)" by force
    note fr = sys_sendfile_frame [OF s]
    then have fd1: "file_data k1 = file_data k" by (simp add: io_frame_sel)
    then have wf1: "sendfile_wf k1 op" using 1(3) by (simp add: sendfile_wf_def)
    show ?thesis
    proof (cases r)
      case (Inr n)
      with fr have n: "n \<le> length (file_rest op k)" "sent k1 f = sent k f @ take n (file_rest op k)"
        by (auto simp: file_rest_def)
      show ?thesis
      proof (cases "0 < n")
        case True2: True
        let ?op = "op\<lparr>offset := offset op + int n, remaining := remaining op - int n\<rparr>"
        have le: "int n \<le> remaining op"
          using n(1) 1(3) by (simp add: length_file_rest) (simp add: sendfile_wf_def le_nat_iff)
        have wf2: "sendfile_wf k1 ?op" using wf1 le by (simp add: sendfile_wf_def)
        have "nat (offset op + int n) = n + ?off" "nat (remaining op - int n) = ?cnt - n"
          using le 1(3) by (auto simp: sendfile_wf_def)
        then have "file_rest ?op k1 = drop n (file_rest op k)"
          by (simp add: file_rest_def fd1 drop_take)
        moreover from 1(2) [OF _ s [symmetric] Inr True2 wf2] True obtain stop op' k' where
          i: "sendfile_loop f ?op k1 = (Ret (stop, op'), k')" "sendfile_wf k' op'"
          "file_fd op' = file_fd op" "io_frame f k1 k'"
          "sent k' f @ file_rest op' k' = sent k1 f @ file_rest ?op k1"
          "stop = Go_on \<longrightarrow> remaining op' = 0" by auto
        moreover have "sendfile_loop f op k = (Ret (stop, op'), k')"
          using True s Inr True2 i by (simp add: sendfile_loop.simps [of f op k])
        ultimately show ?thesis using n fr by (auto intro: io_frame_trans)
      next
        case n0: False
        with Inr fr have "file_rest op k = []" by (simp add: file_rest_def)
        with length_file_rest [OF 1(3)] True show ?thesis by (simp add: sendfile_active_def)
      qed
    next
      case (Inl e)
      show ?thesis
      proof (cases "e = EINTR")
        case True3: True
        from 1(1) [OF _ s [symmetric] Inl _ True3 wf1] True True3 obtain stop op' k' where
          i: "sendfile_loop f op k1 = (Ret (stop, op'), k')" "sendfile_wf k' op'"
          "file_fd op' = file_fd op" "io_frame f k1 k'"
          "sent k' f @ file_rest op' k' = sent k1 f @ file_rest op k1"
          "stop = Go_on \<longrightarrow> remaining op' = 0" by auto
        have "sendfile_loop f op k = (Ret (stop, op'), k')"
          using True s Inl True3 i by (simp add: sendfile_loop.simps [of f op k])
        with i Inl fr fd1 show ?thesis by (auto simp: file_rest_def intro: io_frame_trans)
      next
        case ne2: False
        have "sendfile_loop f op k = (Ret (if e = EAGAIN then Would_block else Gone, op), k1)"
          using True s Inl ne2 by (simp add: sendfile_loop.simps [of f op k])
        with wf1 Inl fr fd1 show ?thesis by (auto simp: file_rest_def)
      qed
    qed
  qed
qed

section \<open>Making room\<close>

lemma bq_round: "bq.round len b =
    (let b1 = snd (compact b) in if writable_bytes b1 < len then reserve (capacity b1 * 2) b1 else b1)"
  by (simp add: bq.round_def)

lemma make_room_ok:
  assumes "buf_wf b" and "0 < capacity b"
  shows "\<exists>b'. make_room len b = Some b' \<and> buf_wf b' \<and> readable b' = readable b \<and>
    len \<le> writable_bytes b' \<and> capacity b \<le> capacity b' \<and>
    capacity b' \<le> max (capacity b) (2 * (length (readable b) + len))"
  using assms
proof (induction "len + length (readable b) - capacity b" arbitrary: b rule: less_induct)
  case less
  note r = bq.round_ok [OF less.prems, of len]
  have mr: "make_room len b = (if writable_bytes b < len then make_room len (bq.round len b) else Some b)"
    by (subst make_room.simps) (simp add: bq_round)
  show ?case
  proof (cases "writable_bytes b < len")
    case False
    with mr less.prems show ?thesis by auto
  next
    case room: True
    show ?thesis
    proof (cases "len \<le> writable_bytes (bq.round len b) \<and> capacity (bq.round len b) = capacity b")
      case True
      then have "make_room len (bq.round len b) = Some (bq.round len b)"
        by (subst make_room.simps) simp
      with mr room r True show ?thesis by auto
    next
      case False
      with r(4) have g: "capacity b < len + length (readable b)"
        "capacity (bq.round len b) = 2 * capacity b" by auto
      then have dec: "len + length (readable (bq.round len b)) - capacity (bq.round len b)
          < len + length (readable b) - capacity b"
        using r(2) less.prems(2) by simp
      from less.hyps [OF dec r(1)] g less.prems(2) obtain b' where
        "make_room len (bq.round len b) = Some b' \<and> buf_wf b' \<and> readable b' = readable (bq.round len b) \<and>
         len \<le> writable_bytes b' \<and> capacity (bq.round len b) \<le> capacity b' \<and>
         capacity b' \<le> max (capacity (bq.round len b)) (2 * (length (readable (bq.round len b)) + len))"
        by auto
      with mr room r(2) g show ?thesis by auto
    qed
  qed
qed

lemma enqueue_write_ok:
  assumes "buf_wf (write_buf c)" and "0 < capacity (write_buf c)"
  shows "\<exists>b. enqueue_write data c = Ret (c\<lparr>write_buf := b, state := Writing\<rparr>) \<and> buf_wf b \<and>
    readable b = readable (write_buf c) @ data \<and> capacity (write_buf c) \<le> capacity b \<and>
    capacity b \<le> max (capacity (write_buf c)) (2 * (length (readable (write_buf c)) + length data))"
proof -
  from make_room_ok [OF assms, of "length data"] obtain b' where
    b': "make_room (length data) (write_buf c) = Some b'" "buf_wf b'"
      "readable b' = readable (write_buf c)" "length data \<le> writable_bytes b'"
      "capacity (write_buf c) \<le> capacity b'"
      "capacity b' \<le> max (capacity (write_buf c)) (2 * (length (readable (write_buf c)) + length data))"
    by auto
  from bq.put_ok [OF b'(2,4)] obtain b where
    "append_bytes data b' = Ret b" "buf_wf b" "readable b = readable b' @ data" "capacity b = capacity b'"
    by auto
  with b' show ?thesis by (auto simp: enqueue_write_def)
qed

section \<open>Closing\<close>

text \<open>A close callback that may only change the interest list, as the event loop's.\<close>

definition quiet_close :: "'a kernel_scheme callback option \<Rightarrow> bool" where
  "quiet_close cb \<longleftrightarrow> (\<forall>c k. \<exists>i. call_back cb c k = (Ret c, k\<lparr>interest := i\<rparr>))"

lemma quiet_None [simp]: "quiet_close None"
proof -
  have "call_back None c k = (Ret c, k\<lparr>interest := interest k\<rparr>)" for c and k :: "'a kernel_scheme"
    by (simp add: call_back_def)
  then show ?thesis unfolding quiet_close_def by blast
qed

lemma on_closed_eq:
  assumes "quiet_close cb" and "state c \<noteq> Closed"
  shows "\<exists>i. on_closed cb c k =
    (Ret (c\<lparr>state := Closed, sendfile_op := None, socket := no_socket\<rparr>),
     snd (socket_close (socket c) ((sendfile_reset (sendfile_op c) k)\<lparr>interest := i\<rparr>)))"
proof -
  let ?k1 = "sendfile_reset (sendfile_op c) k"
  obtain i where "call_back cb (c\<lparr>state := Closed, sendfile_op := None\<rparr>) ?k1 =
      (Ret (c\<lparr>state := Closed, sendfile_op := None\<rparr>), ?k1\<lparr>interest := i\<rparr>)"
    using assms(1) unfolding quiet_close_def by blast
  moreover have "fst (socket_close s k) = no_socket" for s and k :: "'a kernel_scheme"
    by (simp add: socket_close_def no_socket_def)
  ultimately show ?thesis
    using assms(2) by (auto simp: on_closed_def Let_def split: prod.split intro!: exI [of _ i])
      (metis fst_conv)+
qed

section \<open>What is still to be sent\<close>

definition pending :: "Connection \<Rightarrow> 'a kernel_scheme \<Rightarrow> string" where
  "pending c k = readable (write_buf c) @
     (case sendfile_op c of None \<Rightarrow> [] | Some op \<Rightarrow> file_rest op k)"

definition conn_wf :: "'a kernel_scheme \<Rightarrow> Connection \<Rightarrow> bool" where
  "conn_wf k c \<longleftrightarrow> buf_wf (read_buf c) \<and> buf_wf (write_buf c) \<and> 0 < capacity (write_buf c) \<and>
     pred_option (sendfile_wf k) (sendfile_op c)"

lemma conn_wf_new: "conn_wf k (new_connection s i k)"
  by (simp add: conn_wf_def new_connection_def DEFAULT_CAPACITY_def)

section \<open>Flushing\<close>

lemma sendfile_reset_sel [simp]:
  "sent (sendfile_reset o1 k) = sent k" "file_data (sendfile_reset o1 k) = file_data k"
  "tx (sendfile_reset o1 k) = tx k" "rx (sendfile_reset o1 k) = rx k"
  "clock (sendfile_reset o1 k) = clock k"
  "kernel.more (sendfile_reset o1 k) = kernel.more k"
  by (simp_all add: sendfile_reset_def sendfile_destroy_def sys_close_def split: option.split)

lemma socket_close_sel [simp]:
  "sent (snd (socket_close s k)) = sent k" "file_data (snd (socket_close s k)) = file_data k"
  "tx (snd (socket_close s k)) = tx k" "rx (snd (socket_close s k)) = rx k"
  "clock (snd (socket_close s k)) = clock k"
  "kernel.more (snd (socket_close s k)) = kernel.more k"
  by (simp_all add: socket_close_def sys_close_def)

lemma off_to_size_small: "0 \<le> x \<Longrightarrow> x < 2 ^ 63 \<Longrightarrow> off_to_size x = nat x"
  by (simp add: off_to_size_def)

lemma sendfile_wf_small: "sendfile_wf k op \<Longrightarrow> off_to_size (remaining op) = nat (remaining op)"
  by (rule off_to_size_small) (auto simp: sendfile_wf_def)

lemma flush_finish_ok:
  assumes "conn_wf k c"
  shows "flush_finish c k =
    (if pending c k = []
     then (Ret (0, c\<lparr>sendfile_op := None, state := if keep_alive c then Reading else Closing\<rparr>),
           sendfile_reset (sendfile_op c) k)
     else (Ret (length (pending c k), c), k))"
proof -
  have b: "buf_wf (write_buf c)" using assms by (simp add: conn_wf_def)
  show ?thesis
  proof (cases "sendfile_op c")
    case None
    with b show ?thesis
      by (auto simp: flush_finish_def pending_def buf_empty_iff length_readable [symmetric])
  next
    case (Some op)
    with assms have wf: "sendfile_wf k op" by (simp add: conn_wf_def)
    have "file_rest op k = [] \<longleftrightarrow> nat (remaining op) = 0"
      using length_file_rest [OF wf] by (metis length_0_conv)
    then have "sendfile_active op \<longleftrightarrow> file_rest op k \<noteq> []"
      using wf by (auto simp: sendfile_active_def sendfile_wf_def)
    with Some b wf length_file_rest [OF wf] sendfile_wf_small [OF wf] show ?thesis
      by (auto simp: flush_finish_def pending_def buf_empty_iff length_readable [symmetric] Let_def)
  qed
qed

text \<open>How a connection may differ after a flush.\<close>

definition flush_frame :: "Connection \<Rightarrow> Connection \<Rightarrow> bool" where
  "flush_frame c c' \<longleftrightarrow> conn_id c' = conn_id c \<and> read_buf c' = read_buf c \<and>
     keep_alive c' = keep_alive c \<and> last_active c' = last_active c \<and> socket c' = socket c"

text \<open>
  The two loops together: they stop having sent a prefix of what is pending; unless the
  connection is gone the rest is still pending.
\<close>

definition flush_sends ::
  "Connection \<Rightarrow> 'a kernel_scheme \<Rightarrow> flush_stop \<Rightarrow> Connection \<Rightarrow> 'a kernel_scheme \<Rightarrow> bool" where
  "flush_sends c k stop c' k' \<longleftrightarrow>
     (\<exists>b o1. c' = c\<lparr>write_buf := b, sendfile_op := o1\<rparr> \<and>
        map_option file_fd o1 = map_option file_fd (sendfile_op c)) \<and> conn_wf k' c' \<and>
     io_frame (conn_fd c) k k' \<and>
     sent k' (conn_fd c) @ pending c' k' = sent k (conn_fd c) @ pending c k \<and>
     (stop = Go_on \<longrightarrow> pending c' k' = [])"

lemma flush_sends_send:
  assumes "conn_wf k c" and "buf_wf b" and "io_frame (conn_fd c) k k1" and "capacity b = capacity (write_buf c)"
    and "sent k1 (conn_fd c) @ readable b = sent k (conn_fd c) @ readable (write_buf c)"
    and "stop = Go_on \<longrightarrow> readable b = [] \<and> sendfile_op c = None"
  shows "flush_sends c k stop (c\<lparr>write_buf := b\<rparr>) k1"
proof -
  have fd: "file_data k1 = file_data k" by (rule io_frame_sel [OF assms(3)])
  have wf: "sendfile_wf k1 = sendfile_wf k" "file_rest op k1 = file_rest op k" for op
    by (simp_all add: sendfile_wf_def file_rest_def fd fun_eq_iff)
  have "c\<lparr>write_buf := b\<rparr> = c\<lparr>write_buf := b, sendfile_op := sendfile_op c\<rparr>" by simp
  then have "\<exists>b' o1. c\<lparr>write_buf := b\<rparr> = c\<lparr>write_buf := b', sendfile_op := o1\<rparr> \<and>
      map_option file_fd o1 = map_option file_fd (sendfile_op c)" by blast
  moreover have "sent k1 (conn_fd c) @ pending (c\<lparr>write_buf := b\<rparr>) k1 = sent k (conn_fd c) @ pending c k"
    using assms(5) by (simp add: pending_def wf(2) cong: option.case_cong flip: append_assoc)
  moreover have "stop = Go_on \<longrightarrow> pending (c\<lparr>write_buf := b\<rparr>) k1 = []"
    using assms(6) by (simp add: pending_def)
  moreover have "conn_wf k1 (c\<lparr>write_buf := b\<rparr>)"
    using assms(1,2,4) by (simp add: conn_wf_def wf(1))
  ultimately show ?thesis using assms(3) unfolding flush_sends_def by blast
qed

lemma flush_sends_sendfile:
  assumes "conn_wf k c" and "buf_wf b" and "io_frame (conn_fd c) k k1" and "capacity b = capacity (write_buf c)"
    and "sent k1 (conn_fd c) = sent k (conn_fd c) @ readable (write_buf c)" and "readable b = []"
    and "sendfile_op c = Some op" and "sendfile_wf k2 op2" and "file_fd op2 = file_fd op"
    and "io_frame (conn_fd c) k1 k2"
    and "sent k2 (conn_fd c) @ file_rest op2 k2 = sent k1 (conn_fd c) @ file_rest op k1"
    and "stop = Go_on \<longrightarrow> remaining op2 = 0"
  shows "flush_sends c k stop (c\<lparr>write_buf := b, sendfile_op := Some op2\<rparr>) k2"
proof -
  have fd: "file_data k1 = file_data k" by (rule io_frame_sel [OF assms(3)])
  have "file_rest op k1 = file_rest op k" by (simp add: file_rest_def fd)
  then have "sent k2 (conn_fd c) @ pending (c\<lparr>write_buf := b, sendfile_op := Some op2\<rparr>) k2 =
      sent k (conn_fd c) @ pending c k"
    using assms(5-7,11) by (simp add: pending_def)
  moreover have "stop = Go_on \<longrightarrow> pending (c\<lparr>write_buf := b, sendfile_op := Some op2\<rparr>) k2 = []"
    using assms(6,12) by (simp add: pending_def file_rest_def)
  moreover have "conn_wf k2 (c\<lparr>write_buf := b, sendfile_op := Some op2\<rparr>)"
    using assms(1,2,4,8) by (simp add: conn_wf_def)
  moreover have "\<exists>b' o1. c\<lparr>write_buf := b, sendfile_op := Some op2\<rparr> = c\<lparr>write_buf := b', sendfile_op := o1\<rparr> \<and>
      map_option file_fd o1 = map_option file_fd (sendfile_op c)"
    using assms(7,9) by (intro exI [of _ b] exI [of _ "Some op2"]) simp
  ultimately show ?thesis using io_frame_trans [OF assms(3,10)] unfolding flush_sends_def by blast
qed

lemma flush_write_cases:
  assumes "conn_wf k c"
  shows "\<exists>stop c1 k1. flush_sends c k stop c1 k1 \<and>
    flush_write cb c k = (if stop = Gone then close_return 0 cb c1 k1 else flush_finish c1 k1)"
proof -
  have b: "buf_wf (write_buf c)" using assms by (simp add: conn_wf_def)
  from send_loop_ok [OF b, of "conn_fd c" k] obtain stop b1 k1 where
    sl: "send_loop (conn_fd c) (write_buf c) k = (Ret (stop, b1), k1)" "buf_wf b1"
      "io_frame (conn_fd c) k k1"
      "sent k1 (conn_fd c) @ readable b1 = sent k (conn_fd c) @ readable (write_buf c)"
      "stop = Go_on \<longleftrightarrow> readable b1 = []" "capacity b1 = capacity (write_buf c)" by blast
  show ?thesis
  proof (cases "stop = Go_on \<and> sendfile_op c \<noteq> None")
    case False
    with sl(5) have "stop = Go_on \<longrightarrow> readable b1 = [] \<and> sendfile_op c = None" by blast
    from flush_sends_send [OF assms sl(2,3,6,4) this]
    have "flush_sends c k stop (c\<lparr>write_buf := b1\<rparr>) k1" .
    moreover have "flush_write cb c k = (if stop = Gone then close_return 0 cb (c\<lparr>write_buf := b1\<rparr>) k1
        else flush_finish (c\<lparr>write_buf := b1\<rparr>) k1)"
      using sl(1) False by (cases stop) (auto simp: flush_write_def)
    ultimately show ?thesis by blast
  next
    case True
    then obtain op where op: "sendfile_op c = Some op" and go: "stop = Go_on" by blast
    have fd: "file_data k1 = file_data k" by (rule io_frame_sel [OF sl(3)])
    from assms op have "sendfile_wf k1 op" by (simp add: conn_wf_def sendfile_wf_def fd)
    from sendfile_loop_ok [OF this, of "conn_fd c"] obtain stop2 op2 k2 where
      sf: "sendfile_loop (conn_fd c) op k1 = (Ret (stop2, op2), k2)" "sendfile_wf k2 op2"
        "file_fd op2 = file_fd op" "io_frame (conn_fd c) k1 k2"
        "sent k2 (conn_fd c) @ file_rest op2 k2 = sent k1 (conn_fd c) @ file_rest op k1"
        "stop2 = Go_on \<longrightarrow> remaining op2 = 0" by blast
    have s: "sent k1 (conn_fd c) = sent k (conn_fd c) @ readable (write_buf c)" "readable b1 = []"
      using sl(4,5) go by auto
    note flush_sends_sendfile [OF assms sl(2,3,6) s op sf(2-6)]
    moreover have "flush_write cb c k =
        (if stop2 = Gone then close_return 0 cb (c\<lparr>write_buf := b1, sendfile_op := Some op2\<rparr>) k2
         else flush_finish (c\<lparr>write_buf := b1, sendfile_op := Some op2\<rparr>) k2)"
      using sl(1) sf(1) go op by (simp add: flush_write_def conn_fd_def)
    ultimately show ?thesis by blast
  qed
qed

section \<open>Reading\<close>

text \<open>
  What a script delivers: the bytes before the first end of stream or fatal error, whether there
  is none, and the pieces in which \<open>recv\<close> returns them to a buffer with room for \<open>n\<close>.
\<close>

fun rx_data :: "rx_event list \<Rightarrow> string" where
  "rx_data [] = []"
| "rx_data (Rx_bytes xs # s) = (if xs = [] then [] else xs @ rx_data s)"
| "rx_data (Rx_err e # s) = (if e = EINTR then rx_data s else [])"

fun rx_open :: "rx_event list \<Rightarrow> bool" where
  "rx_open [] \<longleftrightarrow> True"
| "rx_open (Rx_bytes xs # s) \<longleftrightarrow> xs \<noteq> [] \<and> rx_open s"
| "rx_open (Rx_err e # s) \<longleftrightarrow> e = EAGAIN \<or> e = EINTR \<and> rx_open s"

function rx_chunks :: "nat \<Rightarrow> rx_event list \<Rightarrow> string list" where
  "rx_chunks n s =
     (case sys_recv n s of
        (Inr xs, s1) \<Rightarrow> if xs = [] then [] else xs # rx_chunks n s1
      | (Inl e, s1) \<Rightarrow> if e = EINTR then rx_chunks n s1 else [])"
  by pat_completeness auto
termination
  by (relation "measure (\<lambda>(_, s). rx_size s)") (auto intro: sys_recv_progress)

declare rx_chunks.simps [simp del]

lemma sys_recv_data:
  assumes "0 < n" and "sys_recv n s = (r, s1)"
  shows "case r of
      Inr xs \<Rightarrow> length xs \<le> n \<and> (if xs = [] then rx_data s = [] \<and> \<not> rx_open s
                                 else rx_data s = xs @ rx_data s1 \<and> rx_open s = rx_open s1)
    | Inl e \<Rightarrow> if e = EINTR then rx_data s = rx_data s1 \<and> rx_open s = rx_open s1
              else rx_data s = [] \<and> rx_open s = (e = EAGAIN)"
  using assms by (cases s rule: rx_data.cases) (auto split: if_splits simp: append_assoc [symmetric] simp del: append_assoc)

lemma rx_chunks_data:
  "0 < n \<Longrightarrow> concat (rx_chunks n s) = rx_data s \<and> (\<forall>xs \<in> set (rx_chunks n s). xs \<noteq> [] \<and> length xs \<le> n)"
proof (induction n s rule: rx_chunks.induct)
  case (1 n s)
  obtain r s1 where r: "sys_recv n s = (r, s1)" by force
  note d = sys_recv_data [OF 1(3) r]
  show ?case
  proof (cases r)
    case (Inr xs)
    with 1(2) [OF r [symmetric] Inr _ 1(3)] d r show ?thesis
      by (cases "xs = []") (auto simp: rx_chunks.simps [of n s])
  next
    case (Inl e)
    with 1(1) [OF r [symmetric] Inl _ 1(3)] d r show ?thesis
      by (cases "e = EINTR") (auto simp: rx_chunks.simps [of n s])
  qed
qed

text \<open>
  The contract with the read callback. \<open>J cs c k\<close> says what holds when the callback has
  been given the pieces \<open>cs\<close>; the callback empties the read buffer and keeps the socket when it
  returns. It may also wait for another thread, never throw.
\<close>

locale read_client =
  fixes on_read :: "'a kernel_scheme callback"
    and J :: "string list \<Rightarrow> Connection \<Rightarrow> 'a kernel_scheme \<Rightarrow> bool"
  assumes J_read_buf: "J cs c k \<Longrightarrow> J cs (c\<lparr>read_buf := b\<rparr>) k"
    and deliver: "J cs c k \<Longrightarrow> conn_fd c \<in> open_fds k \<Longrightarrow> buf_wf (read_buf c) \<Longrightarrow>
      readable (read_buf c) \<noteq> [] \<Longrightarrow>
      (\<exists>k'. on_read c k = (Blocked, k')) \<or>
      (\<exists>c' k'. on_read c k = (Ret c', k') \<and> J (cs @ [readable (read_buf c)]) c' k' \<and>
        conn_fd c' = conn_fd c \<and> conn_fd c \<in> open_fds k' \<and> read_buf c' = consume_all (read_buf c))"
begin

lemma read_loop_delivers:
  assumes "J cs c k" and "conn_fd c \<in> open_fds k" and "buf_wf (read_buf c)" and "readable (read_buf c) = []"
    and "writable_bytes (read_buf c) = n" and "capacity (read_buf c) = n" and "0 < n"
  shows "(\<exists>k1. read_loop (Some on_read) on_close script c k = (Blocked, k1)) \<or>
    (\<exists>c1 k1. J (cs @ rx_chunks n script) c1 k1 \<and> conn_fd c1 = conn_fd c \<and>
      conn_fd c \<in> open_fds k1 \<and> buf_wf (read_buf c1) \<and> readable (read_buf c1) = [] \<and>
      writable_bytes (read_buf c1) = n \<and>
      read_loop (Some on_read) on_close script c k =
        (if rx_open script then (Ret (True, c1), k1) else close_return False on_close c1 k1))"
  using assms
proof (induction n script arbitrary: cs c k rule: rx_chunks.induct)
  case (1 n s)
  note prems = 1(3-9)
  obtain r s1 where r: "sys_recv n s = (r, s1)" by force
  note d = sys_recv_data [OF prems(7) r]
  have room: "make_read_room c = (False, c)" using prems by (simp add: make_read_room_def)
  have step: "read_loop (Some on_read) on_close s c k =
      (case (r, s1) of (Inr xs, s1) \<Rightarrow>
          if xs = [] then close_return False on_close c k
          else (case append_bytes xs (read_buf c) of
                  Ret b \<Rightarrow> bind_st (on_read (c\<lparr>read_buf := b\<rparr>) k)
                             (\<lambda>c2 k1. read_loop (Some on_read) on_close s1 c2 k1)
                | Throw e \<Rightarrow> (Throw e, k) | Blocked \<Rightarrow> (Blocked, k))
      | (Inl e, s1) \<Rightarrow> if e = EAGAIN then (Ret (True, c), k)
          else if e = EINTR then read_loop (Some on_read) on_close s1 c k
          else close_return False on_close c k)"
    unfolding read_loop.simps [of _ _ s c k] call_back_simps(1) using room r prems by simp
  show ?case
  proof (cases r)
    case (Inl e)
    show ?thesis
    proof (cases "e = EINTR")
      case True
      from 1(1) [OF r [symmetric] Inl True prems] show ?thesis
        using step Inl True r d by (simp add: rx_chunks.simps [of n s])
    next
      case False
      with step Inl r d prems have "rx_chunks n s = []" "read_loop (Some on_read) on_close s c k =
          (if rx_open s then (Ret (True, c), k) else close_return False on_close c k)"
        by (auto simp: rx_chunks.simps [of n s])
      with prems show ?thesis by auto
    qed
  next
    case (Inr xs)
    show ?thesis
    proof (cases "xs = []")
      case True
      with step Inr r d prems have "rx_chunks n s = []" "\<not> rx_open s"
          "read_loop (Some on_read) on_close s c k = close_return False on_close c k"
        by (auto simp: rx_chunks.simps [of n s])
      with prems show ?thesis by auto
    next
      case False
      from d Inr prems(5) have "length xs \<le> writable_bytes (read_buf c)" by simp
      from bq.put_ok [OF prems(3) this] prems(4,6) obtain b where
        b: "append_bytes xs (read_buf c) = Ret b" "buf_wf b" "readable b = xs" "capacity b = n" by auto
      let ?c = "c\<lparr>read_buf := b\<rparr>"
      have "conn_fd ?c = conn_fd c" by (simp add: conn_fd_def)
      with deliver [of cs ?c k] J_read_buf [OF prems(1)] prems(2) b False
      have "(\<exists>k'. on_read ?c k = (Blocked, k')) \<or> (\<exists>c' k'. on_read ?c k = (Ret c', k') \<and>
          J (cs @ [xs]) c' k' \<and> conn_fd c' = conn_fd c \<and> conn_fd c \<in> open_fds k' \<and>
          read_buf c' = consume_all b)" by simp
      then show ?thesis
      proof (elim disjE exE conjE)
        fix k' assume "on_read ?c k = (Blocked, k')"
        then show ?thesis using step Inr False b by simp
      next
        fix c' k'
        assume c': "on_read ?c k = (Ret c', k')" "J (cs @ [xs]) c' k'" "conn_fd c' = conn_fd c"
          "conn_fd c \<in> open_fds k'" "read_buf c' = consume_all b"
        have "rx_chunks n s = xs # rx_chunks n s1" "rx_open s = rx_open s1"
          using r Inr False d by (auto simp: rx_chunks.simps [of n s])
        moreover have "read_loop (Some on_read) on_close s c k = read_loop (Some on_read) on_close s1 c' k'"
          using step Inr False b c' by simp
        ultimately show ?thesis
          using 1(2) [OF r [symmetric] Inr False c'(2)] consume_all_ok [of b] b prems(7) c' by simp
      qed
    qed
  qed
qed

end

end
