(* ===== verification/Transition_System.thy ===== *)
theory Transition_System
  imports Server_Prelude
begin

text \<open>
  Reachable states of a step relation, and the contract of an inductive invariant
  (locale \<open>inductive_invariant\<close>), interpreted by the components that are state machines.
\<close>

inductive reachable :: "('s \<Rightarrow> bool) \<Rightarrow> ('s \<Rightarrow> 's \<Rightarrow> bool) \<Rightarrow> 's \<Rightarrow> bool"
  for init :: "'s \<Rightarrow> bool" and step :: "'s \<Rightarrow> 's \<Rightarrow> bool" where
  reach_init: "init s \<Longrightarrow> reachable init step s"
| reach_step: "reachable init step s \<Longrightarrow> step s s' \<Longrightarrow> reachable init step s'"

locale inductive_invariant =
  fixes init :: "'s \<Rightarrow> bool" and step :: "'s \<Rightarrow> 's \<Rightarrow> bool" and inv :: "'s \<Rightarrow> bool"
  assumes inv_init: "init s \<Longrightarrow> inv s"
    and inv_step: "inv s \<Longrightarrow> step s s' \<Longrightarrow> inv s'"
begin

lemma inv_reachable: "reachable init step s \<Longrightarrow> inv s"
  by (induction rule: reachable.induct) (auto intro: inv_init inv_step)

end

text \<open>A measure that every step decreases bounds the length of a run.\<close>

locale decreasing_system =
  fixes step :: "'s \<Rightarrow> 's \<Rightarrow> bool" and inv :: "'s \<Rightarrow> bool" and size_of :: "'s \<Rightarrow> nat"
  assumes keep: "inv s \<Longrightarrow> step s s' \<Longrightarrow> inv s'"
    and decrease: "inv s \<Longrightarrow> step s s' \<Longrightarrow> size_of s' < size_of s"
begin

lemma run_length: "(step ^^ n) s s' \<Longrightarrow> inv s \<Longrightarrow> inv s' \<and> size_of s' + n \<le> size_of s"
proof (induction n arbitrary: s')
  case (Suc n)
  then obtain s1 where "(step ^^ n) s s1" "step s1 s'" by auto
  with Suc.IH [of s1] Suc.prems(2) keep [of s1 s'] decrease [of s1 s'] show ?case by auto
qed simp

lemma reaches_end: "inv s \<Longrightarrow> \<exists>s'. step\<^sup>*\<^sup>* s s' \<and> inv s' \<and> (\<forall>s''. \<not> step s' s'')"
proof (induction "size_of s" arbitrary: s rule: less_induct)
  case less
  show ?case
  proof (cases "\<exists>s1. step s s1")
    case True
    then obtain s1 where s1: "step s s1" by auto
    with less decrease keep obtain s' where "step\<^sup>*\<^sup>* s1 s'" "inv s'" "\<forall>s''. \<not> step s' s''" by blast
    with s1 show ?thesis by (meson converse_rtranclp_into_rtranclp)
  next
    case False
    with less.prems show ?thesis by blast
  qed
qed

end

end
