(* ===== verification/Task_Queue.thy ===== *)
theory Task_Queue
  imports Transition_System "HOL-Library.Multiset"
begin

text \<open>
  \<open>include/core/task_queue.hpp\<close>: the bounded queue between threads. Each member function
  runs under the mutex, so it is one atomic operation; where it waits on a condition variable
  the operation is \<open>Blocked\<close> until its predicate holds. The second half models the waiting
  itself: who sleeps on which condition variable and who has been notified.
\<close>

section \<open>Operations\<close>

record 'a TaskQueue =
  tq_queue :: "'a list"
  tq_capacity :: nat
  tq_closed :: bool

definition TQ_DEFAULT_CAPACITY :: nat where "TQ_DEFAULT_CAPACITY = 4096"

definition new_queue :: "nat \<Rightarrow> 'a TaskQueue" where
  "new_queue cap = \<lparr>tq_queue = [], tq_capacity = cap, tq_closed = False\<rparr>"

definition push :: "'a \<Rightarrow> 'a TaskQueue \<Rightarrow> (bool \<times> 'a TaskQueue) res" where
  "push item q =
     (if length (tq_queue q) < tq_capacity q \<or> tq_closed q
      then (if tq_closed q then Ret (False, q)
            else Ret (True, q\<lparr>tq_queue := tq_queue q @ [item]\<rparr>))
      else Blocked)"

definition try_push :: "'a \<Rightarrow> 'a TaskQueue \<Rightarrow> bool \<times> 'a TaskQueue" where
  "try_push item q =
     (if tq_closed q \<or> length (tq_queue q) \<ge> tq_capacity q then (False, q)
      else (True, q\<lparr>tq_queue := tq_queue q @ [item]\<rparr>))"

definition pop :: "'a TaskQueue \<Rightarrow> ('a option \<times> 'a TaskQueue) res" where
  "pop q =
     (if tq_queue q \<noteq> [] \<or> tq_closed q
      then (case tq_queue q of
              [] \<Rightarrow> Ret (None, q)
            | item # rest \<Rightarrow> Ret (Some item, q\<lparr>tq_queue := rest\<rparr>))
      else Blocked)"

definition try_pop :: "'a TaskQueue \<Rightarrow> 'a option \<times> 'a TaskQueue" where
  "try_pop q =
     (case tq_queue q of
        [] \<Rightarrow> (None, q)
      | item # rest \<Rightarrow> (Some item, q\<lparr>tq_queue := rest\<rparr>))"

definition close :: "'a TaskQueue \<Rightarrow> 'a TaskQueue" where
  "close q = q\<lparr>tq_closed := True\<rparr>"

definition is_closed :: "'a TaskQueue \<Rightarrow> bool" where "is_closed q = tq_closed q"

definition tq_size :: "'a TaskQueue \<Rightarrow> nat" where "tq_size q = length (tq_queue q)"

definition tq_empty :: "'a TaskQueue \<Rightarrow> bool" where "tq_empty q \<longleftrightarrow> tq_queue q = []"

lemmas queue_defs [core_defs] =
  new_queue_def push_def try_push_def pop_def try_pop_def close_def is_closed_def tq_size_def tq_empty_def

section \<open>The interface: a bounded queue that can be closed\<close>

locale bounded_fifo =
  fixes items :: "'q \<Rightarrow> 'a list" and bound :: "'q \<Rightarrow> nat" and shut :: "'q \<Rightarrow> bool"
    and put :: "'a \<Rightarrow> 'q \<Rightarrow> (bool \<times> 'q) res" and get :: "'q \<Rightarrow> ('a option \<times> 'q) res"
    and finish :: "'q \<Rightarrow> 'q"
  assumes put_Blocked: "put x q = Blocked \<longleftrightarrow> bound q \<le> length (items q) \<and> \<not> shut q"
    and put_Throw: "put x q \<noteq> Throw e"
    and put_Ret: "put x q = Ret (ok, q') \<Longrightarrow> (ok \<longleftrightarrow> \<not> shut q) \<and> shut q' = shut q \<and> bound q' = bound q \<and>
      items q' = (if ok then items q @ [x] else items q)"
    and get_Blocked: "get q = Blocked \<longleftrightarrow> items q = [] \<and> \<not> shut q"
    and get_Throw: "get q \<noteq> Throw e"
    and get_Ret: "get q = Ret (r, q') \<Longrightarrow> shut q' = shut q \<and> bound q' = bound q \<and>
      (case r of None \<Rightarrow> items q = [] \<and> items q' = [] \<and> shut q | Some x \<Rightarrow> items q = x # items q')"
    and finish: "items (finish q) = items q" "shut (finish q)" "bound (finish q) = bound q"
begin

lemma put_bound: "put x q = Ret (ok, q') \<Longrightarrow> length (items q) \<le> bound q \<Longrightarrow> length (items q') \<le> bound q'"
  using put_Ret [of x q ok q'] put_Blocked [of x q] by (auto split: if_splits)

lemma get_bound: "get q = Ret (r, q') \<Longrightarrow> length (items q) \<le> bound q \<Longrightarrow> length (items q') \<le> bound q'"
  using get_Ret [of q r q'] by (auto split: option.splits)

lemma get_None: "get q = Ret (None, q') \<Longrightarrow> items q = [] \<and> shut q"
  using get_Ret [of q None q'] by simp

lemma put_cases:
  obtains "put x q = Blocked" "bound q \<le> length (items q)" "\<not> shut q"
  | q' where "put x q = Ret (True, q')" "items q' = items q @ [x]" "\<not> shut q" "\<not> shut q'" "bound q' = bound q"
      "length (items q) < bound q"
  | q' where "put x q = Ret (False, q')" "items q' = items q" "shut q" "shut q'" "bound q' = bound q"
proof (cases "put x q")
  case (Ret r)
  obtain ok q' where r: "put x q = Ret (ok, q')" using Ret by (cases r) auto
  with put_Blocked [of x q] have "length (items q) < bound q \<or> shut q" by (auto simp: not_le)
  with r put_Ret [OF r] show ?thesis by (cases ok) (auto intro: that)
qed (use put_Blocked [of x q] put_Throw [of x q] that in auto)

lemma get_cases:
  obtains "get q = Blocked" "items q = []" "\<not> shut q"
  | x q' where "get q = Ret (Some x, q')" "items q = x # items q'" "shut q' = shut q" "bound q' = bound q"
  | q' where "get q = Ret (None, q')" "items q = []" "items q' = []" "shut q" "shut q'" "bound q' = bound q"
proof (cases "get q")
  case (Ret r)
  obtain x q' where r: "get q = Ret (x, q')" using Ret by (cases r) auto
  with get_Ret [OF r] show ?thesis by (cases x) (auto intro: that)
qed (use get_Blocked [of q] get_Throw [of q] that in auto)

end

interpretation tq: bounded_fifo tq_queue tq_capacity tq_closed push pop close
  by unfold_locales
    (auto simp: push_def pop_def close_def split: if_splits list.splits option.splits)

lemma try_push_push:
  "try_push x q = (case push x q of Ret r \<Rightarrow> r | _ \<Rightarrow> (False, q))"
  by (auto simp: try_push_def push_def)

lemma try_pop_pop:
  "try_pop q = (case pop q of Ret r \<Rightarrow> r | _ \<Rightarrow> (None, q))"
  by (auto simp: try_pop_def pop_def split: list.split)

section \<open>Waiting and notification\<close>

text \<open>
  The threads inside \<open>pop\<close> and \<open>push\<close> that sleep on \<open>not_empty_\<close> and
  \<open>not_full_\<close>, and those notified that have not yet taken the mutex again; the items
  accepted and handed out so far.
\<close>

record ('t, 'a) monitor =
  mon_tq :: "'a TaskQueue"
  pop_asleep :: "'t multiset"
  pop_woken :: "'t multiset"
  push_asleep :: "('t \<times> 'a) multiset"
  push_woken :: "('t \<times> 'a) multiset"
  pushed :: "'a list"
  popped :: "'a list"

text \<open>\<open>notify_one\<close> wakes one sleeper if there is one; which one is not determined.\<close>

definition notify_one :: "'t multiset \<Rightarrow> 't multiset \<Rightarrow> 't multiset \<Rightarrow> 't multiset \<Rightarrow> bool" where
  "notify_one asleep woken asleep' woken' \<longleftrightarrow>
     (asleep = {#} \<and> asleep' = asleep \<and> woken' = woken) \<or>
     (\<exists>t. asleep = add_mset t asleep' \<and> woken' = add_mset t woken)"

text \<open>A call begins, or a notified thread goes on.\<close>

definition enters :: "'t \<Rightarrow> 't multiset \<Rightarrow> 't multiset \<Rightarrow> bool" where
  "enters t woken woken' \<longleftrightarrow> woken' = woken \<or> woken = add_mset t woken'"

inductive mon_step :: "('t, 'a) monitor \<Rightarrow> ('t, 'a) monitor \<Rightarrow> bool" where
  pop_wait: "enters t (pop_woken m) w \<Longrightarrow> pop (mon_tq m) = Blocked \<Longrightarrow>
    mon_step m (m\<lparr>pop_woken := w, pop_asleep := add_mset t (pop_asleep m)\<rparr>)"
| pop_item: "enters t (pop_woken m) w \<Longrightarrow> pop (mon_tq m) = Ret (Some x, q) \<Longrightarrow>
    notify_one (push_asleep m) (push_woken m) a u \<Longrightarrow>
    mon_step m (m\<lparr>pop_woken := w, mon_tq := q, push_asleep := a, push_woken := u, popped := popped m @ [x]\<rparr>)"
| pop_end: "enters t (pop_woken m) w \<Longrightarrow> pop (mon_tq m) = Ret (None, q) \<Longrightarrow>
    mon_step m (m\<lparr>pop_woken := w, mon_tq := q\<rparr>)"
| try_pop_item: "try_pop (mon_tq m) = (Some x, q) \<Longrightarrow>
    notify_one (push_asleep m) (push_woken m) a u \<Longrightarrow>
    mon_step m (m\<lparr>mon_tq := q, push_asleep := a, push_woken := u, popped := popped m @ [x]\<rparr>)"
| push_wait: "enters (t, x) (push_woken m) w \<Longrightarrow> push x (mon_tq m) = Blocked \<Longrightarrow>
    mon_step m (m\<lparr>push_woken := w, push_asleep := add_mset (t, x) (push_asleep m)\<rparr>)"
| push_item: "enters (t, x) (push_woken m) w \<Longrightarrow> push x (mon_tq m) = Ret (True, q) \<Longrightarrow>
    notify_one (pop_asleep m) (pop_woken m) a u \<Longrightarrow>
    mon_step m (m\<lparr>push_woken := w, mon_tq := q, pop_asleep := a, pop_woken := u, pushed := pushed m @ [x]\<rparr>)"
| push_refused: "enters (t, x) (push_woken m) w \<Longrightarrow> push x (mon_tq m) = Ret (False, q) \<Longrightarrow>
    mon_step m (m\<lparr>push_woken := w, mon_tq := q\<rparr>)"
| try_push_item: "try_push x (mon_tq m) = (True, q) \<Longrightarrow>
    notify_one (pop_asleep m) (pop_woken m) a u \<Longrightarrow>
    mon_step m (m\<lparr>mon_tq := q, pop_asleep := a, pop_woken := u, pushed := pushed m @ [x]\<rparr>)"
| close_all: "mon_step m (m\<lparr>mon_tq := close (mon_tq m),
    pop_woken := pop_woken m + pop_asleep m, pop_asleep := {#},
    push_woken := push_woken m + push_asleep m, push_asleep := {#}\<rparr>)"
| spurious_pop: "pop_asleep m = add_mset t a \<Longrightarrow>
    mon_step m (m\<lparr>pop_asleep := a, pop_woken := add_mset t (pop_woken m)\<rparr>)"
| spurious_push: "push_asleep m = add_mset t a \<Longrightarrow>
    mon_step m (m\<lparr>push_asleep := a, push_woken := add_mset t (push_woken m)\<rparr>)"

definition mon_init :: "nat \<Rightarrow> ('t, 'a) monitor \<Rightarrow> bool" where
  "mon_init cap m \<longleftrightarrow> m = \<lparr>mon_tq = new_queue cap, pop_asleep = {#}, pop_woken = {#},
     push_asleep = {#}, push_woken = {#}, pushed = [], popped = []\<rparr>"

text \<open>
  The invariant: first in first out, the bound, and no lost wake-up: as long as somebody sleeps
  there are as many notified threads as there is something for them.
\<close>

definition mon_inv :: "('t, 'a) monitor \<Rightarrow> bool" where
  "mon_inv m \<longleftrightarrow>
     popped m @ tq_queue (mon_tq m) = pushed m \<and>
     length (tq_queue (mon_tq m)) \<le> tq_capacity (mon_tq m) \<and>
     (pop_asleep m = {#} \<or> length (tq_queue (mon_tq m)) \<le> size (pop_woken m)) \<and>
     (push_asleep m = {#} \<or> tq_capacity (mon_tq m) - length (tq_queue (mon_tq m)) \<le> size (push_woken m)) \<and>
     (tq_closed (mon_tq m) \<longrightarrow> pop_asleep m = {#} \<and> push_asleep m = {#})"

lemma notify_size:
  "notify_one a w a' w' \<Longrightarrow> (a = {#} \<and> a' = {#} \<and> w' = w) \<or> a \<noteq> {#} \<and> size w' = Suc (size w)"
  by (auto simp: notify_one_def)

lemma enters_size: "enters t w w' \<Longrightarrow> size w' \<le> size w \<and> size w \<le> Suc (size w')"
  by (auto simp: enters_def)

lemma notify_room:
  assumes "notify_one a w a' w'" and "a = {#} \<or> n \<le> size w" and "n' \<le> Suc n"
  shows "a' = {#} \<or> n' \<le> size w'"
  using notify_size [OF assms(1)] assms(2,3) by auto

lemma notify_empty: "notify_one a w a' w' \<Longrightarrow> a = {#} \<Longrightarrow> a' = {#}"
  by (auto simp: notify_one_def)

lemma mon_inv_take:
  assumes "mon_inv m" and "pop (mon_tq m) = Ret (Some x, q)"
    and "notify_one (push_asleep m) (push_woken m) a u" and "size (pop_woken m) \<le> Suc (size w)"
  shows "mon_inv (m\<lparr>pop_woken := w, mon_tq := q, push_asleep := a, push_woken := u, popped := popped m @ [x]\<rparr>)"
proof -
  from tq.get_Ret [OF assms(2)] have q: "tq_closed q = tq_closed (mon_tq m)"
    "tq_capacity q = tq_capacity (mon_tq m)" "tq_queue (mon_tq m) = x # tq_queue q" by auto
  with assms(1) have "push_asleep m = {#} \<or>
      tq_capacity (mon_tq m) - length (tq_queue (mon_tq m)) \<le> size (push_woken m)"
    by (simp add: mon_inv_def)
  from notify_room [OF assms(3) this, of "tq_capacity q - length (tq_queue q)"] q
  have "a = {#} \<or> tq_capacity q - length (tq_queue q) \<le> size u" by auto
  moreover have "push_asleep m = {#} \<longrightarrow> a = {#}" using notify_empty [OF assms(3)] by blast
  ultimately show ?thesis using assms(1,4) q by (auto simp: mon_inv_def)
qed

lemma mon_inv_put:
  assumes "mon_inv m" and "push x (mon_tq m) = Ret (True, q)"
    and "notify_one (pop_asleep m) (pop_woken m) a u" and "size (push_woken m) \<le> Suc (size w)"
  shows "mon_inv (m\<lparr>push_woken := w, mon_tq := q, pop_asleep := a, pop_woken := u, pushed := pushed m @ [x]\<rparr>)"
proof -
  from tq.put_Ret [OF assms(2)] have q: "\<not> tq_closed (mon_tq m)" "\<not> tq_closed q"
    "tq_capacity q = tq_capacity (mon_tq m)" "tq_queue q = tq_queue (mon_tq m) @ [x]" by auto
  have le: "length (tq_queue q) \<le> tq_capacity q"
    using tq.put_bound [OF assms(2)] assms(1) by (simp add: mon_inv_def)
  from assms(1) have "pop_asleep m = {#} \<or> length (tq_queue (mon_tq m)) \<le> size (pop_woken m)"
    by (simp add: mon_inv_def)
  from notify_room [OF assms(3) this, of "length (tq_queue q)"] q
  have "a = {#} \<or> length (tq_queue q) \<le> size u" by auto
  with assms(1,4) q le show ?thesis by (auto simp: mon_inv_def simp flip: append_assoc)
qed

lemma mon_inv_woken:
  assumes "mon_inv m" and "pop_asleep m = {#} \<or> tq_queue (mon_tq m) = [] \<or> w = pop_woken m"
    and "push_asleep m = {#} \<or> tq_capacity (mon_tq m) \<le> length (tq_queue (mon_tq m)) \<or> v = push_woken m"
  shows "mon_inv (m\<lparr>pop_woken := w, push_woken := v\<rparr>)"
  using assms by (auto simp: mon_inv_def)

lemma mon_inv_step: "mon_step m m' \<Longrightarrow> mon_inv m \<Longrightarrow> mon_inv m'"
proof (induction rule: mon_step.induct)
  case (pop_wait t m w)
  then have "tq_queue (mon_tq m) = []" "\<not> tq_closed (mon_tq m)" by (auto simp: tq.get_Blocked)
  with pop_wait(3) show ?case by (auto simp: mon_inv_def)
next
  case (pop_item t m w x q a u)
  with enters_size [OF pop_item(1)] show ?case by (intro mon_inv_take) auto
next
  case (pop_end t m w q)
  have "q = mon_tq m" using pop_end(2) by (auto simp: pop_def split: if_splits list.splits)
  moreover from tq.get_None [OF pop_end(2)] have "tq_queue (mon_tq m) = []" "tq_closed (mon_tq m)" by auto
  ultimately show ?case using pop_end(3) by (auto simp: mon_inv_def)
next
  case (try_pop_item m x q a u)
  then have "pop (mon_tq m) = Ret (Some x, q)" by (auto simp: try_pop_def pop_def split: list.splits)
  from mon_inv_take [OF try_pop_item(3) this try_pop_item(2), of "pop_woken m"] show ?case by simp
next
  case (push_wait t x m w)
  then have "tq_capacity (mon_tq m) \<le> length (tq_queue (mon_tq m))" "\<not> tq_closed (mon_tq m)"
    by (auto simp: tq.put_Blocked)
  with push_wait(3) show ?case by (auto simp: mon_inv_def)
next
  case (push_item t x m w q a u)
  with enters_size [OF push_item(1)] show ?case by (intro mon_inv_put) auto
next
  case (push_refused t x m w q)
  have "q = mon_tq m" "tq_closed (mon_tq m)" using push_refused(2) by (auto simp: push_def split: if_splits)
  with push_refused(3) show ?case by (auto simp: mon_inv_def)
next
  case (try_push_item x m q a u)
  then have "push x (mon_tq m) = Ret (True, q)" by (auto simp: try_push_def push_def split: if_splits)
  from mon_inv_put [OF try_push_item(3) this try_push_item(2), of "push_woken m"] show ?case by simp
next
  case (close_all m)
  then show ?case by (auto simp: mon_inv_def close_def)
next
  case (spurious_pop m t a)
  then show ?case by (auto simp: mon_inv_def)
next
  case (spurious_push m t a)
  then show ?case by (auto simp: mon_inv_def)
qed

interpretation mon: inductive_invariant "mon_init cap" mon_step mon_inv
  by unfold_locales
    (simp add: mon_init_def mon_inv_def new_queue_def, erule (1) mon_inv_step [rotated])

section \<open>Properties\<close>

text \<open>
  C28 First in, first out, and bounded, under every interleaving of \<open>push\<close>, \<open>try_push\<close>,
  \<open>pop\<close>, \<open>try_pop\<close>, \<open>close\<close> and wake-ups: the items handed out, then those queued, are
  exactly the items accepted, in order.
\<close>

theorem queue_fifo_bounded:
  assumes "reachable (mon_init cap) mon_step m"
  shows "popped m @ tq_queue (mon_tq m) = pushed m \<and>
    length (tq_queue (mon_tq m)) \<le> tq_capacity (mon_tq m)"
  using mon.inv_reachable [OF assms] by (simp add: mon_inv_def)

text \<open>
  C25 No wake-up is lost: in no reachable state does a thread sleep in \<open>pop\<close> while there are
  more items than notified consumers, or in \<open>push\<close> while there are more free places than
  notified producers; after \<open>close\<close> nobody sleeps. So when nobody is notified, sleeping
  consumers mean an empty queue and sleeping producers a full one.
\<close>

theorem no_lost_wakeup:
  assumes "reachable (mon_init cap) mon_step m"
  shows "(pop_asleep m \<noteq> {#} \<longrightarrow> length (tq_queue (mon_tq m)) \<le> size (pop_woken m)) \<and>
    (push_asleep m \<noteq> {#} \<longrightarrow>
       tq_capacity (mon_tq m) - length (tq_queue (mon_tq m)) \<le> size (push_woken m)) \<and>
    (tq_closed (mon_tq m) \<longrightarrow> pop_asleep m = {#} \<and> push_asleep m = {#})"
  using mon.inv_reachable [OF assms] by (auto simp: mon_inv_def)

text \<open>A run for the witnesses: a consumer sleeps, a producer wakes it and a second one waits.\<close>

definition demo_monitor :: "(nat, string) monitor" where
  "demo_monitor =
     \<lparr>mon_tq = \<lparr>tq_queue = [''a''], tq_capacity = 1, tq_closed = False\<rparr>, pop_asleep = {#},
      pop_woken = {#1#}, push_asleep = {#(3, ''b'')#}, push_woken = {#}, pushed = [''a''], popped = []\<rparr>"

lemma demo_monitor_reachable: "reachable (mon_init 1) mon_step demo_monitor"
proof -
  let ?m0 = "\<lparr>mon_tq = new_queue 1, pop_asleep = {#}, pop_woken = {#}, push_asleep = {#},
     push_woken = {#}, pushed = [], popped = []\<rparr> :: (nat, string) monitor"
  let ?m1 = "?m0\<lparr>pop_woken := {#}, pop_asleep := add_mset 1 (pop_asleep ?m0)\<rparr>"
  let ?q = "\<lparr>tq_queue = [''a''], tq_capacity = 1, tq_closed = False\<rparr>"
  let ?m2 = "?m1\<lparr>push_woken := {#}, mon_tq := ?q, pop_asleep := {#}, pop_woken := {#1#},
     pushed := pushed ?m1 @ [''a'']\<rparr>"
  have "reachable (mon_init 1) mon_step ?m0" by (rule reach_init) (simp add: mon_init_def)
  moreover have "mon_step ?m0 ?m1"
    by (rule pop_wait) (simp_all add: enters_def pop_def new_queue_def)
  moreover have "mon_step ?m1 ?m2"
    by (rule push_item [where t = 2])
      (simp_all add: enters_def push_def new_queue_def notify_one_def)
  moreover have "mon_step ?m2 (?m2\<lparr>push_woken := {#}, push_asleep := add_mset (3, ''b'') (push_asleep ?m2)\<rparr>)"
    by (rule push_wait) (simp_all add: enters_def push_def)
  ultimately have "reachable (mon_init 1) mon_step
      (?m2\<lparr>push_woken := {#}, push_asleep := add_mset (3, ''b'') (push_asleep ?m2)\<rparr>)"
    by (meson reach_step)
  then show ?thesis by (simp add: demo_monitor_def)
qed

theorem queue_fifo_bounded_witness:
  "popped demo_monitor @ tq_queue (mon_tq demo_monitor) = [''a'']"
  using queue_fifo_bounded [OF demo_monitor_reachable] by (simp add: demo_monitor_def)

theorem no_lost_wakeup_witness:
  "push_asleep demo_monitor \<noteq> {#} \<and>
   tq_capacity (mon_tq demo_monitor) - length (tq_queue (mon_tq demo_monitor)) \<le> size (push_woken demo_monitor)"
  using no_lost_wakeup [OF demo_monitor_reachable] by (simp add: demo_monitor_def)

end
