(* ===== verification/Thread_Pool.thy ===== *)
theory Thread_Pool
  imports Task_Queue
begin

text \<open>
  \<open>include/core/thread_pool.hpp\<close> and \<open>src/core/thread_pool.cpp\<close>: worker threads over
  one task queue. A worker is inside \<open>pop\<close>, runs a task, or has left its loop; the steps of
  different workers and of the callers interleave. \<open>exec\<close> is the effect of a task on the
  world; the history fields record the tasks accepted, started and finished.
\<close>

section \<open>State\<close>

datatype 't worker = In_pop | Running 't | Exited

record 't ThreadPool =
  pool_queue :: "'t TaskQueue"
  workers :: "'t worker list"
  shutdown_called :: bool
  accepted :: "'t list"
  started :: "'t list"
  finished :: "'t list"

text \<open>Lines 8 to 13; \<open>hw\<close> is \<open>std::thread::hardware_concurrency()\<close>.\<close>

definition worker_count :: "nat \<Rightarrow> nat \<Rightarrow> nat" where
  "worker_count n_threads hw =
     (if n_threads = 0 then (if hw = 0 then 4 else hw) else n_threads)"

definition new_pool :: "nat \<Rightarrow> nat \<Rightarrow> 't ThreadPool" where
  "new_pool n_threads hw =
     \<lparr>pool_queue = new_queue TQ_DEFAULT_CAPACITY, workers = replicate (worker_count n_threads hw) In_pop,
      shutdown_called = False, accepted = [], started = [], finished = []\<rparr>"

section \<open>Operations of the callers\<close>

text \<open>\<open>submit\<close> ignores what \<open>push\<close> returns.\<close>

definition submit :: "'t \<Rightarrow> 't ThreadPool \<Rightarrow> 't ThreadPool res" where
  "submit task p =
     (case push task (pool_queue p) of
        Ret (ok, q) \<Rightarrow> Ret (p\<lparr>pool_queue := q, accepted := accepted p @ (if ok then [task] else [])\<rparr>)
      | Throw e \<Rightarrow> Throw e
      | Blocked \<Rightarrow> Blocked)"

definition try_submit :: "'t \<Rightarrow> 't ThreadPool \<Rightarrow> bool \<times> 't ThreadPool" where
  "try_submit task p =
     (case try_push task (pool_queue p) of
        (ok, q) \<Rightarrow> (ok, p\<lparr>pool_queue := q, accepted := accepted p @ (if ok then [task] else [])\<rparr>))"

text \<open>\<open>shutdown\<close> up to the joins (lines 36 to 43), and the joins.\<close>

definition shutdown_begin :: "'t ThreadPool \<Rightarrow> 't ThreadPool" where
  "shutdown_begin p =
     (if shutdown_called p then p
      else p\<lparr>shutdown_called := True, pool_queue := close (pool_queue p)\<rparr>)"

definition all_exited :: "'t ThreadPool \<Rightarrow> bool" where
  "all_exited p \<longleftrightarrow> list_all (\<lambda>w. w = Exited) (workers p)"

definition shutdown :: "'t ThreadPool \<Rightarrow> unit res \<times> 't ThreadPool" where
  "shutdown p =
     (if shutdown_called p then (Ret (), p)
      else let p1 = shutdown_begin p in (if all_exited p1 then Ret () else Blocked, p1))"

definition pending_tasks :: "'t ThreadPool \<Rightarrow> nat" where
  "pending_tasks p = tq_size (pool_queue p)"

definition thread_count :: "'t ThreadPool \<Rightarrow> nat" where
  "thread_count p = length (workers p)"

section \<open>The worker loop\<close>

text \<open>One evaluation of the loop condition by worker \<open>i\<close>: \<open>Blocked\<close> while \<open>pop\<close> waits.\<close>

definition worker_take :: "nat \<Rightarrow> 't ThreadPool \<Rightarrow> 't ThreadPool res" where
  "worker_take i p =
     (case pop (pool_queue p) of
        Ret (Some t, q) \<Rightarrow>
          Ret (p\<lparr>pool_queue := q, workers := (workers p)[i := Running t], started := started p @ [t]\<rparr>)
      | Ret (None, q) \<Rightarrow> Ret (p\<lparr>pool_queue := q, workers := (workers p)[i := Exited]\<rparr>)
      | Throw e \<Rightarrow> Throw e
      | Blocked \<Rightarrow> Blocked)"

text \<open>
  One execution of the loop body: an exception of the task is logged and dropped, so its
  result does not matter unless the task never returns.
\<close>

definition worker_run ::
  "('t \<Rightarrow> 'w \<Rightarrow> unit res \<times> 'w) \<Rightarrow> nat \<Rightarrow> 't \<Rightarrow> 't ThreadPool \<Rightarrow> 'w \<Rightarrow> 't ThreadPool res \<times> 'w" where
  "worker_run exec i t p w =
     (case exec t w of
        (Blocked, w1) \<Rightarrow> (Blocked, w1)
      | (_, w1) \<Rightarrow> (Ret (p\<lparr>workers := (workers p)[i := In_pop], finished := finished p @ [t]\<rparr>), w1))"

inductive worker_step ::
  "('t \<Rightarrow> 'w \<Rightarrow> unit res \<times> 'w) \<Rightarrow> 't ThreadPool \<times> 'w \<Rightarrow> 't ThreadPool \<times> 'w \<Rightarrow> bool"
  for exec :: "'t \<Rightarrow> 'w \<Rightarrow> unit res \<times> 'w" where
  step_take: "i < length (workers p) \<Longrightarrow> workers p ! i = In_pop \<Longrightarrow> worker_take i p = Ret p' \<Longrightarrow>
    worker_step exec (p, w) (p', w)"
| step_run: "i < length (workers p) \<Longrightarrow> workers p ! i = Running t \<Longrightarrow>
    worker_run exec i t p w = (Ret p', w') \<Longrightarrow> worker_step exec (p, w) (p', w')"

inductive pool_step ::
  "('t \<Rightarrow> 'w \<Rightarrow> unit res \<times> 'w) \<Rightarrow> 't ThreadPool \<times> 'w \<Rightarrow> 't ThreadPool \<times> 'w \<Rightarrow> bool"
  for exec :: "'t \<Rightarrow> 'w \<Rightarrow> unit res \<times> 'w" where
  pool_worker: "worker_step exec s s' \<Longrightarrow> pool_step exec s s'"
| pool_submit: "submit t p = Ret p' \<Longrightarrow> pool_step exec (p, w) (p', w)"
| pool_try_submit: "try_submit t p = (ok, p') \<Longrightarrow> pool_step exec (p, w) (p', w)"
| pool_shutdown: "pool_step exec (p, w) (shutdown_begin p, w)"
| pool_outside: "pool_step exec (p, w) (p, w')"

definition pool_init :: "nat \<Rightarrow> nat \<Rightarrow> 't ThreadPool \<times> 'w \<Rightarrow> bool" where
  "pool_init n hw s \<longleftrightarrow> fst s = new_pool n hw"

lemmas pool_defs [core_defs] =
  worker_count_def new_pool_def submit_def try_submit_def shutdown_begin_def shutdown_def
  all_exited_def pending_tasks_def thread_count_def worker_take_def worker_run_def

inductive_cases worker_stepE: "worker_step exec s s'"

section \<open>Invariant\<close>

definition running :: "'t worker list \<Rightarrow> 't multiset" where
  "running ws = sum_list (map (\<lambda>w. case w of Running t \<Rightarrow> {#t#} | _ \<Rightarrow> {#}) ws)"

definition pool_inv :: "nat \<Rightarrow> 't ThreadPool \<Rightarrow> bool" where
  "pool_inv n p \<longleftrightarrow> length (workers p) = n \<and>
     started p @ tq_queue (pool_queue p) = accepted p \<and>
     mset (finished p) + running (workers p) = mset (started p) \<and>
     (Exited \<in> set (workers p) \<longrightarrow> tq_closed (pool_queue p) \<and> tq_queue (pool_queue p) = []) \<and>
     (shutdown_called p \<longleftrightarrow> tq_closed (pool_queue p))"

lemma running_update:
  "i < length ws \<Longrightarrow> running (ws[i := w]) + (case ws ! i of Running t \<Rightarrow> {#t#} | _ \<Rightarrow> {#}) =
    running ws + (case w of Running t \<Rightarrow> {#t#} | _ \<Rightarrow> {#})"
proof (induction ws arbitrary: i)
  case (Cons v vs)
  then show ?case by (cases i) (auto simp: running_def ac_simps)
qed simp

lemma running_idle: "running (replicate n In_pop) = {#}"
  by (induction n) (simp_all add: running_def)

lemma worker_take_cases:
  assumes "worker_take i p = Ret p'"
  obtains t q where "pop (pool_queue p) = Ret (Some t, q)" "tq_queue (pool_queue p) = t # tq_queue q"
      "tq_closed q = tq_closed (pool_queue p)"
      "p' = p\<lparr>pool_queue := q, workers := (workers p)[i := Running t], started := started p @ [t]\<rparr>"
  | "tq_queue (pool_queue p) = []" "tq_closed (pool_queue p)"
      "p' = p\<lparr>workers := (workers p)[i := Exited]\<rparr>"
proof (cases rule: tq.get_cases [of "pool_queue p"])
  case (2 x q)
  with assms that(1) [of x q] show ?thesis by (simp add: worker_take_def)
next
  case (3 q)
  have "q = pool_queue p" using 3(1) by (auto simp: pop_def split: if_splits list.splits)
  with 3 assms that(2) show ?thesis by (simp add: worker_take_def)
qed (use assms in \<open>simp add: worker_take_def\<close>)

lemma worker_step_inv:
  assumes "worker_step exec s s'" and "pool_inv n (fst s)"
  shows "pool_inv n (fst s')"
  using assms
proof (induction rule: worker_step.induct)
  case (step_take i p p' w)
  from step_take(3) show ?case
  proof (cases rule: worker_take_cases)
    case (1 t q)
    with running_update [OF step_take(1), of "Running t"] step_take(2,4) show ?thesis
      by (auto simp: pool_inv_def dest: set_update_subset_insert [THEN subsetD])
  next
    case 2
    with running_update [OF step_take(1), of Exited] step_take(2,4) show ?thesis
      by (auto simp: pool_inv_def)
  qed
next
  case (step_run i p t w p' w')
  then have p': "p' = p\<lparr>workers := (workers p)[i := In_pop], finished := finished p @ [t]\<rparr>"
    by (auto simp: worker_run_def split: prod.splits res.splits)
  have r: "running ((workers p)[i := In_pop]) + {#t#} = running (workers p)"
    using running_update [OF step_run(1), of In_pop] step_run(2) by simp
  have "mset (finished p @ [t]) + running ((workers p)[i := In_pop]) =
      mset (finished p) + running (workers p)" unfolding r [symmetric] by simp
  with step_run(4) show ?case unfolding p'
    by (auto simp: pool_inv_def simp del: mset_append dest: set_update_subset_insert [THEN subsetD])
qed

lemma pool_step_inv:
  assumes "pool_step exec s s'" and "pool_inv n (fst s)"
  shows "pool_inv n (fst s')"
  using assms
proof (induction rule: pool_step.induct)
  case (pool_worker s s')
  then show ?case by (rule worker_step_inv)
next
  case (pool_submit t p p' w)
  then show ?case
    by (cases rule: tq.put_cases [of t "pool_queue p"]) (auto simp: pool_inv_def submit_def)
next
  case (pool_try_submit t p ok p' w)
  then show ?case
    by (cases rule: tq.put_cases [of t "pool_queue p"])
      (auto simp: pool_inv_def try_submit_def try_push_push)
qed (auto simp: pool_inv_def shutdown_begin_def close_def)

interpretation pool: inductive_invariant "pool_init n hw" "pool_step exec" "\<lambda>s. pool_inv (worker_count n hw) (fst s)"
proof (unfold_locales, goal_cases)
  case (1 s)
  then show ?case
    by (simp add: pool_init_def pool_inv_def new_pool_def new_queue_def running_idle)
next
  case (2 s s')
  then show ?case using pool_step_inv by blast
qed

section \<open>Termination of the workers\<close>

definition worker_size :: "'t worker \<Rightarrow> nat" where
  "worker_size w = (case w of In_pop \<Rightarrow> 1 | Running t \<Rightarrow> 2 | Exited \<Rightarrow> 0)"

definition pool_size :: "'t ThreadPool \<times> 'w \<Rightarrow> nat" where
  "pool_size s = 3 * length (tq_queue (pool_queue (fst s))) + sum_list (map worker_size (workers (fst s)))"

lemma weight_update:
  fixes f :: "'a \<Rightarrow> 'b::comm_monoid_add"
  assumes "i < length ws"
  shows "sum_list (map f (ws[i := w])) + f (ws ! i) = sum_list (map f ws) + f w"
  using assms
proof (induction ws arbitrary: i)
  case (Cons v vs)
  then show ?case by (cases i) (auto simp: ac_simps)
qed simp

lemma worker_step_decreases:
  assumes "worker_step exec s s'"
  shows "pool_size s' < pool_size s"
  using assms
proof (induction rule: worker_step.induct)
  case (step_take i p p' w)
  from step_take(3) show ?case
  proof (cases rule: worker_take_cases)
    case (1 t q)
    with weight_update [where f = worker_size, OF step_take(1), of "Running t"] step_take(2) show ?thesis
      by (simp add: pool_size_def worker_size_def)
  next
    case 2
    with weight_update [where f = worker_size, OF step_take(1), of Exited] step_take(2) show ?thesis
      by (simp add: pool_size_def worker_size_def)
  qed
next
  case (step_run i p t w p' w')
  then have "p' = p\<lparr>workers := (workers p)[i := In_pop], finished := finished p @ [t]\<rparr>"
    by (auto simp: worker_run_def split: prod.splits res.splits)
  with weight_update [where f = worker_size, OF step_run(1), of In_pop] step_run(2) show ?case
    by (simp add: pool_size_def worker_size_def)
qed

interpretation wrk: decreasing_system "worker_step exec" "\<lambda>s. pool_inv n (fst s)" pool_size
  by unfold_locales (auto intro: worker_step_inv worker_step_decreases)

lemma worker_stuck:
  assumes "\<forall>s'. \<not> worker_step exec (p, w) s'" and "\<forall>t w. fst (exec t w) \<noteq> Blocked"
    and "tq_closed (pool_queue p)" and "i < length (workers p)"
  shows "workers p ! i = Exited"
proof (cases "workers p ! i")
  case In_pop
  obtain p' where "worker_take i p = Ret p'"
  proof (cases rule: tq.get_cases [of "pool_queue p"])
    case 1
    with assms(3) show ?thesis by simp
  qed (auto simp: worker_take_def intro: that)
  from step_take [OF assms(4) In_pop this, of exec w] assms(1) show ?thesis by blast
next
  case (Running t)
  obtain r w' where e: "exec t w = (r, w')" by force
  have "r \<noteq> Blocked" using assms(2) [rule_format, of t w] e by simp
  with e obtain p' where "worker_run exec i t p w = (Ret p', w')"
    by (cases r) (simp_all add: worker_run_def)
  from step_run [OF assms(4) Running this] assms(1) show ?thesis by blast
qed

section \<open>Properties\<close>

lemma worker_count_pos: "0 < worker_count n hw"
  by (simp add: worker_count_def)

text \<open>When the hardware concurrency is unknown there are four workers, not one.\<close>

lemma worker_count_fallback: "worker_count 0 0 = 4" "0 < n \<Longrightarrow> worker_count n hw = n"
  by (simp_all add: worker_count_def)

text \<open>
  Tasks run once and start in order: in every reachable state of the pool the tasks started,
  then those queued, are exactly the tasks accepted, in order; the tasks started are those
  finished and those a worker is running; the number of workers does not change.
\<close>

lemma tasks_once_in_order:
  assumes "reachable (pool_init n hw) (pool_step exec) (p, w)"
  shows "started p @ tq_queue (pool_queue p) = accepted p \<and>
    mset (finished p) + running (workers p) = mset (started p) \<and>
    thread_count p = worker_count n hw"
  using pool.inv_reachable [OF assms] by (simp add: pool_inv_def thread_count_def)

lemma worker_step_accepted: "worker_step exec s s' \<Longrightarrow> accepted (fst s') = accepted (fst s)"
  by (induction rule: worker_step.induct)
    (auto simp: worker_take_def worker_run_def split: res.splits prod.splits option.splits)

lemma worker_steps_accepted: "(worker_step exec)\<^sup>*\<^sup>* s s' \<Longrightarrow> accepted (fst s') = accepted (fst s)"
  by (induction rule: rtranclp_induct) (auto dest: worker_step_accepted)

lemma worker_steps_closed:
  "(worker_step exec)\<^sup>*\<^sup>* s s' \<Longrightarrow> tq_closed (pool_queue (fst s)) \<Longrightarrow> tq_closed (pool_queue (fst s'))"
proof (induction rule: rtranclp_induct)
  case (step s1 s2)
  from step(2) step.IH [OF step.prems] show ?case
    by (induction rule: worker_step.induct)
      (auto simp: worker_run_def elim!: worker_take_cases split: res.splits prod.splits)
qed simp

lemma running_none: "(\<And>w. w \<in> set ws \<Longrightarrow> w = In_pop \<or> w = Exited) \<Longrightarrow> running ws = {#}"
proof (induction ws)
  case (Cons v vs)
  from Cons.prems have "v = In_pop \<or> v = Exited" by simp
  moreover have "running vs = {#}" by (rule Cons.IH) (rule Cons.prems, simp)
  ultimately show ?case by (auto simp: running_def)
qed (simp add: running_def)

lemma running_exited: "(\<forall>i < length ws. ws ! i = Exited) \<Longrightarrow> running ws = {#}"
  by (rule running_none) (metis in_set_conv_nth)

text \<open>
  C26 Shutdown drains: once \<open>shutdown\<close> has been called, if tasks return, the workers reach a
  state in which all have left their loops, so the joins return; the queue is then empty and every
  accepted task has been executed exactly once. No schedule of the workers is longer than
  the bound \<open>pool_size\<close>.
\<close>

theorem shutdown_drains:
  assumes "reachable (pool_init n hw) (pool_step exec) (p, w)" and "shutdown_called p"
    and "\<forall>t v. fst (exec t v) \<noteq> Blocked"
  shows "(\<exists>p' w'. (worker_step exec)\<^sup>*\<^sup>* (p, w) (p', w') \<and> all_exited p' \<and>
      tq_queue (pool_queue p') = [] \<and> mset (finished p') = mset (accepted p)) \<and>
    (\<forall>m s'. (worker_step exec ^^ m) (p, w) s' \<longrightarrow> m \<le> pool_size (p, w))"
proof
  have inv: "pool_inv (worker_count n hw) (fst (p, w))" using pool.inv_reachable [OF assms(1)] .
  from wrk.reaches_end [OF inv, of exec] obtain p' w' where
    r: "(worker_step exec)\<^sup>*\<^sup>* (p, w) (p', w')" "pool_inv (worker_count n hw) p'"
      "\<forall>s. \<not> worker_step exec (p', w') s" by (metis fst_conv surj_pair)
  have "tq_closed (pool_queue p)" using inv assms(2) by (simp add: pool_inv_def)
  with worker_steps_closed [OF r(1)] have cl: "tq_closed (pool_queue p')" by simp
  have ex: "\<forall>i < length (workers p'). workers p' ! i = Exited"
    using worker_stuck [OF r(3) assms(3) cl] by blast
  have len: "0 < length (workers p')" using r(2) by (simp add: pool_inv_def worker_count_pos)
  then have "Exited \<in> set (workers p')" using ex nth_mem by metis
  then have q: "tq_queue (pool_queue p') = []" using r(2) by (simp add: pool_inv_def)
  have "mset (finished p') = mset (accepted p')"
    using r(2) q running_exited [OF ex] by (simp add: pool_inv_def)
  moreover have "accepted p' = accepted p" using worker_steps_accepted [OF r(1)] by simp
  moreover have "all_exited p'" using ex by (simp add: all_exited_def list_all_length)
  ultimately show "\<exists>p' w'. (worker_step exec)\<^sup>*\<^sup>* (p, w) (p', w') \<and> all_exited p' \<and>
      tq_queue (pool_queue p') = [] \<and> mset (finished p') = mset (accepted p)"
    using r(1) q by auto
  show "\<forall>m s'. (worker_step exec ^^ m) (p, w) s' \<longrightarrow> m \<le> pool_size (p, w)"
    using wrk.run_length [OF _ inv] by fastforce
qed

text \<open>
  A task submitted after \<open>shutdown\<close> is dropped without a word: \<open>submit\<close> returns normally
  and the pool does not change.
\<close>

lemma submit_after_shutdown:
  assumes "reachable (pool_init n hw) (pool_step exec) (p, w)" and "shutdown_called p"
  shows "submit t p = Ret p"
  using pool.inv_reachable [OF assms(1)] assms(2) by (simp add: pool_inv_def submit_def push_def)

text \<open>A pool of two workers for the witnesses: one task is running, one is queued, then shutdown.\<close>

definition demo_exec :: "string \<Rightarrow> string list \<Rightarrow> unit res \<times> string list" where
  "demo_exec t log = (if t = ''boom'' then Throw (Runtime_error t) else Ret (), log @ [t])"

definition demo_pool :: "string ThreadPool" where
  "demo_pool =
     \<lparr>pool_queue = \<lparr>tq_queue = [''b''], tq_capacity = 4096, tq_closed = True\<rparr>,
      workers = [Running ''boom'', In_pop], shutdown_called = True,
      accepted = [''boom'', ''b''], started = [''boom''], finished = []\<rparr>"

lemma demo_pool_reachable: "reachable (pool_init 2 0) (pool_step demo_exec) (demo_pool, [])"
proof -
  let ?p0 = "new_pool 2 0 :: string ThreadPool"
  let ?q = "\<lambda>ts. \<lparr>tq_queue = ts, tq_capacity = 4096, tq_closed = False\<rparr>"
  let ?p1 = "?p0\<lparr>pool_queue := ?q [''boom''], accepted := [''boom'']\<rparr>"
  let ?p2 = "?p1\<lparr>pool_queue := ?q [''boom'', ''b''], accepted := [''boom'', ''b'']\<rparr>"
  let ?p3 = "?p2\<lparr>pool_queue := ?q [''b''], workers := [Running ''boom'', In_pop], started := [''boom'']\<rparr>"
  note defs = new_pool_def worker_count_def new_queue_def TQ_DEFAULT_CAPACITY_def push_def
  have "reachable (pool_init 2 0) (pool_step demo_exec) (?p0, [])"
    by (rule reach_init) (simp add: pool_init_def)
  moreover have "pool_step demo_exec (?p0, []) (?p1, [])"
    by (rule pool_submit [of "''boom''"]) (simp add: submit_def defs)
  moreover have "pool_step demo_exec (?p1, []) (?p2, [])"
    by (rule pool_submit [of "''b''"]) (simp add: submit_def defs)
  moreover have "worker_step demo_exec (?p2, []) (?p3, [])"
    by (rule step_take [where i = 0]) (simp_all add: worker_take_def pop_def new_pool_def worker_count_def numeral_2_eq_2)
  moreover have "pool_step demo_exec (?p3, []) (shutdown_begin ?p3, [])" by (rule pool_shutdown)
  ultimately have "reachable (pool_init 2 0) (pool_step demo_exec) (shutdown_begin ?p3, [])"
    by (meson reach_step pool_worker)
  moreover have "shutdown_begin ?p3 = demo_pool"
    by (simp add: shutdown_begin_def demo_pool_def new_pool_def close_def)
  ultimately show ?thesis by simp
qed

lemma demo_pool_down: "shutdown_called demo_pool"
  by (simp add: demo_pool_def)

lemma tasks_once_in_order_witness:
  "started demo_pool @ tq_queue (pool_queue demo_pool) = [''boom'', ''b''] \<and> thread_count demo_pool = 2"
  using tasks_once_in_order [OF demo_pool_reachable] by (simp add: demo_pool_def worker_count_def)

theorem shutdown_drains_witness:
  "\<exists>p' w'. (worker_step demo_exec)\<^sup>*\<^sup>* (demo_pool, []) (p', w') \<and> all_exited p' \<and>
     mset (finished p') = {#''boom'', ''b''#}"
proof -
  have "\<forall>t v. fst (demo_exec t v) \<noteq> Blocked" by (simp add: demo_exec_def)
  from shutdown_drains [OF demo_pool_reachable demo_pool_down this]
  show ?thesis by (auto simp: demo_pool_def)
qed

lemma submit_after_shutdown_witness: "submit ''late'' demo_pool = Ret demo_pool"
  by (rule submit_after_shutdown [OF demo_pool_reachable demo_pool_down])

end
