(* ===== verification/Event_Loop.thy ===== *)
theory Event_Loop
  imports Connection_Proofs Thread_Pool "HOL-Library.AList"
begin

text \<open>
  \<open>include/core/event_loop.hpp\<close>, \<open>src/core/event_loop.cpp\<close> and
  \<open>include/core/pending_write.hpp\<close>: accepting, dispatching events to connections, and
  delivering the responses of the worker threads.

  The state \<open>server\<close> extends the kernel by the members of \<open>EventLoop\<close>. A
  \<open>std::shared_ptr<Connection>\<close> is an index into \<open>heap\<close>; \<open>connections_\<close> maps
  descriptors to such pointers. The application is the record \<open>app\<close>: the connection handler,
  which may change the application's own part of the state, and the read callback it installs.
\<close>

section \<open>State\<close>

type_synonym ConnectionPtr = nat

record PendingWrite =
  pw_conn :: "ConnectionPtr option"
  pw_data :: string
  pw_file_fd :: int
  pw_file_size :: int

record 't server = kernel +
  listen_socket :: Socket
  ev_epoll :: Epoll
  wakeup_fd :: int
  heap :: "Connection list"
  connections :: "(int \<times> ConnectionPtr) list"
  pending_writes :: "PendingWrite TaskQueue"
  thread_pool :: "'t ThreadPool"
  loop_running :: bool
  next_conn_id :: "64 word"

record ('t, 'b) app =
  conn_handler :: "(ConnectionPtr \<Rightarrow> 'b \<Rightarrow> 'b) option"
  read_cb :: "ConnectionPtr \<Rightarrow> ('t, 'b) server_scheme callback option"

definition EPOLL_TIMEOUT_MS :: int where "EPOLL_TIMEOUT_MS = 100"
definition MAX_EVENTS :: nat where "MAX_EVENTS = 1024"

definition active_connections :: "('t, 'b) server_scheme \<Rightarrow> nat" where
  "active_connections s = length (connections s)"

definition total_connections :: "('t, 'b) server_scheme \<Rightarrow> 64 word" where
  "total_connections s = next_conn_id s"

text \<open>The close callback of lines 92 to 94.\<close>

definition close_cb :: "'a kernel_scheme callback" where
  "close_cb c k = (Ret c, epoll_remove (conn_fd c) k)"

text \<open>A member function of the object a pointer refers to.\<close>

definition call_conn ::
  "(Connection \<Rightarrow> ('t, 'b) server_scheme \<Rightarrow> ('r \<times> Connection) res \<times> ('t, 'b) server_scheme) \<Rightarrow>
   ConnectionPtr \<Rightarrow> ('t, 'b) server_scheme \<Rightarrow> 'r res \<times> ('t, 'b) server_scheme" where
  "call_conn f p s =
     bind_st (f (heap s ! p) s) (\<lambda>(r, c) s1. (Ret r, s1\<lparr>heap := (heap s1)[p := c]\<rparr>))"

text \<open>The last reference to a connection goes: its destructor runs.\<close>

definition destroy_conn :: "ConnectionPtr \<Rightarrow> ('t, 'b) server_scheme \<Rightarrow> ('t, 'b) server_scheme" where
  "destroy_conn p s =
     (let s1 = connection_destroy (heap s ! p) s
      in s1\<lparr>heap := (heap s1)[p := (heap s ! p)\<lparr>sendfile_op := None, socket := no_socket\<rparr>]\<rparr>)"

section \<open>Construction and destruction\<close>

text \<open>
  A call of \<open>ThreadPool::shutdown\<close>. While the caller waits in \<open>join\<close>, the workers go
  on; what they do is the list \<open>env\<close>. The call is \<open>Blocked\<close> when a worker is still there
  after that.
\<close>

definition join_pool ::
  "(('t, 'b) server_scheme \<Rightarrow> ('t, 'b) server_scheme) list \<Rightarrow> ('t, 'b) server_scheme \<Rightarrow>
   unit res \<times> ('t, 'b) server_scheme" where
  "join_pool env s =
     (if shutdown_called (thread_pool s) then (Ret (), s)
      else let s1 = fold (\<lambda>other. other) env (s\<lparr>thread_pool := shutdown_begin (thread_pool s)\<rparr>)
           in (if all_exited (thread_pool s1) then Ret () else Blocked, s1))"

text \<open>
  The members of the loop are destroyed in reverse order of declaration. With the queue of
  pending writes and the map the last references to the connections go.
\<close>

definition destroy_members ::
  "(('t, 'b) server_scheme \<Rightarrow> ('t, 'b) server_scheme) list \<Rightarrow> ('t, 'b) server_scheme \<Rightarrow>
   unit res \<times> ('t, 'b) server_scheme" where
  "destroy_members env s =
     bind_st (join_pool env s) (\<lambda>_ s1.
       let s2 = (fold destroy_conn [0..<length (heap s1)] s1)\<lparr>connections := []\<rparr>;
           (ep, s3) = epoll_destroy (ev_epoll s2) s2;
           (l, s4) = socket_close (listen_socket s3) (s3\<lparr>ev_epoll := ep\<rparr>)
       in (Ret (), s4\<lparr>listen_socket := l\<rparr>))"

text \<open>
  The body of the constructor, after the members have been initialised. \<open>evfd\<close> is the
  result of \<open>eventfd\<close>.
\<close>

definition ctor_body ::
  "socket_calls \<Rightarrow> int \<Rightarrow> 16 word \<Rightarrow> ('t, 'b) server_scheme \<Rightarrow> unit res \<times> ('t, 'b) server_scheme" where
  "ctor_body cs evfd port s =
     (let l = listen_socket s in
      bind_st (set_reuse_addr cs True l, s) (\<lambda>_ s1.
      bind_st (set_reuse_port cs True l, s1) (\<lambda>_ s1.
      bind_st (bind_port cs port l, s1) (\<lambda>_ s1.
      bind_st (listen cs DEFAULT_BACKLOG l, s1) (\<lambda>_ s1.
      bind_st (epoll_add (sock_fd l) (EPOLLIN OR EPOLLET) s1) (\<lambda>_ s2.
        if evfd < 0 then (Throw (Runtime_error ''eventfd() failed''), s2\<lparr>wakeup_fd := evfd\<rparr>)
        else epoll_add evfd (EPOLLIN OR EPOLLET)
               (s2\<lparr>wakeup_fd := evfd, open_fds := insert evfd (open_fds s2),
                   interest := (interest s2)(evfd := None)\<rparr>)))))))"

text \<open>
  \<open>created\<close> is the result of \<open>epoll_create1\<close>, \<open>hw\<close> the hardware concurrency. The
  state given holds the kernel; its other fields are overwritten. When the body throws, the
  members are destroyed, but not by the destructor of the class: \<open>wakeup_fd_\<close> stays open.
\<close>

definition event_loop_ctor ::
  "socket_calls \<Rightarrow> errno + int \<Rightarrow> int \<Rightarrow> nat \<Rightarrow> 16 word \<Rightarrow> nat \<Rightarrow>
   (('t, 'b) server_scheme \<Rightarrow> ('t, 'b) server_scheme) list \<Rightarrow> ('t, 'b) server_scheme \<Rightarrow>
   unit res \<times> ('t, 'b) server_scheme" where
  "event_loop_ctor cs created evfd hw port n_workers env s =
     bind_st (make_tcp s) (\<lambda>l s1.
       case make_epoll MAX_EVENTS created of
         Throw e \<Rightarrow> (Throw e, snd (socket_close l s1))
       | Blocked \<Rightarrow> (Blocked, s1)
       | Ret ep \<Rightarrow>
           (let s2 = s1\<lparr>open_fds := insert (epfd ep) (open_fds s1),
                  listen_socket := l, ev_epoll := ep, wakeup_fd := -1, heap := [], connections := [],
                  pending_writes := new_queue TQ_DEFAULT_CAPACITY,
                  thread_pool := new_pool n_workers hw, loop_running := False, next_conn_id := 0\<rparr>
            in case ctor_body cs evfd port s2 of
                 (Throw e, s3) \<Rightarrow> bind_st (destroy_members env s3) (\<lambda>_ s4. (Throw e, s4))
               | (r, s3) \<Rightarrow> (r, s3)))"

definition event_loop_dtor ::
  "(('t, 'b) server_scheme \<Rightarrow> ('t, 'b) server_scheme) list \<Rightarrow> ('t, 'b) server_scheme \<Rightarrow>
   unit res \<times> ('t, 'b) server_scheme" where
  "event_loop_dtor env s =
     (let s1 = (if 0 \<le> wakeup_fd s then (sys_close (wakeup_fd s) s)\<lparr>wakeup_fd := -1\<rparr> else s)
      in bind_st (join_pool env s1) (\<lambda>_ s2. destroy_members [] s2))"

section \<open>Calls of the workers\<close>

definition submit_task :: "'t \<Rightarrow> ('t, 'b) server_scheme \<Rightarrow> unit res \<times> ('t, 'b) server_scheme" where
  "submit_task t s =
     (case submit t (thread_pool s) of
        Ret p \<Rightarrow> (Ret (), s\<lparr>thread_pool := p\<rparr>)
      | Throw e \<Rightarrow> (Throw e, s)
      | Blocked \<Rightarrow> (Blocked, s))"

text \<open>The result of \<open>push\<close> is ignored; then the loop is woken.\<close>

definition post_response ::
  "ConnectionPtr option \<Rightarrow> string \<Rightarrow> int \<Rightarrow> int \<Rightarrow> ('t, 'b) server_scheme \<Rightarrow>
   unit res \<times> ('t, 'b) server_scheme" where
  "post_response conn data f sz s =
     (case push \<lparr>pw_conn = conn, pw_data = data, pw_file_fd = f, pw_file_size = sz\<rparr> (pending_writes s) of
        Ret (ok, q) \<Rightarrow> (Ret (), sys_eventfd_write (s\<lparr>pending_writes := q\<rparr>))
      | Throw e \<Rightarrow> (Throw e, s)
      | Blocked \<Rightarrow> (Blocked, s))"

definition stop :: "('t, 'b) server_scheme \<Rightarrow> ('t, 'b) server_scheme" where
  "stop s = s\<lparr>loop_running := False\<rparr>"

section \<open>Accepting\<close>

text \<open>
  Lines 88 to 101 for one client. \<open>emplace\<close> does not replace an entry that is there; the local
  pointer then is the only one, and the connection is destroyed at the end of the round.
\<close>

definition accept_one ::
  "('t, 'b) app \<Rightarrow> Socket \<Rightarrow> ('t, 'b) server_scheme \<Rightarrow> unit res \<times> ('t, 'b) server_scheme" where
  "accept_one a client s =
     (let client_fd = sock_fd client;
          p = length (heap s);
          inserted = (map_of (connections s) client_fd = None);
          s1 = s\<lparr>next_conn_id := next_conn_id s + 1,
                 heap := heap s @ [new_connection client (next_conn_id s) s],
                 connections := (if inserted then connections s @ [(client_fd, p)] else connections s)\<rparr>
      in bind_st (epoll_add client_fd (EPOLLIN OR EPOLLET OR EPOLLRDHUP) s1) (\<lambda>_ s2.
           let s3 = (case conn_handler a of None \<Rightarrow> s2 | Some h \<Rightarrow> s2\<lparr>server.more := h p (server.more s2)\<rparr>)
           in (Ret (), if inserted then s3 else destroy_conn p s3)))"

lemma accept_one_script: "(r, s') = accept_one a client s \<Longrightarrow> accept_script s' = accept_script s"
  by (auto simp: accept_one_def Let_def bind_st_def epoll_add_def destroy_conn_def connection_destroy_def
      sendfile_reset_def sendfile_destroy_def sys_close_def socket_close_def
      split: option.splits prod.splits res.splits if_splits)

lemma socket_accept_script:
  "(Ret client, s1) = socket_accept l s \<Longrightarrow> is_valid client \<Longrightarrow>
    length (accept_script s1) < length (accept_script s)"
  by (auto simp: socket_accept_def sys_accept4_def no_socket_def is_valid_def
      split: if_splits list.splits accept_event.splits)

function accept_new_connections ::
  "('t, 'b) app \<Rightarrow> ('t, 'b) server_scheme \<Rightarrow> unit res \<times> ('t, 'b) server_scheme" where
  "accept_new_connections a s =
     (case socket_accept (listen_socket s) s of
        (Throw e, s1) \<Rightarrow> (Throw e, s1)
      | (Blocked, s1) \<Rightarrow> (Blocked, s1)
      | (Ret client, s1) \<Rightarrow>
          if \<not> is_valid client then (Ret (), s1)
          else (case accept_one a client s1 of
                  (Ret _, s2) \<Rightarrow> accept_new_connections a s2
                | (Throw e, s2) \<Rightarrow> (Throw e, s2)
                | (Blocked, s2) \<Rightarrow> (Blocked, s2)))"
  by pat_completeness auto
termination
  by (relation "measure (\<lambda>(a, s). length (accept_script s))")
    (auto, drule accept_one_script, drule (1) socket_accept_script, simp)

declare accept_new_connections.simps [simp del]

section \<open>Delivering responses\<close>

text \<open>
  What the loop thread does to a connection is quiet: neither the members of the event loop nor
  the counter of the eventfd change, so it adds no pending write and wakes nobody; nor does the
  array that \<open>wait\<close> shares.
\<close>

definition quiet :: "'a kernel_scheme \<Rightarrow> 'a kernel_scheme \<Rightarrow> bool" where
  "quiet k k' \<longleftrightarrow> kernel.more k' = kernel.more k \<and> eventfd_count k' = eventfd_count k \<and>
     raw_events_size k' = raw_events_size k"

lemma quiet_refl [simp]: "quiet k k"
  by (simp add: quiet_def)

lemma quiet_trans: "quiet k k1 \<Longrightarrow> quiet k1 k2 \<Longrightarrow> quiet k k2"
  by (simp add: quiet_def)

lemma quiet_io: "io_frame f k k' \<Longrightarrow> quiet k k'"
  by (auto simp: quiet_def io_frame_def)

lemma quiet_calls [simp]: "quiet k (sys_close f k)" "quiet k (sendfile_reset o1 k)"
  "quiet k (snd (socket_close l k))" "quiet k (epoll_remove f k)" "quiet k (snd (epoll_modify f w k))"
  "quiet k (snd (epoll_add f w k))" "quiet k (connection_destroy c k)"
  by (auto simp: quiet_def sys_close_def sendfile_reset_def sendfile_destroy_def socket_close_def epoll_remove_eq
      epoll_modify_def epoll_add_def connection_destroy_def split: option.split prod.split)

lemma send_loop_quiet: "quiet k (snd (send_loop f b k))"
proof (induction f b k rule: send_loop.induct)
  case (1 f b k)
  obtain r k1 where s: "sys_send f (readable b) k = (r, k1)" by force
  note q = quiet_io [OF sys_send_frame(1) [OF s]]
  from 1 [OF _ s [symmetric]] s q show ?case
    by (auto simp: send_loop.simps [of f b k] intro: quiet_trans [OF q] split: sum.split res.split)
qed

lemma sendfile_loop_quiet: "quiet k (snd (sendfile_loop f op k))"
proof (induction f op k rule: sendfile_loop.induct)
  case (1 f op k)
  obtain r k1 where s: "sys_sendfile f (file_fd op) (nat (offset op)) (nat (remaining op)) k = (r, k1)"
    by force
  note q = quiet_io [OF sys_sendfile_frame(1) [OF s]]
  from 1 [OF _ s [symmetric]] s q show ?case
    by (auto simp: sendfile_loop.simps [of f op k] intro: quiet_trans [OF q] split: sum.split)
qed

lemma close_cb_quiet: "quiet_close (Some close_cb)"
proof -
  have "close_cb c k = (Ret c, k\<lparr>interest := if conn_fd c \<in> open_fds k then (interest k)(conn_fd c := None)
      else interest k\<rparr>)" for c and k :: "'a kernel_scheme"
    by (simp add: close_cb_def epoll_remove_eq)
  then show ?thesis unfolding quiet_close_def call_back_simps by blast
qed

lemma close_return_quiet: "quiet k (snd (close_return r (Some close_cb) c k))"
proof (cases "state c = Closed")
  case False
  let ?k1 = "epoll_remove (conn_fd c) (sendfile_reset (sendfile_op c) k)"
  obtain l k2 where l: "socket_close (socket c) ?k1 = (l, k2)" by force
  have "quiet k k2"
    using quiet_trans [OF quiet_trans [OF quiet_calls(2) quiet_calls(4)] quiet_calls(3)] l by (metis snd_conv)
  with False l show ?thesis by (simp add: close_return_def on_closed_def close_cb_def conn_fd_def Let_def)
qed (simp add: close_return_def on_closed_def)

lemma close_return_more: "kernel.more (snd (close_return r (Some close_cb) c k)) = kernel.more k"
  using close_return_quiet [of k r c] by (simp add: quiet_def)

lemma flush_finish_quiet: "quiet k (snd (flush_finish c k))"
  by (simp add: flush_finish_def Let_def)

lemma quiet_bind:
  assumes "quiet k (snd m)" and "\<And>x k1. m = (Ret x, k1) \<Longrightarrow> quiet k1 (snd (f x k1))"
  shows "quiet k (snd (bind_st m f))"
proof -
  obtain r k1 where m: "m = (r, k1)" by force
  with assms quiet_trans [of k k1] show ?thesis by (cases r) auto
qed

lemma flush_write_quiet: "quiet k (snd (flush_write (Some close_cb) c k))"
proof -
  have f: "quiet k1 (snd (case o1 of None \<Rightarrow> flush_finish c1 k1
      | Some op \<Rightarrow> bind_st (sendfile_loop f op k1) (\<lambda>(stop2, op2) k2.
          let c2 = c1\<lparr>sendfile_op := Some op2\<rparr>
          in if stop2 = Gone then close_return 0 (Some close_cb) c2 k2 else flush_finish c2 k2)))" for o1 c1 f k1
    by (cases o1) (auto intro!: quiet_bind simp: sendfile_loop_quiet Let_def close_return_quiet flush_finish_quiet)
  show ?thesis
    unfolding flush_write_def
  proof (rule quiet_bind [OF send_loop_quiet], goal_cases)
    case (1 x k1)
    then show ?case
      using f by (auto simp: Let_def close_return_quiet flush_finish_quiet split: prod.split flush_stop.split)
  qed
qed

lemma flush_write_more: "kernel.more (snd (flush_write (Some close_cb) c k)) = kernel.more k"
  using flush_write_quiet [of k c] by (simp add: quiet_def)

definition flush_conn :: "ConnectionPtr \<Rightarrow> ('t, 'b) server_scheme \<Rightarrow> nat res \<times> ('t, 'b) server_scheme" where
  "flush_conn p s = call_conn (flush_write (Some close_cb)) p s"

lemma server_more_eq:
  "kernel.more s = kernel.more s' \<longleftrightarrow>
     listen_socket s = listen_socket s' \<and> ev_epoll s = ev_epoll s' \<and> wakeup_fd s = wakeup_fd s' \<and>
     heap s = heap s' \<and> connections s = connections s' \<and> pending_writes s = pending_writes s' \<and>
     thread_pool s = thread_pool s' \<and> loop_running s = loop_running s' \<and>
     next_conn_id s = next_conn_id s' \<and> server.more s = server.more s'"
  for s s' :: "('t, 'b) server_scheme"
  by (cases s; cases s') auto

text \<open>A flush changes one object of the heap and the kernel.\<close>

definition only_conn :: "ConnectionPtr \<Rightarrow> ('t, 'b) server_scheme \<Rightarrow> ('t, 'b) server_scheme \<Rightarrow> bool" where
  "only_conn p s s' \<longleftrightarrow>
     (\<exists>c. heap s' = (heap s)[p := c]) \<and>
     listen_socket s' = listen_socket s \<and> ev_epoll s' = ev_epoll s \<and> wakeup_fd s' = wakeup_fd s \<and>
     connections s' = connections s \<and> pending_writes s' = pending_writes s \<and>
     thread_pool s' = thread_pool s \<and> loop_running s' = loop_running s \<and>
     next_conn_id s' = next_conn_id s \<and> server.more s' = server.more s"

lemma flush_conn_only: "only_conn p s (snd (flush_conn p s))"
proof -
  obtain r s1 where f: "flush_write (Some close_cb) (heap s ! p) s = (r, s1)" by force
  with flush_write_more [of "heap s ! p" s] have "kernel.more s1 = kernel.more s" by simp
  then show ?thesis
    by (cases r)
      (auto simp: flush_conn_def call_conn_def f only_conn_def server_more_eq intro: list_update_id [symmetric])
qed

text \<open>Lines 122 to 129: the data, then the file if there is one, is handed to the connection.\<close>

definition hand_over :: "PendingWrite \<Rightarrow> ConnectionPtr \<Rightarrow> ('t, 'b) server_scheme \<Rightarrow> unit res \<times> ('t, 'b) server_scheme" where
  "hand_over pw p s =
     (case enqueue_write (pw_data pw) (heap s ! p) of
        Throw e \<Rightarrow> (Throw e, s)
      | Blocked \<Rightarrow> (Blocked, s)
      | Ret c \<Rightarrow>
          (Ret (), if 0 \<le> pw_file_fd pw
                   then case begin_sendfile (pw_file_fd pw) (pw_file_size pw) c s of
                          (c1, s1) \<Rightarrow> s1\<lparr>heap := (heap s1)[p := c1]\<rparr>
                   else s\<lparr>heap := (heap s)[p := c]\<rparr>))"

text \<open>Lines 114 to 135 for one pending write; \<open>None\<close> is an empty pointer.\<close>

definition deliver_one :: "PendingWrite \<Rightarrow> ('t, 'b) server_scheme \<Rightarrow> unit res \<times> ('t, 'b) server_scheme" where
  "deliver_one pw s =
     (if (case pw_conn pw of None \<Rightarrow> True | Some p \<Rightarrow> \<not> is_alive (heap s ! p))
      then (Ret (), if 0 \<le> pw_file_fd pw then sys_close (pw_file_fd pw) s else s)
      else let p = the (pw_conn pw) in
        bind_st (hand_over pw p s) (\<lambda>_ s1.
        bind_st (flush_conn p s1) (\<lambda>left s2.
          if 0 < left
          then epoll_modify (conn_fd (heap s2 ! p)) (EPOLLIN OR EPOLLOUT OR EPOLLET OR EPOLLRDHUP) s2
          else (Ret (), s2))))"

lemma kernel_op_more:
  "kernel.more (sys_close f k) = kernel.more k"
  "kernel.more (snd (epoll_modify f w k)) = kernel.more k"
  "kernel.more (snd (epoll_add f w k)) = kernel.more k"
  "kernel.more (epoll_remove f k) = kernel.more k"
  by (auto simp: sys_close_def epoll_modify_def epoll_add_def epoll_remove_def split: option.splits prod.splits)

lemma more_pending: "kernel.more s' = kernel.more s \<Longrightarrow> pending_writes s' = pending_writes s"
  for s s' :: "('t, 'b) server_scheme"
  by (simp add: server_more_eq)

lemma bind_st_pending:
  assumes "pending_writes (snd m) = q" and "\<And>x s. m = (Ret x, s) \<Longrightarrow> pending_writes (snd (f x s)) = q"
  shows "pending_writes (snd (bind_st m f)) = q"
proof -
  obtain r s where m: "m = (r, s)" by force
  with assms show ?thesis by (cases r) simp_all
qed

lemma hand_over_pending: "pending_writes (snd (hand_over pw p s)) = pending_writes s"
proof -
  have "pending_writes (sendfile_reset o1 s) = pending_writes s" for o1
    by (rule more_pending) simp
  then show ?thesis by (simp add: hand_over_def begin_sendfile_def split: res.split)
qed

lemma deliver_one_pending: "pending_writes (snd (deliver_one pw s)) = pending_writes s"
proof -
  have fl: "pending_writes (snd (flush_conn p s1)) = pending_writes s1" for p s1
    using flush_conn_only [of p s1] by (simp add: only_conn_def)
  have "pending_writes (snd (bind_st (hand_over pw p s) (\<lambda>_ s1.
        bind_st (flush_conn p s1) (\<lambda>left s2. if 0 < left then epoll_modify (fd s2) w s2 else (Ret (), s2)))))
      = pending_writes s" for p w fd
  proof (rule bind_st_pending)
    fix x s1 assume "hand_over pw p s = (Ret x, s1)"
    with hand_over_pending [of pw p s] have s1: "pending_writes s1 = pending_writes s" by simp
    show "pending_writes (snd (bind_st (flush_conn p s1)
        (\<lambda>left s2. if 0 < left then epoll_modify (fd s2) w s2 else (Ret (), s2)))) = pending_writes s"
    proof (rule bind_st_pending)
      fix left s2 assume "flush_conn p s1 = (Ret left, s2)"
      with fl [of p s1] s1 have "pending_writes s2 = pending_writes s" by simp
      then show "pending_writes (snd (if 0 < left then epoll_modify (fd s2) w s2 else (Ret (), s2))) =
          pending_writes s" by (simp add: more_pending [OF kernel_op_more(2)])
    qed (simp add: fl s1)
  qed (rule hand_over_pending)
  then show ?thesis by (simp add: deliver_one_def Let_def more_pending [OF kernel_op_more(1)])
qed

function drain_loop :: "('t, 'b) server_scheme \<Rightarrow> unit res \<times> ('t, 'b) server_scheme" where
  "drain_loop s =
     (case try_pop (pending_writes s) of
        (None, q) \<Rightarrow> (Ret (), s)
      | (Some pw, q) \<Rightarrow>
          (case deliver_one pw (s\<lparr>pending_writes := q\<rparr>) of
             (Ret _, s1) \<Rightarrow> drain_loop s1
           | (Throw e, s1) \<Rightarrow> (Throw e, s1)
           | (Blocked, s1) \<Rightarrow> (Blocked, s1)))"
  by pat_completeness auto

lemma drain_loop_progress:
  "(Some pw, q) = try_pop (pending_writes s) \<Longrightarrow> (r, s1) = deliver_one pw (s\<lparr>pending_writes := q\<rparr>) \<Longrightarrow>
   length (tq_queue (pending_writes s1)) < length (tq_queue (pending_writes s))"
  using deliver_one_pending [of pw "s\<lparr>pending_writes := q\<rparr>"]
  by (cases "deliver_one pw (s\<lparr>pending_writes := q\<rparr>)") (auto simp: try_pop_def split: list.splits)

termination drain_loop
  by (relation "measure (\<lambda>s. length (tq_queue (pending_writes s)))") (auto intro: drain_loop_progress)

declare drain_loop.simps [simp del]

definition drain_pending_writes :: "('t, 'b) server_scheme \<Rightarrow> unit res \<times> ('t, 'b) server_scheme" where
  "drain_pending_writes s = drain_loop (sys_eventfd_read s)"

section \<open>Events\<close>

definition conn_event ::
  "('t, 'b) app \<Rightarrow> EpollEvent \<Rightarrow> ConnectionPtr \<Rightarrow> ('t, 'b) server_scheme \<Rightarrow>
   unit res \<times> ('t, 'b) server_scheme" where
  "conn_event a e p s =
     (if Epoll.is_closed e
      then call_conn (\<lambda>c k. close_return () (Some close_cb) c k) p s
      else bind_st (if is_readable e then call_conn (on_readable (read_cb a p) (Some close_cb)) p s
                    else (Ret True, s)) (\<lambda>go_on s1.
        if \<not> go_on then (Ret (), s1)
        else if is_writable e
        then bind_st (flush_conn p s1) (\<lambda>left s2.
               if left = 0 then epoll_modify (ev_fd e) (EPOLLIN OR EPOLLET OR EPOLLRDHUP) s2
               else (Ret (), s2))
        else (Ret (), s1)))"

definition handle_event ::
  "('t, 'b) app \<Rightarrow> EpollEvent \<Rightarrow> ('t, 'b) server_scheme \<Rightarrow> unit res \<times> ('t, 'b) server_scheme" where
  "handle_event a e s =
     (if ev_fd e = sock_fd (listen_socket s) then accept_new_connections a s
      else if ev_fd e = wakeup_fd s then drain_pending_writes s
      else case map_of (connections s) (ev_fd e) of
        None \<Rightarrow> (Ret (), s)
      | Some p \<Rightarrow> conn_event a e p s)"

definition remove_connection :: "int \<Rightarrow> ('t, 'b) server_scheme \<Rightarrow> ('t, 'b) server_scheme" where
  "remove_connection f s =
     (let s1 = epoll_remove f s in s1\<lparr>connections := AList.delete f (connections s1)\<rparr>)"

section \<open>The loop\<close>

fun handle_events ::
  "('t, 'b) app \<Rightarrow> EpollEvent list \<Rightarrow> ('t, 'b) server_scheme \<Rightarrow> unit res \<times> ('t, 'b) server_scheme" where
  "handle_events a [] s = (Ret (), s)"
| "handle_events a (e # es) s = bind_st (handle_event a e s) (\<lambda>_ s1. handle_events a es s1)"

text \<open>Lines 56 to 60. The order of the removals does not matter, so the list order is taken.\<close>

definition reap :: "('t, 'b) server_scheme \<Rightarrow> ('t, 'b) server_scheme" where
  "reap s =
     fold remove_connection (map fst (filter (\<lambda>(f, p). \<not> is_alive (heap s ! p)) (connections s))) s"

definition loop_iteration :: "('t, 'b) app \<Rightarrow> ('t, 'b) server_scheme \<Rightarrow> unit res \<times> ('t, 'b) server_scheme" where
  "loop_iteration a s =
     bind_st (epoll_wait EPOLL_TIMEOUT_MS (ev_epoll s) s) (\<lambda>(evs, ep) s1.
     bind_st (handle_events a evs (s1\<lparr>ev_epoll := ep\<rparr>)) (\<lambda>_ s2. (Ret (), reap s2)))"

text \<open>
  Lines 63 to 65. The pool is joined, while the workers finish; a connection that no pending
  write refers to is destroyed with its entry.
\<close>

definition clear_connections :: "('t, 'b) server_scheme \<Rightarrow> ('t, 'b) server_scheme" where
  "clear_connections s =
     (let held = List.map_filter pw_conn (tq_queue (pending_writes s));
          s1 = fold destroy_conn (filter (\<lambda>p. p \<notin> set held) (map snd (connections s))) s
      in s1\<lparr>connections := []\<rparr>)"

definition loop_finish ::
  "(('t, 'b) server_scheme \<Rightarrow> ('t, 'b) server_scheme) list \<Rightarrow> ('t, 'b) server_scheme \<Rightarrow>
   unit res \<times> ('t, 'b) server_scheme" where
  "loop_finish env s = bind_st (join_pool env s) (\<lambda>_ s1. (Ret (), clear_connections s1))"

text \<open>
  \<open>run\<close>. While one round goes on, other threads and signal handlers act: the workers, and
  \<open>stop\<close>. What they do in each round is the list \<open>env\<close>, what is left of it when the loop
  ends is what the workers do until they are joined; when it is used up before, the loop is
  still running.
\<close>

fun run_loop ::
  "('t, 'b) app \<Rightarrow> (('t, 'b) server_scheme \<Rightarrow> ('t, 'b) server_scheme) list \<Rightarrow>
   ('t, 'b) server_scheme \<Rightarrow> unit res \<times> ('t, 'b) server_scheme" where
  "run_loop a env s =
     (if \<not> loop_running s then loop_finish env s
      else case env of
        [] \<Rightarrow> (Blocked, s)
      | other # env1 \<Rightarrow>
          bind_st (loop_iteration a s) (\<lambda>_ s1. run_loop a env1 (other s1)))"

definition run :: "('t, 'b) app \<Rightarrow> (('t, 'b) server_scheme \<Rightarrow> ('t, 'b) server_scheme) list \<Rightarrow>
   ('t, 'b) server_scheme \<Rightarrow> unit res \<times> ('t, 'b) server_scheme" where
  "run a env s = run_loop a env (s\<lparr>loop_running := True\<rparr>)"

end
