(* ===== verification/Connection_Spec.thy ===== *)
theory Connection_Spec
  imports Connection_Proofs
begin

text \<open>
  What a connection promises its users: what is queued is sent in order, headers before the
  file, under any sequence of partial writes and errors; buffers grow as needed; the
  descriptors are closed once. Two properties show where that promise ends: a second response
  during a transfer, and a file that became shorter.
\<close>

section \<open>Sending\<close>

lemma flush_write_ok:
  assumes "conn_wf k c" and "quiet_close cb" and "state c \<noteq> Closed"
  shows "\<exists>n c' k'. flush_write cb c k = (Ret (n, c'), k') \<and>
    (if state c' = Closed
     then n = 0 \<and> socket c' = no_socket \<and>
       (\<exists>rest. sent k' (conn_fd c) @ rest = sent k (conn_fd c) @ pending c k)
     else sent k' (conn_fd c) @ pending c' k' = sent k (conn_fd c) @ pending c k \<and>
       n = length (pending c' k') \<and> conn_wf k' c' \<and> socket c' = socket c \<and>
       (if n = 0 then sendfile_op c' = None \<and> state c' = (if keep_alive c then Reading else Closing)
        else state c' = state c))"
proof -
  from flush_write_cases [OF assms(1), of cb] obtain stop c1 k1 where
    f: "flush_sends c k stop c1 k1"
      "flush_write cb c k = (if stop = Gone then close_return 0 cb c1 k1 else flush_finish c1 k1)" by blast
  then have s: "sent k1 (conn_fd c) @ pending c1 k1 = sent k (conn_fd c) @ pending c k"
    and wf: "conn_wf k1 c1" and st: "state c1 = state c" "socket c1 = socket c" "keep_alive c1 = keep_alive c"
    by (auto simp: flush_sends_def)
  show ?thesis
  proof (cases "stop = Gone")
    case True
    from on_closed_eq [OF assms(2), of c1 k1] assms(3) st(1) obtain i where
      "on_closed cb c1 k1 = (Ret (c1\<lparr>state := Closed, sendfile_op := None, socket := no_socket\<rparr>),
         snd (socket_close (socket c1) ((sendfile_reset (sendfile_op c1) k1)\<lparr>interest := i\<rparr>)))" by auto
    with f(2) True s show ?thesis by (auto simp: close_return_def)
  next
    case go: False
    show ?thesis
    proof (cases "pending c1 k1 = []")
      case True
      then have "readable (write_buf c1) = []" by (simp add: pending_def)
      with go True f(2) flush_finish_ok [OF wf] s wf st show ?thesis
        by (simp add: pending_def conn_wf_def)
    next
      case False
      with go f(2) flush_finish_ok [OF wf] s wf st assms(3) show ?thesis by simp
    qed
  qed
qed

text \<open>
  C21 Delivery: whatever the kernel answers to \<open>send\<close> and \<open>sendfile\<close> (partial writes,
  interrupts, a full socket, errors), a flush returns, no assertion fails, and what the peer was
  sent followed by what is still pending is what it had been sent followed by what was
  pending: nothing is lost, repeated or reordered. The result is the number of bytes left; at
  0 the connection reads again or closes, by its keep-alive flag. After an error the
  connection is closed and the peer has a prefix.
\<close>

theorem flush_write_delivers:
  assumes "conn_wf k c" and "quiet_close cb" and "state c \<noteq> Closed"
  shows "\<exists>n c' k'. flush_write cb c k = (Ret (n, c'), k') \<and>
    (if state c' = Closed
     then n = 0 \<and> socket c' = no_socket \<and>
       (\<exists>rest. sent k' (conn_fd c) @ rest = sent k (conn_fd c) @ pending c k)
     else sent k' (conn_fd c) @ pending c' k' = sent k (conn_fd c) @ pending c k \<and>
       n = length (pending c' k') \<and> conn_wf k' c' \<and> socket c' = socket c \<and>
       (if n = 0 then sendfile_op c' = None \<and> state c' = (if keep_alive c then Reading else Closing)
        else state c' = state c))"
  using assms by (rule flush_write_ok)

definition demo_file_conn :: Connection where
  "demo_file_conn =
     \<lparr>socket = \<lparr>sock_fd = 5\<rparr>, conn_id = 0, state = Writing, read_buf = new_buffer 8,
      write_buf = \<lparr>buf_data = ''head....'', read_pos = 0, write_pos = 4\<rparr>,
      sendfile_op = Some (make_sendfile 9 6), keep_alive = True, last_active = 0\<rparr>"

definition demo_file_kernel :: "tx_event list \<Rightarrow> kernel" where
  "demo_file_kernel s =
     idle_kernel\<lparr>open_fds := {5, 9}, tx := (\<lambda>_. [])(5 := s), file_data := (\<lambda>_. [])(9 := ''<body>'')\<rparr>"

lemma demo_file_wf: "conn_wf (demo_file_kernel s) demo_file_conn"
  by (simp add: conn_wf_def demo_file_conn_def demo_file_kernel_def sendfile_wf_def make_sendfile_def)
    (simp add: buf_wf_def capacity_def)

theorem flush_write_delivers_witness:
  "\<exists>n c' k'. flush_write None demo_file_conn (demo_file_kernel [Tx_ok 2, Tx_err EINTR, Tx_ok 9, Tx_ok 2]) =
       (Ret (n, c'), k') \<and>
     sent k' 5 = ''head<bo'' \<and> pending c' k' = ''dy>'' \<and> n = 3"
proof -
  let ?k = "demo_file_kernel [Tx_ok 2, Tx_err EINTR, Tx_ok 9, Tx_ok 2]"
  have st: "state demo_file_conn \<noteq> Closed" by (simp add: demo_file_conn_def)
  obtain n c' k' where r: "flush_write None demo_file_conn ?k = (Ret (n, c'), k')"
    and p: "if state c' = Closed
     then n = 0 \<and> socket c' = no_socket \<and>
       (\<exists>rest. sent k' (conn_fd demo_file_conn) @ rest = sent ?k (conn_fd demo_file_conn) @ pending demo_file_conn ?k)
     else sent k' (conn_fd demo_file_conn) @ pending c' k' = sent ?k (conn_fd demo_file_conn) @ pending demo_file_conn ?k \<and>
       n = length (pending c' k') \<and> conn_wf k' c' \<and> socket c' = socket demo_file_conn \<and>
       (if n = 0 then sendfile_op c' = None \<and> state c' = (if keep_alive demo_file_conn then Reading else Closing)
        else state c' = state demo_file_conn)"
    using flush_write_delivers [OF demo_file_wf quiet_None st] by blast
  have "(case flush_write None demo_file_conn ?k of (Ret (n, c), k) \<Rightarrow> (sent k 5, state c) | _ \<Rightarrow> ([], Closed)) =
      (''head<bo'', Writing)" by code_simp
  then have s: "sent k' 5 = ''head<bo''" "state c' = Writing" by (simp_all add: r)
  have f: "conn_fd demo_file_conn = 5" "sent ?k 5 = []" "pending demo_file_conn ?k = ''head<body>''"
    by code_simp+
  from p s f have "''head<bo'' @ pending c' k' = ''head<body>''" "n = length (pending c' k')" by auto
  with r s show ?thesis by auto
qed

text \<open>
  C36 Queueing: data of any length is appended to what the buffer holds. The buffer grows if it
  has to, to at most twice what it must hold; the call returns and copies in bounds.
\<close>

theorem enqueue_write_appends:
  assumes "conn_wf k c"
  shows "\<exists>c'. enqueue_write data c = Ret c' \<and> conn_wf k c' \<and> state c' = Writing \<and>
    readable (write_buf c') = readable (write_buf c) @ data \<and>
    sendfile_op c' = sendfile_op c \<and> socket c' = socket c \<and> keep_alive c' = keep_alive c \<and>
    capacity (write_buf c') \<le>
      max (capacity (write_buf c)) (2 * (length (readable (write_buf c)) + length data))"
  using enqueue_write_ok [of c data] assms by (auto simp: conn_wf_def)

theorem enqueue_write_appends_witness:
  "\<exists>c'. enqueue_write ''0123456789'' demo_file_conn = Ret c' \<and>
     readable (write_buf c') = ''head0123456789'' \<and> capacity (write_buf c') \<le> 28"
proof -
  have f: "readable (write_buf demo_file_conn) = ''head''" "capacity (write_buf demo_file_conn) = 8"
    by code_simp+
  show ?thesis
    using enqueue_write_appends [OF demo_file_wf [of "[]"], of "''0123456789''"] by (auto simp: f)
qed

section \<open>Closing\<close>

text \<open>
  Descriptors of a connection are closed once: closing closes the file of an unfinished
  transfer and the socket, each once and in that order; closing again and destroying the
  closed connection do nothing.
\<close>

lemma connection_closes_once:
  assumes "quiet_close cb" and "state c \<noteq> Closed" and "-1 \<le> conn_fd c"
    and "\<forall>op. sendfile_op c = Some op \<longrightarrow> 0 \<le> file_fd op"
  shows "\<exists>c' k'. on_closed cb c k = (Ret c', k') \<and> state c' = Closed \<and>
    closes k' = closes k @ (case sendfile_op c of None \<Rightarrow> [] | Some op \<Rightarrow> [file_fd op]) @
      (if conn_fd c = -1 then [] else [conn_fd c]) \<and>
    on_closed cb c' k' = (Ret c', k') \<and> connection_destroy c' k' = k'"
proof -
  from on_closed_eq [OF assms(1,2)] obtain i where
    "on_closed cb c k = (Ret (c\<lparr>state := Closed, sendfile_op := None, socket := no_socket\<rparr>),
     snd (socket_close (socket c) ((sendfile_reset (sendfile_op c) k)\<lparr>interest := i\<rparr>)))" by blast
  moreover have "on_closed cb (c\<lparr>state := Closed, sendfile_op := None, socket := no_socket\<rparr>) k' =
      (Ret (c\<lparr>state := Closed, sendfile_op := None, socket := no_socket\<rparr>), k')" for k'
    by (simp add: on_closed_def)
  moreover have "connection_destroy (c\<lparr>state := Closed, sendfile_op := None, socket := no_socket\<rparr>) k' = k'" for k'
    by (simp add: connection_destroy_def socket_close_def no_socket_def sendfile_reset_def)
  moreover have "closes (snd (socket_close (socket c) ((sendfile_reset (sendfile_op c) k)\<lparr>interest := i\<rparr>))) =
      closes k @ (case sendfile_op c of None \<Rightarrow> [] | Some op \<Rightarrow> [file_fd op]) @
      (if conn_fd c = -1 then [] else [conn_fd c])"
    using assms(4) by (auto simp: socket_close_def sys_close_def sendfile_reset_def sendfile_destroy_def
        conn_fd_def INVALID_FD_def split: option.split)
  ultimately show ?thesis by auto
qed

lemma connection_closes_once_witness:
  "\<exists>c' k'. on_closed None demo_file_conn (demo_file_kernel []) = (Ret c', k') \<and> closes k' = [9, 5]"
proof -
  have f: "conn_fd demo_file_conn = 5" "closes (demo_file_kernel []) = []"
      "sendfile_op demo_file_conn = Some (make_sendfile 9 6)" by code_simp+
  show ?thesis
    using connection_closes_once [of None demo_file_conn "demo_file_kernel []"] f
    by (auto simp: demo_file_conn_def make_sendfile_def)
qed

section \<open>Limits\<close>

text \<open>
  Responses interleave: when a second response is queued while a file transfer is under way,
  its bytes go before the rest of the first response's body; and if it is a file too, the
  first file is closed and its rest is never sent.
\<close>

lemma second_response_overtakes:
  assumes "conn_wf k c" and "sendfile_op c = Some op"
  shows "\<exists>c'. enqueue_write data c = Ret c' \<and>
    pending c' k = readable (write_buf c) @ data @ file_rest op k \<and>
    (case begin_sendfile f sz c' k of (c2, k2) \<Rightarrow>
       closes k2 = closes k @ [file_fd op] \<and>
       pending c2 k2 = readable (write_buf c) @ data @ take (nat sz) (file_data k f))"
proof -
  from enqueue_write_ok [of c data] assms obtain b where
    b: "enqueue_write data c = Ret (c\<lparr>write_buf := b, state := Writing\<rparr>)"
      "readable b = readable (write_buf c) @ data" by (auto simp: conn_wf_def)
  with assms show ?thesis
    by (auto simp: pending_def begin_sendfile_def sendfile_reset_def sendfile_destroy_def sys_close_def
        make_sendfile_def file_rest_def conn_wf_def sendfile_wf_def)
qed

lemma second_response_overtakes_witness:
  "\<exists>c'. enqueue_write ''next'' demo_file_conn = Ret c' \<and> pending c' (demo_file_kernel []) = ''headnext<body>''"
proof -
  have f: "readable (write_buf demo_file_conn) = ''head''" "file_rest (make_sendfile 9 6) (demo_file_kernel []) = ''<body>''"
      "sendfile_op demo_file_conn = Some (make_sendfile 9 6)" by code_simp+
  show ?thesis
    using second_response_overtakes [OF demo_file_wf [of "[]"] f(3), of "''next''"] by (auto simp: f)
qed

text \<open>
  A file that became shorter during the transfer stalls the connection: at its end
  \<open>sendfile\<close> returns 0, and the flush then changes nothing but reports bytes left, however
  often it is called.
\<close>

lemma truncated_file_stalls:
  assumes "buf_wf (write_buf c)" and "readable (write_buf c) = []"
    and "sendfile_op c = Some op" and "sendfile_active op" and "file_fd op \<in> open_fds k"
    and "length (file_data k (file_fd op)) \<le> nat (offset op)"
    and "conn_fd c \<in> open_fds k" and "tx k (conn_fd c) = Tx_ok m # s" and "remaining op < 2 ^ 63"
  shows "\<exists>k'. flush_write cb c k = (Ret (nat (remaining op), c), k') \<and>
    sent k' = sent k \<and> closes k' = closes k \<and> 0 < nat (remaining op)"
proof -
  let ?k = "k\<lparr>tx := (tx k)(conn_fd c := s), sent := (sent k)(conn_fd c := sent k (conn_fd c))\<rparr>"
  have e: "buf_empty (write_buf c)" using assms(1,2) by (simp add: buf_empty_iff)
  have "sys_sendfile (conn_fd c) (file_fd op) (nat (offset op)) (nat (remaining op)) k = (Inr 0, ?k)"
    using assms by (simp add: sys_sendfile_def next_tx_def)
  then have "sendfile_loop (conn_fd c) op k = (Ret (Go_on, op), ?k)"
    using assms(4) by (simp add: sendfile_loop.simps [of _ op k])
  moreover have "send_loop (conn_fd c) (write_buf c) k = (Ret (Go_on, write_buf c), k)"
    using e by (simp add: send_loop.simps [of _ _ k])
  moreover have "c\<lparr>sendfile_op := Some op\<rparr> = c" using assms(3) by (cases c) simp
  moreover have "readable_bytes (write_buf c) = 0" using e by (simp add: buf_empty_def)
  ultimately have "flush_write cb c k = (Ret (nat (remaining op), c), ?k)"
    using assms(3,4,9) e by (simp add: flush_write_def flush_finish_def Let_def off_to_size_small sendfile_active_def)
  then show ?thesis using assms(4) by (auto simp: sendfile_active_def)
qed

lemma truncated_file_stalls_witness:
  "\<exists>k'. flush_write None
      (demo_file_conn\<lparr>write_buf := new_buffer 8, sendfile_op := Some \<lparr>file_fd = 9, offset = 6, remaining = 4\<rparr>\<rparr>)
      (demo_file_kernel [Tx_ok 100]) =
    (Ret (nat 4, demo_file_conn\<lparr>write_buf := new_buffer 8, sendfile_op := Some \<lparr>file_fd = 9, offset = 6, remaining = 4\<rparr>\<rparr>), k')"
proof -
  let ?c = "demo_file_conn\<lparr>write_buf := new_buffer 8, sendfile_op := Some \<lparr>file_fd = 9, offset = 6, remaining = 4\<rparr>\<rparr>"
  have "buf_wf (write_buf ?c)" "readable (write_buf ?c) = []" by simp_all
  moreover have "conn_fd ?c \<in> open_fds (demo_file_kernel [Tx_ok 100])"
    "tx (demo_file_kernel [Tx_ok 100]) (conn_fd ?c) = Tx_ok 100 # []" by code_simp+
  ultimately show ?thesis
    using truncated_file_stalls [of ?c "\<lparr>file_fd = 9, offset = 6, remaining = 4\<rparr>" "demo_file_kernel [Tx_ok 100]" 100 "[]" None]
    by (auto simp: demo_file_kernel_def sendfile_active_def)
qed

text \<open>
  \<open>flush_write\<close> does not look at the state: flushing a closed connection that has nothing left to
  send puts it back into \<open>Reading\<close> or \<open>Closing\<close>, although its socket is gone.
\<close>

lemma flush_reopens_closed:
  assumes "state c = Closed" and "buf_empty (write_buf c)" and "sendfile_op c = None"
  shows "\<exists>c'. flush_write cb c k = (Ret (0, c'), k) \<and> socket c' = socket c \<and>
    state c' = (if keep_alive c then Reading else Closing) \<and> is_alive c'"
proof -
  have "send_loop (conn_fd c) (write_buf c) k = (Ret (Go_on, write_buf c), k)"
    using assms(2) by (simp add: send_loop.simps [of _ _ k])
  moreover have "readable_bytes (write_buf c) = 0" using assms(2) by (simp add: buf_empty_def)
  ultimately show ?thesis
    using assms by (simp add: flush_write_def flush_finish_def sendfile_reset_def is_alive_def)
qed

end
