(* ===== verification/Event_Loop_Spec.thy ===== *)
theory Event_Loop_Spec
  imports Event_Loop Connection_Spec
begin

text \<open>
  What the event loop does with a pending write, an event and a client, and where it goes
  wrong: errors that end the server, connections that are never closed, clients that are
  lost.
\<close>

section \<open>Flushing a registered connection\<close>

lemma file_rest_heap [simp]: "file_rest op (s\<lparr>heap := h\<rparr>) = file_rest op s"
  for s :: "('t, 'b) server_scheme"
  by (simp add: file_rest_def)

lemma pending_heap [simp]: "pending c (s\<lparr>heap := h\<rparr>) = pending c s"
  for s :: "('t, 'b) server_scheme"
  by (simp add: pending_def split: option.split)

lemma sendfile_wf_heap [simp]: "sendfile_wf (s\<lparr>heap := h\<rparr>) = sendfile_wf s"
  for s :: "('t, 'b) server_scheme"
  by (simp add: sendfile_wf_def fun_eq_iff)

lemma conn_wf_heap [simp]: "conn_wf (s\<lparr>heap := h\<rparr>) c = conn_wf s c"
  for s :: "('t, 'b) server_scheme"
  by (simp add: conn_wf_def)

lemma interest_irrelevant [simp]:
  "sendfile_wf (k\<lparr>interest := i\<rparr>) = sendfile_wf k" "conn_wf (k\<lparr>interest := i\<rparr>) c = conn_wf k c"
  "pending c (k\<lparr>interest := i\<rparr>) = pending c k"
  by (simp_all add: sendfile_wf_def conn_wf_def pending_def file_rest_def fun_eq_iff split: option.split)
    (cases "sendfile_op c"; simp add: sendfile_wf_def)?

text \<open>The connection's descriptor is open and in the interest list, and is not its own file.\<close>

definition registered :: "'a kernel_scheme \<Rightarrow> Connection \<Rightarrow> bool" where
  "registered k c \<longleftrightarrow> conn_fd c \<in> open_fds k \<and> interest k (conn_fd c) \<noteq> None \<and>
     (\<forall>op. sendfile_op c = Some op \<longrightarrow> file_fd op \<noteq> conn_fd c)"

lemma flush_write_registered:
  assumes "conn_wf k c" and "registered k c" and "flush_write (Some close_cb) c k = (Ret (n, c'), k')"
    and "state c \<noteq> Closed" and "state c' \<noteq> Closed"
  shows "registered k' c'"
proof -
  from flush_write_cases [OF assms(1), of "Some close_cb"] obtain stop c1 k1 where
    f: "flush_sends c k stop c1 k1"
      "flush_write (Some close_cb) c k = (if stop = Gone then close_return 0 (Some close_cb) c1 k1 else flush_finish c1 k1)"
    by blast
  then have wf: "conn_wf k1 c1" and fr: "io_frame (conn_fd c) k k1"
    and c1: "conn_fd c1 = conn_fd c" "state c1 = state c"
      "map_option file_fd (sendfile_op c1) = map_option file_fd (sendfile_op c)"
    by (auto simp: flush_sends_def conn_fd_def)
  have reg: "registered k1 c1"
    using assms(2) c1 io_frame_sel(1,3) [OF fr]
    by (cases "sendfile_op c"; cases "sendfile_op c1") (simp_all add: registered_def)
  have "stop \<noteq> Gone"
    using f(2) assms(3-5) c1 on_closed_eq [OF close_cb_quiet, of c1 k1] by (auto simp: close_return_def)
  with f(2) assms(3) flush_finish_ok [OF wf] reg show ?thesis
    by (auto simp: registered_def conn_fd_def sendfile_reset_def sendfile_destroy_def Kernel.sys_close_def
        split: if_splits option.splits)
qed

lemma flush_conn_ok:
  assumes "p < length (heap s)" and "c = heap s ! p" and "conn_wf s c" and "registered s c" and "state c \<noteq> Closed"
  shows "\<exists>left c' s'. flush_conn p s = (Ret left, s') \<and> heap s' ! p = c' \<and> only_conn p s s' \<and>
    (if state c' = Closed
     then left = 0 \<and> (\<exists>rest. sent s' (conn_fd c) @ rest = sent s (conn_fd c) @ pending c s)
     else sent s' (conn_fd c) @ pending c' s' = sent s (conn_fd c) @ pending c s \<and>
       left = length (pending c' s') \<and> conn_wf s' c' \<and> registered s' c' \<and> conn_fd c' = conn_fd c \<and>
       (left = 0 \<longrightarrow> state c' = (if keep_alive c then Reading else Closing)))"
proof -
  from flush_write_ok [OF assms(3) close_cb_quiet assms(5)] obtain n c' s1 where
    f: "flush_write (Some close_cb) c s = (Ret (n, c'), s1)"
      "if state c' = Closed
       then n = 0 \<and> socket c' = no_socket \<and> (\<exists>rest. sent s1 (conn_fd c) @ rest = sent s (conn_fd c) @ pending c s)
       else sent s1 (conn_fd c) @ pending c' s1 = sent s (conn_fd c) @ pending c s \<and>
         n = length (pending c' s1) \<and> conn_wf s1 c' \<and> socket c' = socket c \<and>
         (if n = 0 then sendfile_op c' = None \<and> state c' = (if keep_alive c then Reading else Closing)
          else state c' = state c)" by blast
  have more: "kernel.more s1 = kernel.more s" using flush_write_more [of c s] f(1) by simp
  then have "length (heap s1) = length (heap s)" by (simp add: server_more_eq)
  then have h: "heap (s1\<lparr>heap := (heap s1)[p := c']\<rparr>) ! p = c'" using assms(1) by simp
  have fc: "flush_conn p s = (Ret n, s1\<lparr>heap := (heap s1)[p := c']\<rparr>)"
    using f(1) assms(2) by (simp add: flush_conn_def call_conn_def)
  have reg: "state c' \<noteq> Closed \<longrightarrow> registered (s1\<lparr>heap := (heap s1)[p := c']\<rparr>) c'"
    using flush_write_registered [OF assms(3,4) f(1) assms(5)] by (simp add: registered_def)
  have oc: "only_conn p s (s1\<lparr>heap := (heap s1)[p := c']\<rparr>)"
    using flush_conn_only [of p s] fc by simp
  have fd: "socket c' = socket c \<longrightarrow> conn_fd c' = conn_fd c" by (simp add: conn_fd_def)
  show ?thesis
    using fc h oc f(2) reg fd
    by (intro exI [of _ n] exI [of _ c'] exI [of _ "s1\<lparr>heap := (heap s1)[p := c']\<rparr>"])
      (auto split: if_splits)
qed

lemma hand_over_ok:
  assumes "p < length (heap s)" and "c = heap s ! p" and "conn_wf s c" and "sendfile_op c = None"
    and "0 \<le> pw_file_fd pw \<longrightarrow> sendfile_wf s (make_sendfile (pw_file_fd pw) (pw_file_size pw))"
  shows "\<exists>c' s'. hand_over pw p s = (Ret (), s') \<and> s' = s\<lparr>heap := (heap s)[p := c']\<rparr> \<and>
    conn_wf s' c' \<and> state c' = Writing \<and> socket c' = socket c \<and> keep_alive c' = keep_alive c \<and>
    map_option file_fd (sendfile_op c') = (if 0 \<le> pw_file_fd pw then Some (pw_file_fd pw) else None) \<and>
    pending c' s' = pending c s @ pw_data pw @
      (if 0 \<le> pw_file_fd pw then take (nat (pw_file_size pw)) (file_data s (pw_file_fd pw)) else [])"
proof -
  from enqueue_write_ok [of c "pw_data pw"] assms(3) obtain b where
    b: "enqueue_write (pw_data pw) c = Ret (c\<lparr>write_buf := b, state := Writing\<rparr>)" "buf_wf b"
      "readable b = readable (write_buf c) @ pw_data pw" "capacity (write_buf c) \<le> capacity b"
    by (auto simp: conn_wf_def)
  let ?c0 = "c\<lparr>write_buf := b, state := Writing\<rparr>"
  let ?c1 = "c\<lparr>write_buf := b, sendfile_op := Some (make_sendfile (pw_file_fd pw) (pw_file_size pw)),
    state := Writing\<rparr>"
  have cap: "0 < capacity b" using assms(3) b(4) by (simp add: conn_wf_def)
  show ?thesis
  proof (cases "0 \<le> pw_file_fd pw")
    case True
    have "hand_over pw p s = (Ret (), s\<lparr>heap := (heap s)[p := ?c1]\<rparr>)"
      using True b(1) assms(2,4) by (simp add: hand_over_def begin_sendfile_def sendfile_reset_def)
    then show ?thesis
      using True b(2,3) cap assms(3,4,5)
      by (intro exI [of _ ?c1] exI [of _ "s\<lparr>heap := (heap s)[p := ?c1]\<rparr>"])
        (simp add: conn_wf_def pending_def make_sendfile_def file_rest_def)
  next
    case False
    have "hand_over pw p s = (Ret (), s\<lparr>heap := (heap s)[p := ?c0]\<rparr>)"
      using False b(1) assms(2) by (simp add: hand_over_def)
    then show ?thesis
      using False b(2,3) cap assms(3,4)
      by (intro exI [of _ ?c0] exI [of _ "s\<lparr>heap := (heap s)[p := ?c0]\<rparr>"])
        (simp add: conn_wf_def pending_def)
  qed
qed

section \<open>A concrete server for the witnesses\<close>

text \<open>The listening socket is 3, the eventfd 6; \<open>hs\<close> and \<open>cs\<close> are the heap and the entries.\<close>

definition demo_server :: "Connection list \<Rightarrow> (int \<times> nat) list \<Rightarrow> kernel \<Rightarrow> 't server" where
  "demo_server hs cs k = kernel.extend k
     (server.fields \<lparr>sock_fd = 3\<rparr> \<lparr>epfd = 4, ep_events = [], n_ready = 0\<rparr> 6 hs cs (new_queue 4096)
        (new_pool 2 0) True 1)"

lemma demo_server_sel [simp]:
  "clock (demo_server hs cs k) = clock k" "open_fds (demo_server hs cs k) = open_fds k"
  "rx (demo_server hs cs k) = rx k" "tx (demo_server hs cs k) = tx k" "sent (demo_server hs cs k) = sent k"
  "file_data (demo_server hs cs k) = file_data k" "closes (demo_server hs cs k) = closes k"
  "interest (demo_server hs cs k) = interest k" "accept_script (demo_server hs cs k) = accept_script k"
  "listen_socket (demo_server hs cs k) = \<lparr>sock_fd = 3\<rparr>" "wakeup_fd (demo_server hs cs k) = 6"
  "heap (demo_server hs cs k) = hs" "connections (demo_server hs cs k) = cs"
  by (simp_all add: demo_server_def kernel.defs server.defs)

definition demo_kernel :: "tx_event list \<Rightarrow> kernel" where
  "demo_kernel t = idle_kernel\<lparr>open_fds := {3, 4, 5, 6, 9}, tx := (\<lambda>_. [])(5 := t),
     interest := (\<lambda>_. None)(5 := Some 1), file_data := (\<lambda>_. [])(9 := ''<body>'')\<rparr>"

lemma demo_kernel_sel [simp]:
  "open_fds (demo_kernel t) = {3, 4, 5, 6, 9}" "tx (demo_kernel t) = (\<lambda>_. [])(5 := t)"
  "interest (demo_kernel t) = (\<lambda>_. None)(5 := Some 1)" "file_data (demo_kernel t) = (\<lambda>_. [])(9 := ''<body>'')"
  "sent (demo_kernel t) = (\<lambda>_. [])" "closes (demo_kernel t) = []" "rx (demo_kernel t) = (\<lambda>_. [])"
  "accept_script (demo_kernel t) = []"
  by (simp_all add: demo_kernel_def idle_kernel_def)

definition demo_conn :: "State \<Rightarrow> bool \<Rightarrow> Buffer \<Rightarrow> Connection" where
  "demo_conn st ka b =
     \<lparr>socket = \<lparr>sock_fd = 5\<rparr>, conn_id = 0, state = st, read_buf = new_buffer 8, write_buf = b,
      sendfile_op = None, keep_alive = ka, last_active = 0\<rparr>"

lemma demo_conn_sel [simp]:
  "conn_fd (demo_conn st ka b) = 5" "state (demo_conn st ka b) = st" "keep_alive (demo_conn st ka b) = ka"
  "write_buf (demo_conn st ka b) = b" "sendfile_op (demo_conn st ka b) = None"
  "conn_wf k (demo_conn st ka (new_buffer 8))" "pending (demo_conn st ka (new_buffer 8)) k = []"
  by (simp_all add: demo_conn_def conn_fd_def conn_wf_def pending_def)

definition demo_app :: "(string, unit) app" where
  "demo_app = \<lparr>conn_handler = None, read_cb = (\<lambda>_. None)\<rparr>"

section \<open>Pending writes\<close>

definition pw_output :: "PendingWrite \<Rightarrow> 'a kernel_scheme \<Rightarrow> string" where
  "pw_output pw k = pw_data pw @
     (if 0 \<le> pw_file_fd pw then take (nat (pw_file_size pw)) (file_data k (pw_file_fd pw)) else [])"

definition pw_file_ok :: "'a kernel_scheme \<Rightarrow> Connection \<Rightarrow> PendingWrite \<Rightarrow> bool" where
  "pw_file_ok k c pw \<longleftrightarrow> (0 \<le> pw_file_fd pw \<longrightarrow>
     sendfile_wf k (make_sendfile (pw_file_fd pw) (pw_file_size pw)) \<and> pw_file_fd pw \<noteq> conn_fd c)"

lemma deliver_one_ok:
  assumes "p < length (heap s)" and "c = heap s ! p" and "pw_conn pw = Some p" and "state c \<noteq> Closed"
    and "conn_wf s c" and "registered s c" and "sendfile_op c = None" and "pw_file_ok s c pw"
  shows "\<exists>s' c'. deliver_one pw s = (Ret (), s') \<and> heap s' ! p = c' \<and>
    (if state c' = Closed
     then \<exists>rest. sent s' (conn_fd c) @ rest = sent s (conn_fd c) @ pending c s @ pw_output pw s
     else sent s' (conn_fd c) @ pending c' s' = sent s (conn_fd c) @ pending c s @ pw_output pw s \<and>
       conn_wf s' c' \<and> registered s' c' \<and> conn_fd c' = conn_fd c \<and>
       (if pending c' s' = [] then state c' = (if keep_alive c then Reading else Closing)
        else interest s' (conn_fd c) = Some (EPOLLIN OR EPOLLOUT OR EPOLLET OR EPOLLRDHUP)))"
proof -
  have wf: "0 \<le> pw_file_fd pw \<longrightarrow> sendfile_wf s (make_sendfile (pw_file_fd pw) (pw_file_size pw))"
    using assms(8) by (simp add: pw_file_ok_def)
  from hand_over_ok [OF assms(1,2,5,7) wf] obtain c1 s1 where
    h: "hand_over pw p s = (Ret (), s1)" "s1 = s\<lparr>heap := (heap s)[p := c1]\<rparr>" "conn_wf s1 c1" "state c1 = Writing"
      "socket c1 = socket c" "keep_alive c1 = keep_alive c"
      "map_option file_fd (sendfile_op c1) = (if 0 \<le> pw_file_fd pw then Some (pw_file_fd pw) else None)"
      "pending c1 s1 = pending c s @ pw_output pw s" by (auto simp: pw_output_def)
  have fd: "conn_fd c1 = conn_fd c" using h(5) by (simp add: conn_fd_def)
  have reg: "registered s1 c1"
    using assms(6,8) h(2,7) fd by (auto simp: registered_def pw_file_ok_def split: if_splits)
  have "p < length (heap s1)" "c1 = heap s1 ! p" "state c1 \<noteq> Closed" using assms(1) h(2,4) by simp_all
  from flush_conn_ok [OF this(1,2) h(3) reg this(3)] obtain left c2 s2 where
    f: "flush_conn p s1 = (Ret left, s2)" "heap s2 ! p = c2"
      "if state c2 = Closed then left = 0 \<and> (\<exists>rest. sent s2 (conn_fd c1) @ rest = sent s1 (conn_fd c1) @ pending c1 s1)
       else sent s2 (conn_fd c1) @ pending c2 s2 = sent s1 (conn_fd c1) @ pending c1 s1 \<and>
         left = length (pending c2 s2) \<and> conn_wf s2 c2 \<and> registered s2 c2 \<and> conn_fd c2 = conn_fd c1 \<and>
         (left = 0 \<longrightarrow> state c2 = (if keep_alive c1 then Reading else Closing))" by blast
  have sent1: "sent s1 = sent s" using h(2) by simp
  have alive: "is_alive c" using assms(4) by (simp add: is_alive_def)
  have d: "deliver_one pw s = (if 0 < left
      then epoll_modify (conn_fd c2) (EPOLLIN OR EPOLLOUT OR EPOLLET OR EPOLLRDHUP) s2 else (Ret (), s2))"
    using alive assms(2,3) h(1) f(1,2) by (simp add: deliver_one_def)
  show ?thesis
  proof (cases "0 < left")
    case False
    with d f(2,3) h(6,8) fd sent1 show ?thesis by (auto split: if_splits)
  next
    case True
    with f(3) have r: "registered s2 c2" "state c2 \<noteq> Closed" "conn_wf s2 c2" "conn_fd c2 = conn_fd c"
      "pending c2 s2 \<noteq> []" using fd by (auto split: if_splits)
    let ?s3 = "s2\<lparr>interest := (interest s2)(conn_fd c := Some (EPOLLIN OR EPOLLOUT OR EPOLLET OR EPOLLRDHUP))\<rparr>"
    have "deliver_one pw s = (Ret (), ?s3)"
      using d True r(1,4) by (simp add: epoll_modify_ok registered_def)
    moreover have "pending c2 ?s3 = pending c2 s2" "conn_wf ?s3 c2 = conn_wf s2 c2"
      by simp_all
    moreover have "registered ?s3 c2" using r(1,4) by (simp add: registered_def)
    ultimately show ?thesis using f(2,3) h(8) fd sent1 r by (auto split: if_splits)
  qed
qed



text \<open>
  A response that comes too late is dropped cleanly: when its connection has closed, or is
  gone, its file is closed and nothing else happens.
\<close>

lemma late_response_closes_file:
  assumes "pw_conn pw = None \<or> (\<exists>p. pw_conn pw = Some p \<and> state (heap s ! p) = Closed)"
  shows "deliver_one pw s =
    (Ret (), if 0 \<le> pw_file_fd pw then Kernel.sys_close (pw_file_fd pw) s else s)"
  using assms by (auto simp: deliver_one_def is_alive_def)

lemma late_response_closes_file_witness:
  "deliver_one \<lparr>pw_conn = Some 0, pw_data = ''head'', pw_file_fd = 9, pw_file_size = 6\<rparr>
     (demo_server [demo_conn Closed True (new_buffer 8)] [(5, 0)] (demo_kernel [])) =
   (Ret (), Kernel.sys_close 9 (demo_server [demo_conn Closed True (new_buffer 8)] [(5, 0)] (demo_kernel [])))"
  using late_response_closes_file
    [of "\<lparr>pw_conn = Some 0, pw_data = ''head'', pw_file_fd = 9, pw_file_size = 6\<rparr>"
        "demo_server [demo_conn Closed True (new_buffer 8)] [(5, 0)] (demo_kernel [])"]
  by simp

section \<open>Errors\<close>

lemma flush_conn_send_error:
  assumes "p < length (heap s)" and "c = heap s ! p" and "buf_wf (write_buf c)" and "readable (write_buf c) \<noteq> []"
    and "state c \<noteq> Closed" and "conn_fd c \<in> open_fds s" and "tx s (conn_fd c) = Tx_err e # t"
    and "e \<noteq> EAGAIN" and "e \<noteq> EINTR" and "conn_fd c \<noteq> -1"
  shows "\<exists>s'. flush_conn p s = (Ret 0, s') \<and> conn_fd c \<notin> open_fds s' \<and> state (heap s' ! p) = Closed"
proof -
  let ?s1 = "s\<lparr>tx := (tx s)(conn_fd c := t)\<rparr>"
  have "sys_send (conn_fd c) (readable (write_buf c)) s = (Inl e, ?s1)"
    using assms(6,7) by (simp add: sys_send_def next_tx_def)
  then have "send_loop (conn_fd c) (write_buf c) s = (Ret (Gone, write_buf c), ?s1)"
    using assms(3,4,8,9) by (simp add: send_loop.simps [of _ _ s] buf_empty_iff)
  moreover from on_closed_eq [OF close_cb_quiet, of c ?s1] assms(5) obtain i where
    "on_closed (Some close_cb) c ?s1 = (Ret (c\<lparr>state := Closed, sendfile_op := None, socket := no_socket\<rparr>),
      snd (socket_close (socket c) ((sendfile_reset (sendfile_op c) ?s1)\<lparr>interest := i\<rparr>)))" by blast
  moreover have "c\<lparr>write_buf := write_buf c\<rparr> = c" by simp
  ultimately have f: "flush_write (Some close_cb) c s =
      (Ret (0, c\<lparr>state := Closed, sendfile_op := None, socket := no_socket\<rparr>),
       snd (socket_close (socket c) ((sendfile_reset (sendfile_op c) ?s1)\<lparr>interest := i\<rparr>)))" (is "_ = (Ret (0, ?c'), ?s2)")
    by (simp add: flush_write_def close_return_def)
  have more: "kernel.more ?s2 = kernel.more s" using flush_write_more [of c s] f by simp
  then have len: "length (heap ?s2) = length (heap s)" by (simp only: server_more_eq)
  have op: "conn_fd c \<notin> open_fds ?s2"
    using assms(10) by (simp add: socket_close_def conn_fd_def INVALID_FD_def Kernel.sys_close_def)
  have "flush_conn p s = (Ret 0, ?s2\<lparr>heap := (heap ?s2)[p := ?c']\<rparr>)"
    using f assms(2) by (simp only: flush_conn_def call_conn_def bind_st_simps case_prod_conv)
  then show ?thesis using op len assms(1) by (intro exI [of _ "?s2\<lparr>heap := (heap ?s2)[p := ?c']\<rparr>"]) simp
qed

text \<open>
  C39 A client can end the server: when a connection waits for writability and the next
  \<open>send\<close> fails (the peer has reset the connection), the flush closes the connection and
  reports 0 bytes left; the event loop takes that for completion and changes the interest of the
  closed descriptor, which throws. Nothing on the way to \<open>main\<close> catches it.
\<close>

theorem send_error_ends_server:
  assumes "ev_fd e \<noteq> sock_fd (listen_socket s)" and "ev_fd e \<noteq> wakeup_fd s"
    and "map_of (connections s) (ev_fd e) = Some p" and "p < length (heap s)"
    and "c = heap s ! p" and "conn_fd c = ev_fd e" and "ev_fd e \<noteq> -1" and "ev_fd e \<in> open_fds s"
    and "state c = Writing" and "buf_wf (write_buf c)" and "readable (write_buf c) \<noteq> []"
    and "ev_events e = EPOLLOUT" and "tx s (ev_fd e) = Tx_err ECONNRESET # t"
  shows "fst (handle_events a (e # es) s) = Throw (throw_errno ''epoll_ctl(MOD)'' EBADF)"
proof -
  have ev: "\<not> Epoll.is_closed e" "\<not> is_readable e" "is_writable e"
    using assms(12) by (simp_all add: event_defs event_masks)
  from flush_conn_send_error [of p s c ECONNRESET t] assms obtain s' where
    "flush_conn p s = (Ret 0, s')" "ev_fd e \<notin> open_fds s'" by auto
  then have "handle_event a e s = (Throw (throw_errno ''epoll_ctl(MOD)'' EBADF), s')"
    using assms(1-3) ev by (simp add: handle_event_def conn_event_def epoll_modify_closed)
  then show ?thesis by simp
qed

theorem send_error_ends_server_witness:
  "fst (handle_events demo_app [\<lparr>ev_events = EPOLLOUT, ev_fd = 5\<rparr>]
     (demo_server [demo_conn Writing True \<lparr>buf_data = ''rest'', read_pos = 0, write_pos = 4\<rparr>] [(5, 0)]
        (demo_kernel [Tx_err ECONNRESET]))) = Throw (throw_errno ''epoll_ctl(MOD)'' EBADF)"
  by (rule send_error_ends_server [where p = 0 and t = "[]"
        and c = "demo_conn Writing True \<lparr>buf_data = ''rest'', read_pos = 0, write_pos = 4\<rparr>"])
    (simp_all add: buf_wf_def readable_alt)

text \<open>
  Accepting stops early: an aborted client ends the round with the clients after it still
  waiting, although the edge-triggered event is not repeated for them; any other error, such as
  too many open files, throws out of the loop.
\<close>

lemma accept_error_stops:
  assumes "sock_fd (listen_socket s) \<in> open_fds s" and "accept_script s = Acc_err e # rest" and "e \<noteq> EAGAIN"
  shows "accept_new_connections a s =
    (if e = ECONNABORTED then Ret () else Throw (throw_errno ''accept4()'' e), s\<lparr>accept_script := rest\<rparr>)"
  using assms
  by (simp add: accept_new_connections.simps [of a s] socket_accept_def sys_accept4_def no_socket_def is_valid_def)

lemma accept_error_stops_witness:
  "accept_new_connections demo_app (demo_server [] [] ((demo_kernel [])\<lparr>accept_script := [Acc_err ECONNABORTED, Acc_ok 7 [] []]\<rparr>)) =
   (Ret (), (demo_server [] [] ((demo_kernel [])\<lparr>accept_script := [Acc_err ECONNABORTED, Acc_ok 7 [] []]\<rparr>))
              \<lparr>accept_script := [Acc_ok 7 [] []]\<rparr>)"
  using accept_error_stops [of "demo_server [] [] ((demo_kernel [])\<lparr>accept_script := [Acc_err ECONNABORTED, Acc_ok 7 [] []]\<rparr>)"
      ECONNABORTED "[Acc_ok 7 [] []]" demo_app]
  by simp

text \<open>
  A hang-up comes first: when an event reports both data and a hang-up, the connection is
  closed and the data, a complete request perhaps, is never read.
\<close>

lemma hangup_discards_input:
  assumes "Epoll.is_closed e" and "p < length (heap s)" and "state (heap s ! p) \<noteq> Closed"
  shows "\<exists>s'. conn_event a e p s = (Ret (), s') \<and> state (heap s' ! p) = Closed \<and>
    rx s' = rx s \<and> sent s' = sent s \<and> server.more s' = server.more s \<and> thread_pool s' = thread_pool s"
proof -
  let ?c = "heap s ! p"
  from on_closed_eq [OF close_cb_quiet assms(3), of s] obtain i where
    oc: "on_closed (Some close_cb) ?c s = (Ret (?c\<lparr>state := Closed, sendfile_op := None, socket := no_socket\<rparr>),
      snd (socket_close (socket ?c) ((sendfile_reset (sendfile_op ?c) s)\<lparr>interest := i\<rparr>)))" (is "_ = (Ret ?c', ?s1)")
    by blast
  have more: "kernel.more ?s1 = kernel.more s"
    using close_return_more [of "()" ?c s] oc by (simp add: close_return_def)
  then have m: "heap ?s1 = heap s" "server.more ?s1 = server.more s" "thread_pool ?s1 = thread_pool s"
    by (simp_all only: server_more_eq)
  have k: "rx ?s1 = rx s" "sent ?s1 = sent s" by simp_all
  have "conn_event a e p s = (Ret (), ?s1\<lparr>heap := (heap ?s1)[p := ?c']\<rparr>)"
    using assms(1) oc by (simp add: conn_event_def call_conn_def close_return_def)
  then show ?thesis using m k assms(2) by (intro exI [of _ "?s1\<lparr>heap := (heap ?s1)[p := ?c']\<rparr>"]) simp
qed

lemma hangup_discards_input_witness:
  "\<exists>s'. conn_event demo_app \<lparr>ev_events = EPOLLIN OR EPOLLRDHUP, ev_fd = 5\<rparr> 0
        (demo_server [demo_conn Reading True (new_buffer 8)] [(5, 0)]
           ((demo_kernel [])\<lparr>rx := (\<lambda>_. [Rx_bytes ''GET''])\<rparr>)) = (Ret (), s') \<and>
     state (heap s' ! 0) = Closed \<and> rx s' 5 = [Rx_bytes ''GET'']"
proof -
  let ?s = "demo_server [demo_conn Reading True (new_buffer 8)] [(5, 0)]
    ((demo_kernel [])\<lparr>rx := (\<lambda>_. [Rx_bytes ''GET''])\<rparr>)"
  let ?e = "\<lparr>ev_events = EPOLLIN OR EPOLLRDHUP, ev_fd = 5\<rparr>"
  have "Epoll.is_closed ?e" by (simp add: event_defs event_masks)
  then show ?thesis using hangup_discards_input [of ?e 0 ?s demo_app] by auto
qed

section \<open>Connections that are never closed\<close>

lemma fold_remove_others:
  assumes "(f, p) \<in> set (connections s)" and "f \<notin> set fs"
  shows "(f, p) \<in> set (connections (fold remove_connection fs s))"
  using assms
proof (induction fs arbitrary: s)
  case (Cons g fs)
  have "connections (epoll_remove g s) = connections s"
    using kernel_op_more(4) [of g s] by (simp add: server_more_eq)
  then have "(f, p) \<in> set (connections (remove_connection g s))"
    using Cons.prems by (simp add: remove_connection_def AList.delete_eq)
  with Cons show ?case by simp
qed simp

text \<open>
  \<^verbatim>\<open>Connection: close\<close> is not honoured: a connection whose last response is sent waits
  in state \<open>Closing\<close> (see the property of the flush), and nothing in the loop closes it: the
  clean-up after a round keeps its entry, a writable event flushes nothing and leaves it in
  that state with its socket open.
\<close>

lemma closing_connection_stays:
  assumes "(f, p) \<in> set (connections s)" and "distinct (map fst (connections s))"
    and "p < length (heap s)" and "c = heap s ! p" and "state c = Closing" and "keep_alive c = False"
    and "conn_wf s c" and "pending c s = []" and "sendfile_op c = None" and "registered s c"
    and "conn_fd c = f" and "ev_events e = EPOLLOUT" and "ev_fd e = f"
  shows "(f, p) \<in> set (connections (reap s)) \<and>
    (\<exists>s'. conn_event a e p s = (Ret (), s') \<and> state (heap s' ! p) = Closing \<and> f \<in> open_fds s')"
proof
  have "f \<notin> set (map fst (filter (\<lambda>(f, p). \<not> is_alive (heap s ! p)) (connections s)))"
  proof
    assume "f \<in> set (map fst (filter (\<lambda>(f, p). \<not> is_alive (heap s ! p)) (connections s)))"
    then obtain q where "(f, q) \<in> set (connections s)" "\<not> is_alive (heap s ! q)" by auto
    with assms(1,2,4,5) show False by (auto simp: is_alive_def dest: map_of_is_SomeI)
      (metis eq_key_imp_eq_value State.distinct(11))
  qed
  with assms(1) show "(f, p) \<in> set (connections (reap s))"
    unfolding reap_def by (rule fold_remove_others)
  have "state c \<noteq> Closed" using assms(5) by simp
  have ev: "\<not> Epoll.is_closed e" "\<not> is_readable e" "is_writable e"
    using assms(12) by (simp_all add: event_defs event_masks)
  show "\<exists>s'. conn_event a e p s = (Ret (), s') \<and> state (heap s' ! p) = Closing \<and> f \<in> open_fds s'"
  proof -
    let ?c = "c\<lparr>sendfile_op := None, state := Closing\<rparr>"
    let ?s = "s\<lparr>heap := (heap s)[p := ?c]\<rparr>"
    have "buf_empty (write_buf c)" using assms(7,8) by (simp add: conn_wf_def buf_empty_iff pending_def)
    then have "send_loop (conn_fd c) (write_buf c) s = (Ret (Go_on, write_buf c), s)"
      by (simp add: send_loop.simps [of _ _ s])
    moreover have "c\<lparr>write_buf := write_buf c\<rparr> = c" by simp
    ultimately have "flush_write (Some close_cb) c s = flush_finish c s"
      using assms(9) by (simp add: flush_write_def)
    then have "flush_conn p s = (Ret 0, ?s)"
      using flush_finish_ok [OF assms(7)] assms(4,6,8,9)
      by (simp add: flush_conn_def call_conn_def sendfile_reset_def)
    moreover have "f \<in> open_fds ?s" "interest ?s f \<noteq> None" using assms(10,11) by (simp_all add: registered_def)
    ultimately show ?thesis
      using ev assms(3,13) by (simp add: conn_event_def epoll_modify_ok)
  qed
qed

lemma closing_connection_stays_witness:
  "(5, 0) \<in> set (connections (reap (demo_server [demo_conn Closing False (new_buffer 8)] [(5, 0)] (demo_kernel []) :: string server)))"
proof -
  let ?c = "demo_conn Closing False (new_buffer 8)"
  let ?s = "demo_server [?c] [(5, 0)] (demo_kernel []) :: string server"
  let ?e = "\<lparr>ev_events = EPOLLOUT, ev_fd = 5\<rparr>"
  have "(5, 0) \<in> set (connections ?s)" "distinct (map fst (connections ?s))" "0 < length (heap ?s)"
    "?c = heap ?s ! 0" "state ?c = Closing" "keep_alive ?c = False" "conn_wf ?s ?c" "pending ?c ?s = []"
    "sendfile_op ?c = None" "registered ?s ?c" "conn_fd ?c = 5" "ev_events ?e = EPOLLOUT" "ev_fd ?e = 5"
    by (simp_all add: registered_def)
  from closing_connection_stays [OF this, of demo_app] show ?thesis by blast
qed

section \<open>Accepting\<close>

lemma accept_one_new:
  assumes "map_of (connections s) f = None" and "f \<in> open_fds s" and "interest s f = None"
  shows "\<exists>s'. accept_one a \<lparr>sock_fd = f\<rparr> s = (Ret (), s') \<and>
    connections s' = connections s @ [(f, length (heap s))] \<and>
    heap s' = heap s @ [new_connection \<lparr>sock_fd = f\<rparr> (next_conn_id s) s] \<and>
    next_conn_id s' = next_conn_id s + 1 \<and> accept_script s' = accept_script s \<and>
    open_fds s' = open_fds s \<and> listen_socket s' = listen_socket s \<and>
    interest s' = (interest s)(f := Some (EPOLLIN OR EPOLLET OR EPOLLRDHUP))"
  using assms by (auto simp: accept_one_def Let_def epoll_add_ok split: option.split)

lemma socket_accept_new:
  assumes "sock_fd l \<in> open_fds s" and "accept_script s = Acc_ok f r t # rest"
  shows "\<exists>s1. socket_accept l s = (Ret \<lparr>sock_fd = f\<rparr>, s1) \<and> accept_script s1 = rest \<and>
    open_fds s1 = insert f (open_fds s) \<and> interest s1 = (interest s)(f := None) \<and>
    kernel.more s1 = kernel.more s"
  using assms by (simp add: socket_accept_def sys_accept4_def)

lemma accept_all:
  assumes "accept_script s = map (\<lambda>(f, r, t). Acc_ok f r t) cs"
    and "distinct (map fst cs)" and "\<forall>f \<in> fst ` set cs. 0 \<le> f"
    and "\<forall>f \<in> fst ` set cs. map_of (connections s) f = None"
    and "sock_fd (listen_socket s) \<in> open_fds s"
  shows "\<exists>s'. accept_new_connections a s = (Ret (), s') \<and>
    connections s' = connections s @ zip (map fst cs) [length (heap s)..<length (heap s) + length cs] \<and>
    next_conn_id s' = next_conn_id s + of_nat (length cs) \<and> accept_script s' = [] \<and>
    open_fds s \<subseteq> open_fds s' \<and> (\<forall>g. g \<notin> fst ` set cs \<longrightarrow> interest s' g = interest s g) \<and>
    (\<forall>f \<in> fst ` set cs. f \<in> open_fds s' \<and> interest s' f = Some (EPOLLIN OR EPOLLET OR EPOLLRDHUP))"
  using assms
proof (induction cs arbitrary: s)
  case Nil
  then show ?case
    by (simp add: accept_new_connections.simps [of a s] socket_accept_def sys_accept4_def no_socket_def is_valid_def)
next
  case (Cons c cs)
  obtain f r t where c: "c = (f, r, t)" by (cases c)
  with Cons.prems(1) have "accept_script s = Acc_ok f r t # map (\<lambda>(f, r, t). Acc_ok f r t) cs" by simp
  from socket_accept_new [OF Cons.prems(5) this] obtain s1 where
    s1: "socket_accept (listen_socket s) s = (Ret \<lparr>sock_fd = f\<rparr>, s1)"
      "accept_script s1 = map (\<lambda>(f, r, t). Acc_ok f r t) cs" "open_fds s1 = insert f (open_fds s)"
      "interest s1 = (interest s)(f := None)" "kernel.more s1 = kernel.more s" by blast
  from s1(5) have m: "connections s1 = connections s" "heap s1 = heap s" "next_conn_id s1 = next_conn_id s"
    "listen_socket s1 = listen_socket s" by (simp_all only: server_more_eq)
  have "map_of (connections s1) f = None" "f \<in> open_fds s1" "interest s1 f = None"
    using Cons.prems(4) c m s1 by auto
  from accept_one_new [OF this, of a] obtain s2 where
    s2: "accept_one a \<lparr>sock_fd = f\<rparr> s1 = (Ret (), s2)" "connections s2 = connections s @ [(f, length (heap s))]"
      "length (heap s2) = Suc (length (heap s))" "next_conn_id s2 = next_conn_id s + 1"
      "accept_script s2 = map (\<lambda>(f, r, t). Acc_ok f r t) cs" "open_fds s2 = insert f (open_fds s)"
      "listen_socket s2 = listen_socket s"
      "interest s2 = (interest s)(f := Some (EPOLLIN OR EPOLLET OR EPOLLRDHUP))"
    using m s1 by auto
  have new: "\<forall>g \<in> fst ` set cs. map_of (connections s2) g = None"
    using Cons.prems(2,4) c s2(2) by (auto simp: map_add_def)
  have "sock_fd (listen_socket s2) \<in> open_fds s2" using Cons.prems(5) s2(6,7) by simp
  from Cons.IH [OF s2(5) _ _ new this] Cons.prems(2,3) c obtain s' where
    s': "accept_new_connections a s2 = (Ret (), s')"
      "connections s' = connections s2 @ zip (map fst cs) [length (heap s2)..<length (heap s2) + length cs]"
      "next_conn_id s' = next_conn_id s2 + of_nat (length cs)" "accept_script s' = []"
      "open_fds s2 \<subseteq> open_fds s'" "\<forall>g. g \<notin> fst ` set cs \<longrightarrow> interest s' g = interest s2 g"
      "\<forall>g \<in> fst ` set cs. g \<in> open_fds s' \<and> interest s' g = Some (EPOLLIN OR EPOLLET OR EPOLLRDHUP)"
    by auto
  have "is_valid \<lparr>sock_fd = f\<rparr>" using Cons.prems(3) c by (auto simp: is_valid_def INVALID_FD_def)
  then have "accept_new_connections a s = (Ret (), s')"
    using s1(1) s2(1) s'(1) by (simp add: accept_new_connections.simps [of a s])
  moreover have "connections s' = connections s @
      zip (map fst (c # cs)) [length (heap s)..<length (heap s) + length (c # cs)]"
  proof -
    have u: "[length (heap s)..<length (heap s) + length (c # cs)] =
        length (heap s) # [length (heap s2)..<length (heap s2) + length cs]"
      using s2(3) by (simp add: upt_conv_Cons del: upt_Suc)
    show ?thesis unfolding u using s'(2) s2(2) c by (simp del: upt_Suc)
  qed
  moreover have "interest s' f = Some (EPOLLIN OR EPOLLET OR EPOLLRDHUP)" "f \<in> open_fds s'"
    using s'(5-7) s2(6,8) Cons.prems(2) c by auto
  ultimately show ?case using s'(3-7) s2(4,6,8) c by (intro exI [of _ s']) auto
qed

text \<open>
  C37 Every client that can be accepted is: the round takes all of them, in order; each gets the
  next identifier and an entry under its descriptor, and is watched for input and hang-ups.
\<close>

theorem accept_registers_all:
  assumes "accept_script s = map (\<lambda>(f, r, t). Acc_ok f r t) cs"
    and "distinct (map fst cs)" and "\<forall>f \<in> fst ` set cs. 0 \<le> f"
    and "\<forall>f \<in> fst ` set cs. map_of (connections s) f = None"
    and "sock_fd (listen_socket s) \<in> open_fds s"
  shows "\<exists>s'. accept_new_connections a s = (Ret (), s') \<and>
    connections s' = connections s @ zip (map fst cs) [length (heap s)..<length (heap s) + length cs] \<and>
    next_conn_id s' = next_conn_id s + of_nat (length cs) \<and> accept_script s' = [] \<and>
    (\<forall>f \<in> fst ` set cs. f \<in> open_fds s' \<and> interest s' f = Some (EPOLLIN OR EPOLLET OR EPOLLRDHUP))"
  using accept_all [OF assms, of a] by blast

theorem accept_registers_all_witness:
  "\<exists>s'. accept_new_connections demo_app
        (demo_server [] [] ((demo_kernel [])\<lparr>accept_script := [Acc_ok 7 [] [], Acc_ok 8 [] []]\<rparr>)) = (Ret (), s') \<and>
     connections s' = [(7, 0), (8, 1)]"
proof -
  let ?cs = "[(7, [], []), (8, [], [])] :: (int \<times> rx_event list \<times> tx_event list) list"
  let ?s = "demo_server [] [] ((demo_kernel [])\<lparr>accept_script := [Acc_ok 7 [] [], Acc_ok 8 [] []]\<rparr>)"
  have "accept_script ?s = map (\<lambda>(f, r, t). Acc_ok f r t) ?cs" "distinct (map fst ?cs)"
    "\<forall>f \<in> fst ` set ?cs. 0 \<le> f" "\<forall>f \<in> fst ` set ?cs. map_of (connections ?s) f = None"
    "sock_fd (listen_socket ?s) \<in> open_fds ?s" by simp_all
  from accept_registers_all [OF this, of demo_app] show ?thesis by (auto simp: upt_rec)
qed

text \<open>
  A client on a reused descriptor is lost: while the entry of a connection that closed
  earlier in the same batch is still there, a new client with its descriptor is not entered; its
  connection is destroyed and the socket closed.
\<close>

lemma reused_descriptor_dropped:
  assumes "map_of (connections s) f \<noteq> None" and "f \<in> open_fds s" and "interest s f = None" and "f \<noteq> -1"
  shows "\<exists>s'. accept_one a \<lparr>sock_fd = f\<rparr> s = (Ret (), s') \<and> connections s' = connections s \<and>
    closes s' = closes s @ [f] \<and> f \<notin> open_fds s'"
  using assms
  by (auto simp: accept_one_def Let_def epoll_add_ok destroy_conn_def connection_destroy_def new_connection_def
      sendfile_reset_def socket_close_def INVALID_FD_def Kernel.sys_close_def split: option.split)

lemma reused_descriptor_dropped_witness:
  "\<exists>s'. accept_one demo_app \<lparr>sock_fd = 9\<rparr> (demo_server [demo_conn Closed True (new_buffer 8)] [(9, 0)] (demo_kernel [])) =
        (Ret (), s') \<and> connections s' = [(9, 0)] \<and> closes s' = [9]"
proof -
  let ?s = "demo_server [demo_conn Closed True (new_buffer 8)] [(9, 0)] (demo_kernel [])"
  have "map_of (connections ?s) 9 \<noteq> None" "9 \<in> open_fds ?s" "interest ?s 9 = None" by simp_all
  from reused_descriptor_dropped [OF this, of demo_app] show ?thesis by auto
qed

end
