(* ===== verification/Descriptors.thy ===== *)
theory Descriptors
  imports Event_Loop_Spec
begin

text \<open>
  Who owns which descriptor: the effect of the operations of a connection on the open
  descriptors and on the interest list, whatever its buffers and files hold, and the ownership
  of the descriptors in the state of the event loop.
\<close>

section \<open>The descriptors of a connection\<close>

definition conn_fds :: "Connection \<Rightarrow> int multiset" where
  "conn_fds c = owns (conn_fd c) + (case sendfile_op c of None \<Rightarrow> {#} | Some op \<Rightarrow> owns (file_fd op))"

text \<open>The descriptors \<open>X\<close> are closed, and nothing else changes of the descriptors.\<close>

definition fds_closed :: "int set \<Rightarrow> 'a kernel_scheme \<Rightarrow> 'a kernel_scheme \<Rightarrow> bool" where
  "fds_closed X k k' \<longleftrightarrow> open_fds k' = open_fds k - X \<and>
     (\<forall>g. interest k' g = (if g \<in> X then None else interest k g)) \<and> accept_script k' = accept_script k \<and>
     kernel.more k' = kernel.more k"

lemma fds_closed_refl [simp]: "fds_closed {} k k"
  by (simp add: fds_closed_def)

lemma fds_closed_trans: "fds_closed X k k1 \<Longrightarrow> fds_closed Y k1 k2 \<Longrightarrow> fds_closed (X \<union> Y) k k2"
  by (auto simp: fds_closed_def)

lemma fds_closed_io: "io_frame f k k' \<Longrightarrow> fds_closed {} k k'"
  by (auto simp: fds_closed_def io_frame_sel) (auto simp: io_frame_def)

lemma set_owns: "set_mset (owns f) = (if 0 \<le> f then {f} else {})"
  by (simp add: owns_def)

lemma sys_close_fds: "fds_closed {f} k (Kernel.sys_close f k)"
  by (simp add: fds_closed_def Kernel.sys_close_def)

lemma sendfile_reset_fds:
  "fds_closed (set_mset (case o1 of None \<Rightarrow> {#} | Some op \<Rightarrow> owns (file_fd op))) k (sendfile_reset o1 k)"
  using sys_close_fds by (auto simp: sendfile_reset_def sendfile_destroy_def set_owns split: option.split)

lemma socket_close_fds: "-1 \<le> sock_fd s \<Longrightarrow> fds_closed (set_mset (owns (sock_fd s))) k (snd (socket_close s k))"
  using sys_close_fds by (auto simp: socket_close_def INVALID_FD_def set_owns)

lemma epoll_remove_then_close:
  "0 \<le> conn_fd c \<Longrightarrow>
   fds_closed (set_mset (owns (conn_fd c))) k (snd (socket_close (socket c) (epoll_remove (conn_fd c) k)))"
  by (auto simp: fds_closed_def socket_close_def INVALID_FD_def epoll_remove_eq Kernel.sys_close_def conn_fd_def set_owns)

lemma close_fds:
  assumes "state c \<noteq> Closed" and "0 \<le> conn_fd c"
  shows "\<exists>k'. close_return r (Some close_cb) c k =
      (Ret (r, c\<lparr>state := Closed, sendfile_op := None, socket := no_socket\<rparr>), k') \<and>
    fds_closed (set_mset (conn_fds c)) k k'"
proof -
  let ?k1 = "sendfile_reset (sendfile_op c) k"
  let ?k2 = "snd (socket_close (socket c) (epoll_remove (conn_fd c) ?k1))"
  have "fst (socket_close s j) = no_socket" for s and j :: "'a kernel_scheme"
    by (simp add: socket_close_def no_socket_def)
  then have "close_return r (Some close_cb) c k =
      (Ret (r, c\<lparr>state := Closed, sendfile_op := None, socket := no_socket\<rparr>), ?k2)"
    using assms(1) by (simp add: close_return_def on_closed_def close_cb_def conn_fd_def Let_def split: prod.split)
      (metis fst_conv snd_conv)
  moreover have "fds_closed (set_mset (conn_fds c)) k ?k2"
    using fds_closed_trans [OF sendfile_reset_fds epoll_remove_then_close [OF assms(2)]]
    by (auto simp: conn_fds_def Un_commute)
  ultimately show ?thesis by blast
qed

text \<open>Destruction closes what the connection owns, in whatever state it is.\<close>

lemma destroy_fds:
  "-1 \<le> conn_fd c \<Longrightarrow> fds_closed (set_mset (conn_fds c)) k (connection_destroy c k)"
  using fds_closed_trans [OF sendfile_reset_fds socket_close_fds, of "socket c" "sendfile_op c" k]
  by (simp add: connection_destroy_def conn_fds_def conn_fd_def Un_commute)

section \<open>Flushing\<close>

lemma sendfile_loop_fds:
  "\<exists>stop op' k'. sendfile_loop f op k = (Ret (stop, op'), k') \<and> file_fd op' = file_fd op \<and> io_frame f k k'"
proof (induction f op k rule: sendfile_loop.induct)
  case (1 f op k)
  show ?case
  proof (cases "sendfile_active op")
    case False
    then show ?thesis by (simp add: sendfile_loop.simps [of f op k])
  next
    case True
    obtain r k1 where s: "sys_sendfile f (file_fd op) (nat (offset op)) (nat (remaining op)) k = (r, k1)" by force
    note fr = sys_sendfile_frame(1) [OF s]
    from True s 1(1) [OF _ s [symmetric]] 1(2) [OF _ s [symmetric]] show ?thesis
      by (cases r) (fastforce simp: sendfile_loop.simps [of f op k] intro: fr io_frame_trans [OF fr])+
  qed
qed

text \<open>The buffers a connection is never without; the one it reads into never grows.\<close>

definition bufs_ok :: "Connection \<Rightarrow> bool" where
  "bufs_ok c \<longleftrightarrow> buf_wf (read_buf c) \<and> capacity (read_buf c) = DEFAULT_CAPACITY \<and>
     buf_wf (write_buf c) \<and> 0 < capacity (write_buf c)"

lemma bufs_ok_new [simp]: "bufs_ok (new_connection s i k)"
  by (simp add: bufs_ok_def new_connection_def DEFAULT_CAPACITY_def)

lemma flush_write_fds:
  assumes "bufs_ok c"
  shows "\<exists>stop c1 k1. fds_closed {} k k1 \<and> bufs_ok c1 \<and> conn_fds c1 = conn_fds c \<and> socket c1 = socket c \<and>
    state c1 = state c \<and>
    flush_write cb c k = (if stop = Gone then close_return 0 cb c1 k1 else flush_finish c1 k1)"
proof -
  have w: "buf_wf (write_buf c)" using assms by (simp add: bufs_ok_def)
  from send_loop_ok [OF w, of "conn_fd c" k] obtain stop b k1 where
    sl: "send_loop (conn_fd c) (write_buf c) k = (Ret (stop, b), k1)" "buf_wf b" "io_frame (conn_fd c) k k1"
      "capacity b = capacity (write_buf c)" by blast
  have io: "fds_closed {} k k1" by (rule fds_closed_io [OF sl(3)])
  let ?c = "c\<lparr>write_buf := b\<rparr>"
  have c1: "bufs_ok ?c" "conn_fds ?c = conn_fds c" "socket ?c = socket c" "state ?c = state c"
    using assms sl(2,4) by (simp_all add: bufs_ok_def conn_fds_def conn_fd_def)
  show ?thesis
  proof (cases "stop = Go_on \<and> sendfile_op c \<noteq> None")
    case False
    then have "flush_write cb c k = (if stop = Gone then close_return 0 cb ?c k1 else flush_finish ?c k1)"
      using sl(1) by (cases stop) (auto simp: flush_write_def)
    with io c1 show ?thesis by blast
  next
    case True
    then obtain op where op: "sendfile_op c = Some op" by blast
    from sendfile_loop_fds [of "conn_fd c" op k1] obtain stop2 op2 k2 where
      sf: "sendfile_loop (conn_fd c) op k1 = (Ret (stop2, op2), k2)" "file_fd op2 = file_fd op"
        "io_frame (conn_fd c) k1 k2" by blast
    let ?c2 = "c\<lparr>write_buf := b, sendfile_op := Some op2\<rparr>"
    have "flush_write cb c k = (if stop2 = Gone then close_return 0 cb ?c2 k2 else flush_finish ?c2 k2)"
      using sl(1) sf(1) True op by (simp add: flush_write_def conn_fd_def)
    moreover have "bufs_ok ?c2" "conn_fds ?c2 = conn_fds c" "socket ?c2 = socket c" "state ?c2 = state c"
      using assms sl(2,4) op sf(2) by (simp_all add: bufs_ok_def conn_fds_def conn_fd_def)
    moreover have "fds_closed {} k k2" using fds_closed_trans [OF io fds_closed_io [OF sf(3)]] by simp
    ultimately show ?thesis by blast
  qed
qed

text \<open>A flush returns; it closes the connection, or only the file of a finished transfer.\<close>

lemma flush_live_fds:
  assumes "bufs_ok c" and "state c \<noteq> Closed" and "0 \<le> conn_fd c"
  shows "\<exists>n c' k' X. flush_write (Some close_cb) c k = (Ret (n, c'), k') \<and> bufs_ok c' \<and>
    fds_closed (set_mset X) k k' \<and> conn_fds c = conn_fds c' + X \<and>
    (if state c' = Closed then n = 0 \<and> conn_fds c' = {#} else socket c' = socket c)"
proof -
  from flush_write_fds [OF assms(1), of k "Some close_cb"] obtain stop c1 k1 where
    f: "fds_closed {} k k1" "bufs_ok c1" "conn_fds c1 = conn_fds c" "socket c1 = socket c" "state c1 = state c"
      "flush_write (Some close_cb) c k = (if stop = Gone then close_return 0 (Some close_cb) c1 k1 else flush_finish c1 k1)"
    by blast
  show ?thesis
  proof (cases "stop = Gone")
    case True
    have "state c1 \<noteq> Closed" "0 \<le> conn_fd c1" using f(4,5) assms by (simp_all add: conn_fd_def)
    from close_fds [OF this, of "0::nat" k1] obtain k' where k': "close_return (0::nat) (Some close_cb) c1 k1 =
        (Ret (0, c1\<lparr>state := Closed, sendfile_op := None, socket := no_socket\<rparr>), k')"
      "fds_closed (set_mset (conn_fds c1)) k1 k'" by blast
    let ?c' = "c1\<lparr>state := Closed, sendfile_op := None, socket := no_socket\<rparr>"
    have "fds_closed (set_mset (conn_fds c)) k k'" using fds_closed_trans [OF f(1) k'(2)] f(3) by simp
    moreover have "bufs_ok ?c'" "conn_fds ?c' = {#}"
      using f(2) by (simp_all add: bufs_ok_def conn_fds_def conn_fd_def no_socket_def INVALID_FD_def)
    ultimately show ?thesis
      using f(6) True k'(1) by (intro exI [of _ "0::nat"] exI [of _ ?c'] exI [of _ k'] exI [of _ "conn_fds c"]) simp
  next
    case False
    let ?done = "buf_empty (write_buf c1) \<and> (case sendfile_op c1 of None \<Rightarrow> True | Some op \<Rightarrow> \<not> sendfile_active op)"
    let ?c' = "if ?done then c1\<lparr>sendfile_op := None, state := if keep_alive c1 then Reading else Closing\<rparr> else c1"
    let ?k' = "if ?done then sendfile_reset (sendfile_op c1) k1 else k1"
    let ?X = "if ?done then (case sendfile_op c1 of None \<Rightarrow> {#} | Some op \<Rightarrow> owns (file_fd op)) else {#}"
    obtain n where "flush_finish c1 k1 = (Ret (n, ?c'), ?k')"
      by (simp add: flush_finish_def Let_def split del: if_split)
    moreover have "fds_closed (set_mset ?X) k ?k'"
      using fds_closed_trans [OF f(1) sendfile_reset_fds, of "sendfile_op c1"] f(1) by simp
    moreover have "conn_fds c = conn_fds ?c' + ?X"
      using f(3) by (simp add: conn_fds_def conn_fd_def flip: f(3))
    moreover have "bufs_ok ?c'" "state ?c' \<noteq> Closed" "socket ?c' = socket c"
      using f(2,4,5) assms(2) by (simp_all add: bufs_ok_def)
    ultimately show ?thesis
      using f(6) False by (intro exI [of _ n] exI [of _ ?c'] exI [of _ ?k'] exI [of _ ?X]) (simp split del: if_split)
  qed
qed

end
