(* ===== verification/Event_Loop_Inv.thy ===== *)
theory Event_Loop_Inv
  imports Descriptors
begin

text \<open>
  The invariant of the event loop: every open descriptor has one owner, the map of
  connections agrees with the connection objects and with the interest list, and the pending
  writes refer to connections of the map or to closed ones. The operations of the loop keep
  it, for every application whose read callback meets the contract \<open>loop_client\<close>.
\<close>

section \<open>Ownership of descriptors\<close>

definition pw_fds :: "PendingWrite list \<Rightarrow> int multiset" where
  "pw_fds pws = sum_list (map (\<lambda>pw. owns (pw_file_fd pw)) pws)"

definition owners :: "('t, 'b) server_scheme \<Rightarrow> int multiset" where
  "owners s = {#sock_fd (listen_socket s), epfd (ev_epoll s), wakeup_fd s#} +
     sum_list (map conn_fds (heap s)) + pw_fds (tq_queue (pending_writes s))"

text \<open>The open descriptors are those owned by the state and those in hand, \<open>E\<close>, each by one.\<close>

definition accounted :: "int multiset \<Rightarrow> ('t, 'b) server_scheme \<Rightarrow> bool" where
  "accounted E s \<longleftrightarrow> (\<forall>f. count (owners s + E) f = (if f \<in> open_fds s then 1 else 0))"

section \<open>The map of connections\<close>

definition entry_ok :: "('t, 'b) server_scheme \<Rightarrow> int \<Rightarrow> Connection \<Rightarrow> bool" where
  "entry_ok s f c \<longleftrightarrow> 0 \<le> f \<and> f \<noteq> sock_fd (listen_socket s) \<and> f \<noteq> wakeup_fd s \<and> bufs_ok c \<and>
     (if state c = Closed then conn_fds c = {#} else conn_fd c = f \<and> interest s f \<noteq> None)"

definition table_ok :: "('t, 'b) server_scheme \<Rightarrow> bool" where
  "table_ok s \<longleftrightarrow> distinct (map fst (connections s)) \<and> distinct (map snd (connections s)) \<and>
     (\<forall>(f, p) \<in> set (connections s). p < length (heap s) \<and> entry_ok s f (heap s ! p))"

text \<open>Watched are the listening socket, the eventfd and the connections that are not closed.\<close>

definition watch_ok :: "('t, 'b) server_scheme \<Rightarrow> bool" where
  "watch_ok s \<longleftrightarrow> interest s (sock_fd (listen_socket s)) \<noteq> None \<and> interest s (wakeup_fd s) \<noteq> None \<and>
     0 \<le> sock_fd (listen_socket s) \<and> 0 \<le> epfd (ev_epoll s) \<and> 0 \<le> wakeup_fd s \<and>
     (\<forall>g. interest s g \<noteq> None \<longrightarrow> g = sock_fd (listen_socket s) \<or> g = wakeup_fd s \<or>
        (\<exists>p. (g, p) \<in> set (connections s) \<and> state (heap s ! p) \<noteq> Closed))"

definition ref_ok :: "('t, 'b) server_scheme \<Rightarrow> ConnectionPtr \<Rightarrow> bool" where
  "ref_ok s p \<longleftrightarrow> p < length (heap s) \<and> (state (heap s ! p) = Closed \<or> p \<in> snd ` set (connections s))"

text \<open>
  The tasks queued or running; \<open>tc\<close> gives the connection of a task. The queue of pending
  writes is never closed.
\<close>

definition pool_tasks :: "'t ThreadPool \<Rightarrow> 't set" where
  "pool_tasks p = set (tq_queue (pool_queue p)) \<union> {t. Running t \<in> set (workers p)}"

definition refs_ok :: "('t \<Rightarrow> ConnectionPtr) \<Rightarrow> ('t, 'b) server_scheme \<Rightarrow> bool" where
  "refs_ok tc s \<longleftrightarrow> (\<forall>pw \<in> set (tq_queue (pending_writes s)). \<forall>p. pw_conn pw = Some p \<longrightarrow> ref_ok s p) \<and>
     (\<forall>t \<in> pool_tasks (thread_pool s). ref_ok s (tc t)) \<and> \<not> tq_closed (pending_writes s)"

definition loop_inv :: "('t \<Rightarrow> ConnectionPtr) \<Rightarrow> int multiset \<Rightarrow> ('t, 'b) server_scheme \<Rightarrow> bool" where
  "loop_inv tc E s \<longleftrightarrow> accounted E s \<and> table_ok s \<and> watch_ok s \<and> refs_ok tc s"

lemmas inv_defs = loop_inv_def table_ok_def watch_ok_def refs_ok_def

text \<open>The invariant speaks of these fields only.\<close>

lemma inv_cong:
  assumes "heap s' = heap s" and "connections s' = connections s" and "listen_socket s' = listen_socket s"
    and "epfd (ev_epoll s') = epfd (ev_epoll s)" and "wakeup_fd s' = wakeup_fd s"
    and "tq_queue (pending_writes s') = tq_queue (pending_writes s)"
    and "tq_closed (pending_writes s') = tq_closed (pending_writes s)"
    and "pool_tasks (thread_pool s') = pool_tasks (thread_pool s)"
    and "open_fds s' = open_fds s" and "interest s' = interest s"
  shows "loop_inv tc E s' = loop_inv tc E s"
  by (simp only: inv_defs accounted_def owners_def entry_ok_def ref_ok_def assms)

section \<open>What the invariant says of a descriptor\<close>

lemma count_owns: "count (owns f) g = (if f = g \<and> 0 \<le> g then 1 else 0)"
  by (simp add: owns_def)

lemma in_sum_list: "x \<in># sum_list ms \<longleftrightarrow> (\<exists>m \<in> set ms. x \<in># m)"
  by (induction ms) auto

lemma owner_parts:
  assumes "p < length (heap s)"
  shows "owners s = {#sock_fd (listen_socket s), epfd (ev_epoll s), wakeup_fd s#} + conn_fds (heap s ! p) +
    sum_list (map conn_fds (take p (heap s) @ drop (Suc p) (heap s))) + pw_fds (tq_queue (pending_writes s))"
proof -
  have "heap s = take p (heap s) @ (heap s ! p) # drop (Suc p) (heap s)"
    using assms by (rule id_take_nth_drop)
  then have "sum_list (map conn_fds (heap s)) =
      sum_list (map conn_fds (take p (heap s) @ (heap s ! p) # drop (Suc p) (heap s)))" by simp
  then show ?thesis by (simp add: owners_def ac_simps)
qed

lemma accounted_conn:
  assumes "accounted E s" and "p < length (heap s)" and "f \<in># conn_fds (heap s ! p) + E"
  shows "f \<in> open_fds s" "f \<noteq> sock_fd (listen_socket s)" "f \<noteq> wakeup_fd s" "f \<noteq> epfd (ev_epoll s)"
    "count (conn_fds (heap s ! p) + E) f = 1"
proof -
  have c: "count (owners s + E) f = (if f \<in> open_fds s then 1 else 0)"
    using assms(1) by (simp add: accounted_def)
  have n: "1 \<le> count (conn_fds (heap s ! p) + E) f" using assms(3) by (simp add: Suc_le_eq)
  note o = owner_parts [OF assms(2)]
  show o1: "f \<in> open_fds s" using c n by (simp add: o del: count_greater_eq_one_iff split: if_splits)
  show "count (conn_fds (heap s ! p) + E) f = 1" using c n o1 by (simp add: o del: count_greater_eq_one_iff split: if_splits)
  show "f \<noteq> sock_fd (listen_socket s)" "f \<noteq> wakeup_fd s" "f \<noteq> epfd (ev_epoll s)"
    using c n o1 by (auto simp: o simp del: count_greater_eq_one_iff split: if_splits)
qed

lemma accounted_others:
  assumes "accounted E s" and "p < length (heap s)" and "q < length (heap s)" and "p \<noteq> q"
    and "f \<in># conn_fds (heap s ! p) + E"
  shows "f \<notin># conn_fds (heap s ! q)"
proof
  assume q: "f \<in># conn_fds (heap s ! q)"
  have "heap s ! q \<in> set (take p (heap s) @ drop (Suc p) (heap s))"
  proof (cases "q < p")
    case True
    with assms(3) have "take p (heap s) ! q = heap s ! q" "q < length (take p (heap s))" by simp_all
    then show ?thesis by (metis Un_iff nth_mem set_append)
  next
    case False
    with assms(3,4) have "drop (Suc p) (heap s) ! (q - Suc p) = heap s ! q" "q - Suc p < length (drop (Suc p) (heap s))"
      by simp_all
    then show ?thesis by (metis Un_iff nth_mem set_append)
  qed
  with q have "f \<in># sum_list (map conn_fds (take p (heap s) @ drop (Suc p) (heap s)))"
    by (auto simp: in_sum_list)
  then have "0 < count (sum_list (map conn_fds (take p (heap s) @ drop (Suc p) (heap s)))) f" by simp
  moreover have "0 < count (conn_fds (heap s ! p) + E) f" using assms(5) by simp
  ultimately have "1 < count (owners s + E) f"
    by (auto simp: owner_parts [OF assms(2)] simp del: count_greater_zero_iff)
  with assms(1) show False by (simp add: accounted_def split: if_splits)
qed

text \<open>The file of a pending write or in hand is not the socket of a connection.\<close>

section \<open>One connection changes\<close>

text \<open>No descriptor is added, and no client accepted.\<close>

definition calm :: "'a kernel_scheme \<Rightarrow> 'a kernel_scheme \<Rightarrow> bool" where
  "calm k k' \<longleftrightarrow> open_fds k' \<subseteq> open_fds k \<and> accept_script k' = accept_script k"

lemma calm_refl [simp]: "calm k k" "calm k (k\<lparr>rx := r\<rparr>)" "calm k (k\<lparr>interest := i\<rparr>)"
  by (simp_all add: calm_def)

lemma calm_heap [simp]: "calm k (s\<lparr>heap := h\<rparr>) = calm k s"
  for s :: "('t, 'b) server_scheme"
  by (simp add: calm_def)

lemma calm_trans: "calm k k1 \<Longrightarrow> calm k1 k2 \<Longrightarrow> calm k k2"
  by (auto simp: calm_def)

text \<open>
  The fields of the loop that stay, and what may be added: pending writes without a file and
  tasks, for connection \<open>p\<close>.
\<close>

definition loop_frame :: "('t \<Rightarrow> ConnectionPtr) \<Rightarrow> ConnectionPtr \<Rightarrow> ('t, 'b) server_scheme \<Rightarrow> ('t, 'b) server_scheme \<Rightarrow> bool" where
  "loop_frame tc p s s' \<longleftrightarrow> listen_socket s' = listen_socket s \<and> epfd (ev_epoll s') = epfd (ev_epoll s) \<and>
     wakeup_fd s' = wakeup_fd s \<and> connections s' = connections s \<and>
     (\<exists>pws. tq_queue (pending_writes s') = tq_queue (pending_writes s) @ pws \<and>
        (\<forall>pw \<in> set pws. pw_conn pw = Some p \<and> pw_file_fd pw = -1)) \<and>
     tq_closed (pending_writes s') = tq_closed (pending_writes s) \<and>
     (\<forall>t \<in> pool_tasks (thread_pool s'). t \<in> pool_tasks (thread_pool s) \<or> tc t = p) \<and> calm s s'"

lemma pw_fds_none: "\<forall>pw \<in> set pws. pw_file_fd pw = -1 \<Longrightarrow> (\<Sum>pw\<leftarrow>pws. owns (pw_file_fd pw)) = {#}"
  by (induction pws) simp_all

lemma loop_frame_fds: "loop_frame tc p s s' \<Longrightarrow>
    pw_fds (tq_queue (pending_writes s')) = pw_fds (tq_queue (pending_writes s))"
  by (auto simp: loop_frame_def pw_fds_def pw_fds_none)

lemma one_less: "n + m = (if P then 1 else 0) \<Longrightarrow> Q \<longleftrightarrow> P \<and> m = 0 \<Longrightarrow> n = (if Q then 1 else 0)"
  for n m :: nat
  by (auto split: if_splits)

lemma accounted_update:
  assumes "accounted E s" and "p < length (heap s)" and "heap s' = (heap s)[p := c']" and "loop_frame tc p s s'"
    and "conn_fds (heap s ! p) + E = conn_fds c' + E' + X" and "open_fds s' = open_fds s - set_mset X"
  shows "accounted E' s'"
  unfolding accounted_def
proof
  fix f
  have "owners s' + conn_fds (heap s ! p) = owners s + conn_fds c'"
    using assms(3,4) sum_list_update [OF assms(2), of conn_fds c'] loop_frame_fds [OF assms(4)]
    by (simp add: owners_def loop_frame_def ac_simps)
  then have "owners s' + E' + X + conn_fds (heap s ! p) = owners s + E + conn_fds (heap s ! p)"
    using assms(5) by (simp add: ac_simps)
  then have "owners s' + E' + X = owners s + E" by simp
  moreover have "count (owners s + E) f = (if f \<in> open_fds s then 1 else 0)"
    using assms(1) by (simp add: accounted_def)
  ultimately have "count (owners s' + E' + X) f = (if f \<in> open_fds s then 1 else 0)" by simp
  then have n: "count (owners s' + E') f + count X f = (if f \<in> open_fds s then 1 else 0)"
    unfolding count_union [of "owners s' + E'" X] .
  have "f \<in> open_fds s' \<longleftrightarrow> f \<in> open_fds s \<and> count X f = 0"
    using assms(6) by (simp add: not_in_iff)
  with n show "count (owners s' + E') f = (if f \<in> open_fds s' then 1 else 0)"
    by (rule one_less)
qed

lemma inv_update:
  assumes "loop_inv tc E s" and "(f, p) \<in> set (connections s)" and "heap s' = (heap s)[p := c']"
    and "loop_frame tc p s s'" and "conn_fds (heap s ! p) + E = conn_fds c' + E' + X"
    and "open_fds s' = open_fds s - set_mset X" and "\<forall>g. interest s' g = (if g \<in># X then None else interest s g)"
    and "bufs_ok c'"
    and "if state c' = Closed then conn_fds c' = {#} \<and> (state (heap s ! p) \<noteq> Closed \<longrightarrow> f \<in># X)
      else state (heap s ! p) \<noteq> Closed \<and> socket c' = socket (heap s ! p)"
  shows "loop_inv tc E' s'"
proof -
  let ?c = "heap s ! p"
  have a: "accounted E s" and t: "table_ok s" and w: "watch_ok s" and r: "refs_ok tc s"
    using assms(1) by (simp_all add: loop_inv_def)
  have p: "p < length (heap s)" and e: "entry_ok s f ?c" using t assms(2) by (auto simp: table_ok_def)
  have fr: "listen_socket s' = listen_socket s" "epfd (ev_epoll s') = epfd (ev_epoll s)" "wakeup_fd s' = wakeup_fd s"
    "connections s' = connections s" using assms(4) by (simp_all add: loop_frame_def)
  have sub: "g \<in># conn_fds ?c + E" if "g \<in># X" for g using that assms(5) by (metis union_iff)
  note X = accounted_conn [OF a p sub] accounted_others [OF a p _ _ sub]
  have len: "length (heap s') = length (heap s)" using assms(3) by simp
  have other: "q \<noteq> p \<Longrightarrow> heap s' ! q = heap s ! q" for q using assms(3) by simp
  have self: "heap s' ! p = c'" using assms(3) p by simp
  have "inj_on snd (set (connections s))" using t by (simp add: table_ok_def distinct_map)
  then have uniq: "(g, p) \<in> set (connections s) \<Longrightarrow> g = f" for g
    using assms(2) by (metis inj_onD snd_conv prod.inject)
  have fX: "f \<notin># X" if "state c' \<noteq> Closed"
  proof
    assume "f \<in># X"
    have st: "state ?c \<noteq> Closed" "socket c' = socket ?c" using that assms(9) by auto
    with e have "conn_fd c' = f" "0 \<le> f" by (auto simp: entry_ok_def conn_fd_def)
    then have "f \<in># conn_fds c'" by (simp add: conn_fds_def owns_def)
    then have "1 \<le> count (conn_fds c') f" "1 \<le> count X f" using \<open>f \<in># X\<close> by simp_all
    then have "2 \<le> count (conn_fds c' + E' + X) f" unfolding count_union by linarith
    with X(5) [OF \<open>f \<in># X\<close>] assms(5) show False by simp
  qed
  have entry: "entry_ok s' g (heap s' ! q)" if "(g, q) \<in> set (connections s)" for g q
  proof (cases "q = p")
    case True
    with that uniq have "g = f" by blast
    with True e assms(7-9) fX show ?thesis by (auto simp: entry_ok_def self fr conn_fd_def split: if_splits)
  next
    case False
    have eq: "entry_ok s g (heap s ! q)" "q < length (heap s)" using t that by (auto simp: table_ok_def)
    have "g \<notin># X" if "state (heap s ! q) \<noteq> Closed"
    proof
      assume g: "g \<in># X"
      from eq(1) that have "g \<in># conn_fds (heap s ! q)" by (auto simp: entry_ok_def conn_fds_def owns_def)
      with X(6) [OF eq(2) False [symmetric] g] show False by simp
    qed
    with eq(1) assms(7) show ?thesis by (auto simp: entry_ok_def other [OF False] fr split: if_splits)
  qed
  have "accounted E' s'" by (rule accounted_update [OF a p assms(3-6)])
  moreover have "table_ok s'"
    using t entry fr by (auto simp: table_ok_def len)
  moreover have "watch_ok s'"
  proof -
    have "\<exists>q. (g, q) \<in> set (connections s) \<and> state (heap s' ! q) \<noteq> Closed"
      if "(g, q) \<in> set (connections s)" "state (heap s ! q) \<noteq> Closed" "g \<notin># X" for g q
    proof (cases "q = p")
      case True
      then have g: "g = f" using that uniq by simp
      with True that(2,3) g assms(9) have "state c' \<noteq> Closed" by (auto split: if_splits)
      with True that self show ?thesis by auto
    qed (use that other in auto)
    then show ?thesis
      using w assms(7) X(2,3) fr unfolding watch_ok_def by (metis (no_types, lifting))
  qed
  moreover have "refs_ok tc s'"
  proof -
    have ref: "ref_ok s' q" if "ref_ok s q" for q
      using that assms(2) other [of q] self by (cases "q = p") (auto simp: ref_ok_def len fr intro: image_eqI [of _ _ "(f, p)"])
    have "ref_ok s' p" using p assms(2) by (auto simp: ref_ok_def len fr intro: image_eqI [of _ _ "(f, p)"])
    with ref r assms(4) show ?thesis by (fastforce simp: refs_ok_def loop_frame_def)
  qed
  ultimately show ?thesis by (simp add: loop_inv_def)
qed

section \<open>Delivering\<close>

lemma loop_frame_refl: "heap s' = h \<Longrightarrow> kernel.more s' = kernel.more (s\<lparr>heap := h\<rparr>) \<Longrightarrow> calm s s' \<Longrightarrow> loop_frame tc p s s'"
  for s s' :: "('t, 'b) server_scheme"
  by (simp add: loop_frame_def server_more_eq)

lemma fds_closed_sel:
  "fds_closed X k k' \<Longrightarrow> open_fds k' = open_fds k - X"
  "fds_closed X k k' \<Longrightarrow> interest k' g = (if g \<in> X then None else interest k g)"
  "fds_closed X k k' \<Longrightarrow> kernel.more k' = kernel.more k" "fds_closed X k k' \<Longrightarrow> calm k k'"
  by (auto simp: fds_closed_def calm_def)

lemma inv_watched:
  assumes "loop_inv tc E s" and "interest s f \<noteq> None"
  shows "loop_inv tc E (s\<lparr>interest := (interest s)(f := Some w)\<rparr>)"
  using assms
  by (auto simp: inv_defs accounted_def owners_def entry_ok_def ref_ok_def split: prod.splits if_splits)

lemma inv_entry:
  assumes "loop_inv tc E s" and "(f, p) \<in> set (connections s)"
  shows "p < length (heap s)" "bufs_ok (heap s ! p)" "0 \<le> f"
    "f \<noteq> sock_fd (listen_socket s)" "f \<noteq> wakeup_fd s"
    "state (heap s ! p) \<noteq> Closed \<Longrightarrow> conn_fd (heap s ! p) = f \<and> interest s f \<noteq> None \<and> f \<in> open_fds s"
    "state (heap s ! p) = Closed \<Longrightarrow> conn_fds (heap s ! p) = {#}"
proof -
  have a: "accounted E s" and e: "p < length (heap s)" "entry_ok s f (heap s ! p)"
    using assms by (auto simp: loop_inv_def table_ok_def)
  then show "p < length (heap s)" "bufs_ok (heap s ! p)" "0 \<le> f" "f \<noteq> sock_fd (listen_socket s)"
    "f \<noteq> wakeup_fd s" "state (heap s ! p) = Closed \<Longrightarrow> conn_fds (heap s ! p) = {#}"
    by (auto simp: entry_ok_def)
  assume "state (heap s ! p) \<noteq> Closed"
  with e(2) have f: "conn_fd (heap s ! p) = f" "interest s f \<noteq> None" "0 \<le> f" by (auto simp: entry_ok_def)
  then have "f \<in># conn_fds (heap s ! p) + E" by (simp add: conn_fds_def owns_def)
  from accounted_conn(1) [OF a e(1) this] f
  show "conn_fd (heap s ! p) = f \<and> interest s f \<noteq> None \<and> f \<in> open_fds s" by simp
qed

lemma inv_unique:
  assumes "loop_inv tc E s" and "(f, p) \<in> set (connections s)" and "(f, q) \<in> set (connections s)"
  shows "p = q"
  using assms by (auto simp: loop_inv_def table_ok_def dest: eq_key_imp_eq_value)

lemma flush_conn_inv:
  assumes "loop_inv tc E s" and "(f, p) \<in> set (connections s)" and "state (heap s ! p) \<noteq> Closed"
  shows "\<exists>left s'. flush_conn p s = (Ret left, s') \<and> loop_inv tc E s' \<and> loop_frame tc p s s' \<and>
    (state (heap s' ! p) = Closed \<longrightarrow> left = 0)"
proof -
  let ?c = "heap s ! p"
  note e = inv_entry [OF assms(1,2)]
  have "0 \<le> conn_fd ?c" using e(3,6) assms(3) by simp
  from flush_live_fds [OF e(2) assms(3) this, of s] obtain n c' s1 X where
    f: "flush_write (Some close_cb) ?c s = (Ret (n, c'), s1)" "bufs_ok c'" "fds_closed (set_mset X) s s1"
      "conn_fds ?c = conn_fds c' + X"
      "if state c' = Closed then n = 0 \<and> conn_fds c' = {#} else socket c' = socket ?c" by blast
  let ?s = "s1\<lparr>heap := (heap s1)[p := c']\<rparr>"
  have m: "kernel.more s1 = kernel.more s" by (rule fds_closed_sel [OF f(3)])
  then have h: "heap s1 = heap s" by (simp add: server_more_eq)
  have fr: "loop_frame tc p s ?s"
    by (rule loop_frame_refl [of _ "(heap s)[p := c']"]) (use m fds_closed_sel(4) [OF f(3)] in \<open>simp_all add: server_more_eq\<close>)
  have fX: "f \<in># X" if "state c' = Closed"
    using f(4,5) e(3,6) assms(3) that by (auto simp: conn_fds_def owns_def split: if_splits)
  have "loop_inv tc E ?s"
    by (rule inv_update [OF assms(1,2) _ fr, of c' E X])
      (use h f assms(3) fX fds_closed_sel [OF f(3)] in \<open>auto simp: ac_simps split: if_splits\<close>)
  moreover have "heap ?s ! p = c'" using e(1) h by simp
  ultimately show ?thesis
    using f(1,5) fr by (intro exI [of _ n] exI [of _ ?s]) (simp add: flush_conn_def call_conn_def split: if_splits)
qed

lemma sendfile_reset_server [simp]:
  "listen_socket (sendfile_reset o1 s) = listen_socket s" "ev_epoll (sendfile_reset o1 s) = ev_epoll s"
  "wakeup_fd (sendfile_reset o1 s) = wakeup_fd s" "thread_pool (sendfile_reset o1 s) = thread_pool s" "heap (sendfile_reset o1 s) = heap s"
  "connections (sendfile_reset o1 s) = connections s" "pending_writes (sendfile_reset o1 s) = pending_writes s"
  for s :: "('t, 'b) server_scheme"
  by (simp_all add: sendfile_reset_def sendfile_destroy_def Kernel.sys_close_def split: option.split)

lemma hand_over_inv:
  assumes "loop_inv tc (owns (pw_file_fd pw) + E) s" and "(f, p) \<in> set (connections s)"
    and "state (heap s ! p) \<noteq> Closed"
  shows "\<exists>s'. hand_over pw p s = (Ret (), s') \<and> loop_inv tc E s' \<and> loop_frame tc p s s' \<and>
    state (heap s' ! p) \<noteq> Closed"
proof -
  let ?c = "heap s ! p"
  note e = inv_entry [OF assms(1,2)]
  from enqueue_write_ok [of ?c "pw_data pw"] e(2) obtain b where
    b: "enqueue_write (pw_data pw) ?c = Ret (?c\<lparr>write_buf := b, state := Writing\<rparr>)" "buf_wf b"
      "capacity (write_buf ?c) \<le> capacity b" by (auto simp: bufs_ok_def)
  have cap: "0 < capacity b" using e(2) b(3) by (simp add: bufs_ok_def)
  show ?thesis
  proof (cases "0 \<le> pw_file_fd pw")
    case True
    let ?c1 = "?c\<lparr>write_buf := b, sendfile_op := Some (make_sendfile (pw_file_fd pw) (pw_file_size pw)), state := Writing\<rparr>"
    let ?s1 = "sendfile_reset (sendfile_op ?c) s"
    let ?s2 = "?s1\<lparr>heap := (heap ?s1)[p := ?c1]\<rparr>"
    let ?X = "case sendfile_op ?c of None \<Rightarrow> {#} | Some op \<Rightarrow> owns (file_fd op)"
    have fc: "fds_closed (set_mset ?X) s ?s1" by (rule sendfile_reset_fds)
    have fr: "loop_frame tc p s ?s2" using fds_closed_sel(4) [OF fc] by (simp add: loop_frame_def)
    have "loop_inv tc E ?s2"
      by (rule inv_update [OF assms(1,2) _ fr, of ?c1 E ?X])
        (use b(2) cap e(2) assms(3) fds_closed_sel [OF fc] in
          \<open>simp_all add: conn_fds_def conn_fd_def make_sendfile_def bufs_ok_def ac_simps\<close>)
    moreover have "hand_over pw p s = (Ret (), ?s2)" "heap ?s2 ! p = ?c1"
      using True b(1) e(1) by (simp_all add: hand_over_def begin_sendfile_def)
    ultimately show ?thesis using fr by (intro exI [of _ ?s2]) simp
  next
    case False
    let ?c1 = "?c\<lparr>write_buf := b, state := Writing\<rparr>"
    let ?s2 = "s\<lparr>heap := (heap s)[p := ?c1]\<rparr>"
    have fr: "loop_frame tc p s ?s2" by (rule loop_frame_refl [of _ "(heap s)[p := ?c1]"]) simp_all
    have "loop_inv tc E ?s2"
      by (rule inv_update [OF assms(1,2) _ fr, of ?c1 E "{#}"])
        (use False b(2) cap e(2) assms(3) in \<open>simp_all add: conn_fds_def conn_fd_def bufs_ok_def owns_def\<close>)
    moreover have "hand_over pw p s = (Ret (), ?s2)" "heap ?s2 ! p = ?c1"
      using False b(1) e(1) by (simp_all add: hand_over_def)
    ultimately show ?thesis using fr by (intro exI [of _ ?s2]) simp
  qed
qed

text \<open>A descriptor in hand is closed.\<close>

lemma close_in_hand:
  assumes "loop_inv tc (owns f + E) s" and "0 \<le> f"
  shows "loop_inv tc E (Kernel.sys_close f s)"
proof -
  let ?s = "Kernel.sys_close f s"
  have sel: "open_fds ?s = open_fds s - {f}" "interest ?s = (interest s)(f := None)" "heap ?s = heap s"
    "listen_socket ?s = listen_socket s" "ev_epoll ?s = ev_epoll s" "wakeup_fd ?s = wakeup_fd s"
    "connections ?s = connections s" "pending_writes ?s = pending_writes s" "thread_pool ?s = thread_pool s"
    by (simp_all add: Kernel.sys_close_def)
  have a: "count (owners s + (owns f + E)) g = (if g \<in> open_fds s then 1 else 0)" for g
    using assms(1) by (simp add: loop_inv_def accounted_def)
  have own: "owners ?s = owners s" by (simp add: owners_def sel)
  have f1: "count (owners s) f = 0" "count E f = 0" using a [of f] assms(2) by (auto simp: count_owns split: if_splits)
  then have l: "f \<noteq> sock_fd (listen_socket s)" "f \<noteq> wakeup_fd s" by (auto simp: owners_def split: if_splits)
  have "accounted E ?s"
    unfolding accounted_def own
  proof
    fix g show "count (owners s + E) g = (if g \<in> open_fds ?s then 1 else 0)"
      using a [of g] f1 assms(2) by (cases "g = f") (auto simp: sel count_owns)
  qed
  moreover have "\<forall>p. (f, p) \<in> set (connections s) \<longrightarrow> state (heap s ! p) = Closed"
  proof (intro allI impI, rule ccontr)
    fix p assume p: "(f, p) \<in> set (connections s)" "state (heap s ! p) \<noteq> Closed"
    with inv_entry(1,6) [OF assms(1) p(1)] have "p < length (heap s)" "conn_fd (heap s ! p) = f" by auto
    then have "f \<in># owners s" using assms(2)
      by (auto simp: owners_def in_sum_list conn_fds_def owns_def intro!: bexI [of _ "heap s ! p"])
    with f1(1) show False by (metis count_eq_zero_iff)
  qed
  ultimately show ?thesis
    using assms(1) l
    by (auto simp: inv_defs sel entry_ok_def ref_ok_def split: prod.splits if_splits)
qed

lemma loop_frame_trans:
  assumes "loop_frame tc p s s1" and "loop_frame tc p s1 s2"
  shows "loop_frame tc p s s2"
proof -
  from assms obtain a b where
    "tq_queue (pending_writes s1) = tq_queue (pending_writes s) @ a" "\<forall>pw \<in> set a. pw_conn pw = Some p \<and> pw_file_fd pw = -1"
    "tq_queue (pending_writes s2) = tq_queue (pending_writes s1) @ b" "\<forall>pw \<in> set b. pw_conn pw = Some p \<and> pw_file_fd pw = -1"
    by (auto simp: loop_frame_def)
  then have "tq_queue (pending_writes s2) = tq_queue (pending_writes s) @ (a @ b) \<and>
      (\<forall>pw \<in> set (a @ b). pw_conn pw = Some p \<and> pw_file_fd pw = -1)" by auto
  moreover have "calm s s2" using assms calm_trans [of s s1 s2] by (simp add: loop_frame_def)
  ultimately show ?thesis using assms unfolding loop_frame_def by metis
qed

text \<open>Delivering a pending write always succeeds.\<close>

lemma deliver_one_inv:
  assumes "loop_inv tc (owns (pw_file_fd pw) + E) s" and "\<forall>p. pw_conn pw = Some p \<longrightarrow> ref_ok s p"
  shows "\<exists>s'. deliver_one pw s = (Ret (), s') \<and> loop_inv tc E s' \<and> calm s s'"
proof (cases "case pw_conn pw of None \<Rightarrow> True | Some p \<Rightarrow> \<not> is_alive (heap s ! p)")
  case True
  then have "deliver_one pw s = (Ret (), if 0 \<le> pw_file_fd pw then Kernel.sys_close (pw_file_fd pw) s else s)"
    by (simp add: deliver_one_def)
  with close_in_hand [OF assms(1)] assms(1) show ?thesis by (auto simp: owns_def calm_def Kernel.sys_close_def)
next
  case False
  then obtain p where p: "pw_conn pw = Some p" "state (heap s ! p) \<noteq> Closed"
    by (auto simp: is_alive_def split: option.splits)
  with assms(2) obtain f where f: "(f, p) \<in> set (connections s)" by (force simp: ref_ok_def)
  from hand_over_inv [OF assms(1) f p(2)] obtain s1 where
    s1: "hand_over pw p s = (Ret (), s1)" "loop_inv tc E s1" "loop_frame tc p s s1" "state (heap s1 ! p) \<noteq> Closed" by blast
  have f1: "(f, p) \<in> set (connections s1)" using f s1(3) by (simp add: loop_frame_def)
  from flush_conn_inv [OF s1(2) f1 s1(4)] obtain left s2 where
    s2: "flush_conn p s1 = (Ret left, s2)" "loop_inv tc E s2" "loop_frame tc p s1 s2"
      "state (heap s2 ! p) = Closed \<longrightarrow> left = 0" by blast
  have f2: "(f, p) \<in> set (connections s2)" using f1 s2(3) by (simp add: loop_frame_def)
  have cm: "calm s s2" using loop_frame_trans [OF s1(3) s2(3)] by (simp add: loop_frame_def)
  have d: "deliver_one pw s = (if 0 < left
      then epoll_modify (conn_fd (heap s2 ! p)) (EPOLLIN OR EPOLLOUT OR EPOLLET OR EPOLLRDHUP) s2 else (Ret (), s2))"
    using False p(1) s1(1) s2(1) by (simp add: deliver_one_def)
  show ?thesis
  proof (cases "0 < left")
    case True
    then have "state (heap s2 ! p) \<noteq> Closed" using s2(4) by auto
    from inv_entry(6) [OF s2(2) f2 this] inv_watched [OF s2(2)] d True cm show ?thesis
      by (auto simp: epoll_modify_ok calm_def)
  qed (use d s2(2) cm in simp)
qed

text \<open>A pending write is taken from the queue: its file is in hand.\<close>

lemma popped_inv:
  assumes "loop_inv tc E s" and "try_pop (pending_writes s) = (Some pw, q)"
  shows "loop_inv tc (owns (pw_file_fd pw) + E) (s\<lparr>pending_writes := q\<rparr>)"
    and "\<forall>p. pw_conn pw = Some p \<longrightarrow> ref_ok (s\<lparr>pending_writes := q\<rparr>) p"
proof -
  let ?s = "s\<lparr>pending_writes := q\<rparr>"
  have q: "tq_queue (pending_writes s) = pw # tq_queue q" "tq_closed q = tq_closed (pending_writes s)"
    using assms(2) by (auto simp: try_pop_def split: list.splits)
  have o: "owners ?s + (owns (pw_file_fd pw) + E) = owners s + E"
    using q(1) by (simp add: owners_def pw_fds_def ac_simps)
  have "accounted (owns (pw_file_fd pw) + E) ?s"
    using assms(1) unfolding loop_inv_def accounted_def o by simp
  moreover have "entry_ok ?s = entry_ok s" "ref_ok ?s = ref_ok s" by (simp_all add: fun_eq_iff entry_ok_def ref_ok_def)
  ultimately show "loop_inv tc (owns (pw_file_fd pw) + E) ?s" "\<forall>p. pw_conn pw = Some p \<longrightarrow> ref_ok ?s p"
    using assms(1) q by (simp_all add: inv_defs)
qed

lemma drain_loop_inv:
  assumes "loop_inv tc E s"
  shows "\<exists>s'. drain_loop s = (Ret (), s') \<and> loop_inv tc E s' \<and> tq_queue (pending_writes s') = [] \<and> calm s s'"
  using assms
proof (induction s rule: drain_loop.induct)
  case (1 s)
  show ?case
  proof (cases "tq_queue (pending_writes s)")
    case Nil
    with 1(2) show ?thesis by (simp add: drain_loop.simps [of s] try_pop_def)
  next
    case (Cons pw rest)
    let ?q = "(pending_writes s)\<lparr>tq_queue := rest\<rparr>"
    let ?s = "s\<lparr>pending_writes := ?q\<rparr>"
    have tp: "try_pop (pending_writes s) = (Some pw, ?q)" using Cons by (simp add: try_pop_def)
    from deliver_one_inv [OF popped_inv [OF 1(2) tp]] obtain s1 where
      s1: "deliver_one pw ?s = (Ret (), s1)" "loop_inv tc E s1" "calm ?s s1" by blast
    have "calm s s1" using s1(3) by (simp add: calm_def)
    with 1(1) [OF tp [symmetric] refl s1(1) [symmetric] refl s1(2)] s1(1) tp show ?thesis
      by (auto simp: drain_loop.simps [of s] intro: calm_trans)
  qed
qed

section \<open>Events\<close>

text \<open>What a read callback may do to the loop: queue pending writes without a file, and tasks.\<close>

definition callback_frame :: "('t \<Rightarrow> ConnectionPtr) \<Rightarrow> ConnectionPtr \<Rightarrow> ('t, 'b) server_scheme \<Rightarrow> ('t, 'b) server_scheme \<Rightarrow> bool" where
  "callback_frame tc p s s' \<longleftrightarrow> open_fds s' = open_fds s \<and> interest s' = interest s \<and> heap s' = heap s \<and>
     loop_frame tc p s s'"

definition same_fds :: "Connection \<Rightarrow> Connection \<Rightarrow> bool" where
  "same_fds c c' \<longleftrightarrow> socket c' = socket c \<and> state c' = state c \<and> sendfile_op c' = sendfile_op c"

lemma same_fds_conn: "same_fds c c' \<Longrightarrow> conn_fds c' = conn_fds c \<and> conn_fd c' = conn_fd c"
  by (simp add: same_fds_def conn_fds_def conn_fd_def)

lemma same_fds_trans: "same_fds c c1 \<Longrightarrow> same_fds c1 c2 \<Longrightarrow> same_fds c c2"
  by (simp add: same_fds_def)

lemma loop_frame_self [simp]: "loop_frame tc p s s"
  by (simp add: loop_frame_def)

lemma callback_frame_refl [simp]: "callback_frame tc p s s" "callback_frame tc p s (s\<lparr>rx := r\<rparr>)"
  for s :: "('t, 'b) server_scheme"
  by (simp_all add: callback_frame_def loop_frame_def)

lemma callback_frame_trans: "callback_frame tc p s s1 \<Longrightarrow> callback_frame tc p s1 s2 \<Longrightarrow> callback_frame tc p s s2"
  by (auto simp: callback_frame_def intro: loop_frame_trans)

lemma close_return_Ret: "\<exists>c' k'. close_return r (Some close_cb) c k = (Ret (r, c'), k')"
  by (simp add: close_return_def on_closed_def close_cb_def Let_def split: prod.split)

lemma make_read_room_ok:
  assumes "bufs_ok c" and "make_read_room c = (full, c1)"
  shows "bufs_ok c1 \<and> same_fds c c1"
proof -
  have "buf_wf (snd (compact (read_buf c)))" "capacity (snd (compact (read_buf c))) = capacity (read_buf c)"
    using assms(1) compact_ok [of "read_buf c"] by (cases "compact (read_buf c)"; simp add: bufs_ok_def)+
  with assms show ?thesis
    by (auto simp: make_read_room_def bufs_ok_def same_fds_def split: if_splits prod.splits)
qed

lemma sys_recv_bound: "sys_recv n s = (Inr xs, s1) \<Longrightarrow> length xs \<le> n"
  by (cases s rule: rx_size.cases) (auto split: if_splits)

text \<open>The contract of the read callback.\<close>

locale loop_client =
  fixes on_read :: "ConnectionPtr \<Rightarrow> ('t, 'b) server_scheme callback"
    and tc :: "'t \<Rightarrow> ConnectionPtr"
  assumes on_read_frame: "bufs_ok c \<Longrightarrow> on_read p c s = (r, s') \<Longrightarrow>
    callback_frame tc p s s' \<and> (case r of Ret c' \<Rightarrow> same_fds c c' \<and> bufs_ok c' | Throw e \<Rightarrow> False | Blocked \<Rightarrow> True)"
begin

lemma read_loop_frame:
  assumes "bufs_ok c" and "read_loop (Some (on_read p)) (Some close_cb) script c s = (r, s')"
  shows "r = Blocked \<or> (\<exists>go c' c1 s1. r = Ret (go, c') \<and> callback_frame tc p s s1 \<and> same_fds c c1 \<and> bufs_ok c1 \<and>
    (if go then c' = c1 \<and> s' = s1 else close_return False (Some close_cb) c1 s1 = (Ret (False, c'), s')))"
  using assms
proof (induction "rx_size script" arbitrary: script c s r s' rule: less_induct)
  case less
  obtain full c1 where m: "make_read_room c = (full, c1)" by force
  note c1 = make_read_room_ok [OF less.prems(1) m]
  obtain x script1 where x: "(if conn_fd c1 \<in> open_fds s then sys_recv (writable_bytes (read_buf c1)) script
      else (Inl EBADF, [])) = (x, script1)" by force
  have step: "(if full then close_return False (Some close_cb) c1 s
      else case x of
        Inr xs \<Rightarrow>
          if xs = [] then close_return False (Some close_cb) c1 s
          else (case append_bytes xs (read_buf c1) of
                  Ret b \<Rightarrow> bind_st (on_read p (c1\<lparr>read_buf := b\<rparr>) s)
                             (\<lambda>c2 k1. read_loop (Some (on_read p)) (Some close_cb) script1 c2 k1)
                | Throw e \<Rightarrow> (Throw e, s) | Blocked \<Rightarrow> (Blocked, s))
      | Inl e \<Rightarrow>
          if e = EAGAIN then (Ret (True, c1), s)
          else if e = EINTR then read_loop (Some (on_read p)) (Some close_cb) script1 c1 s
          else close_return False (Some close_cb) c1 s) = (r, s')"
    using less.prems(2) unfolding read_loop.simps [of _ _ script c s] call_back_simps(1) m prod.case x .
  have close: ?case if "close_return False (Some close_cb) c1 s = (r, s')"
    using that close_return_Ret [of False c1 s] c1 by (intro disjI2) (fastforce intro: callback_frame_refl)
  show ?case
  proof (cases full)
    case True
    with step close show ?thesis by simp
  next
    case full: False
    show ?thesis
    proof (cases x)
      case (Inl e)
      show ?thesis
      proof (cases "e = EINTR")
        case True
        have "rx_size script1 < rx_size script"
          using x Inl True by (auto split: if_splits intro: sys_recv_progress(2) [OF sym])
        moreover have "read_loop (Some (on_read p)) (Some close_cb) script1 c1 s = (r, s')"
          using step full Inl True by simp
        ultimately show ?thesis
          using less.hyps [of script1 c1 s r s'] c1 by (fastforce simp: same_fds_def)
      next
        case False
        show ?thesis
        proof (cases "e = EAGAIN")
          case True
          with step full Inl c1 show ?thesis
            by (intro disjI2 exI [of _ True] exI [of _ c1] exI [of _ s]) simp
        qed (use step full Inl False close in simp)
      qed
    next
      case (Inr xs)
      show ?thesis
      proof (cases "xs = []")
        case False
        have r: "sys_recv (writable_bytes (read_buf c1)) script = (Inr xs, script1)"
          using x Inr by (auto split: if_splits)
        from append_bytes_ok [of "read_buf c1" xs] sys_recv_bound [OF r] c1 obtain b where
          b: "append_bytes xs (read_buf c1) = Ret b" "buf_wf b" "capacity b = capacity (read_buf c1)" by (auto simp: bufs_ok_def)
        let ?c = "c1\<lparr>read_buf := b\<rparr>"
        have c: "bufs_ok ?c" "same_fds c ?c" using c1 b(2,3) by (simp_all add: bufs_ok_def same_fds_def)
        obtain r2 s2 where cb: "on_read p ?c s = (r2, s2)" by force
        have st: "bind_st (r2, s2) (\<lambda>c2 k1. read_loop (Some (on_read p)) (Some close_cb) script1 c2 k1) = (r, s')"
          using step full Inr False b(1) cb by simp
        note fr = on_read_frame [OF c(1) cb]
        show ?thesis
        proof (cases r2)
          case (Ret c2)
          have c2: "bufs_ok c2" "same_fds c c2" "callback_frame tc p s s2"
            using fr Ret c(2) by (auto simp: same_fds_def)
          have "read_loop (Some (on_read p)) (Some close_cb) script1 c2 s2 = (r, s')" using st Ret by simp
          from less.hyps [OF sys_recv_progress(1) [OF r [symmetric] False] c2(1) this] show ?thesis
            using same_fds_trans [OF c2(2)] callback_frame_trans [OF c2(3)] by blast
        qed (use st fr in simp_all)
      qed (use step full Inr close in simp)
    qed
  qed
qed

end

text \<open>An event on an entry that reads.\<close>

lemma inv_callback:
  assumes "loop_inv tc E s" and "(f, p) \<in> set (connections s)" and "callback_frame tc p s s1"
    and "same_fds (heap s ! p) c1" and "bufs_ok c1"
  shows "loop_inv tc E (s1\<lparr>heap := (heap s1)[p := c1]\<rparr>)"
proof -
  have p: "p < length (heap s)" by (rule inv_entry [OF assms(1,2)])
  have sel: "heap s1 = heap s" "open_fds s1 = open_fds s" "interest s1 = interest s" and
    fr: "loop_frame tc p s (s1\<lparr>heap := (heap s1)[p := c1]\<rparr>)"
    using assms(3) by (simp_all add: callback_frame_def loop_frame_def)
  show ?thesis
    by (rule inv_update [OF assms(1,2) _ fr, of c1 E "{#}"])
      (use sel assms(4,5) same_fds_conn [OF assms(4)] inv_entry(7) [OF assms(1,2)] in \<open>auto simp: same_fds_def\<close>)
qed

lemma close_inv:
  assumes "loop_inv tc E s" and "(f, p) \<in> set (connections s)" and "callback_frame tc p s s1"
    and "same_fds (heap s ! p) c1" and "bufs_ok c1" and "close_return r (Some close_cb) c1 s1 = (Ret (r, c'), s')"
  shows "loop_inv tc E (s'\<lparr>heap := (heap s')[p := c']\<rparr>) \<and> loop_frame tc p s (s'\<lparr>heap := (heap s')[p := c']\<rparr>)"
proof (cases "state c1 = Closed")
  case True
  with assms(6) have "c' = c1" "s' = s1" by (auto simp: close_return_def on_closed_def)
  with inv_callback [OF assms(1-5)] assms(3) show ?thesis by (simp add: callback_frame_def loop_frame_def)
next
  case False
  note e = inv_entry [OF assms(1,2)]
  have "0 \<le> conn_fd c1" and st: "state (heap s ! p) \<noteq> Closed"
    using e(3,6) False assms(4) same_fds_conn [OF assms(4)] by (auto simp: same_fds_def)
  from close_fds [OF False this(1), of r s1] assms(6) have
    c': "c' = c1\<lparr>state := Closed, sendfile_op := None, socket := no_socket\<rparr>" and
    cl: "fds_closed (set_mset (conn_fds c1)) s1 s'" by auto
  from fds_closed_sel(3) [OF cl] have m: "heap s' = heap s1" "listen_socket s' = listen_socket s1"
    "ev_epoll s' = ev_epoll s1" "wakeup_fd s' = wakeup_fd s1" "connections s' = connections s1"
    "pending_writes s' = pending_writes s1" "thread_pool s' = thread_pool s1" by (simp_all only: server_more_eq)
  have sel: "heap s1 = heap s" "open_fds s1 = open_fds s" "interest s1 = interest s" and
    fr: "loop_frame tc p s (s'\<lparr>heap := (heap s')[p := c']\<rparr>)"
    using assms(3) m calm_trans [OF _ fds_closed_sel(4) [OF cl], of s]
    by (simp_all add: callback_frame_def loop_frame_def)
  have fX: "f \<in># conn_fds (heap s ! p)" using e(3,6) st by (auto simp: conn_fds_def owns_def)
  have nil: "conn_fds c' = {#}" by (simp add: c' conn_fds_def conn_fd_def no_socket_def INVALID_FD_def)
  have "loop_inv tc E (s'\<lparr>heap := (heap s')[p := c']\<rparr>)"
    by (rule inv_update [OF assms(1,2) _ fr, of c' E "conn_fds (heap s ! p)"])
      (use sel m nil fX assms(5) fds_closed_sel [OF cl] same_fds_conn [OF assms(4)] in
        \<open>simp_all add: c' bufs_ok_def\<close>)
  with fr show ?thesis by blast
qed

lemma modify_unwatched:
  "interest k f = None \<Longrightarrow> \<exists>e \<in> {EBADF, ENOENT}. epoll_modify f w k = (Throw (throw_errno ''epoll_ctl(MOD)'' e), k)"
  by (cases "f \<in> open_fds k") (simp_all add: epoll_modify_def)

lemma closed_unwatched:
  assumes "loop_inv tc E s" and "(f, p) \<in> set (connections s)" and "state (heap s ! p) = Closed"
  shows "interest s f = None"
proof (rule ccontr)
  assume "interest s f \<noteq> None"
  with assms(1) inv_entry(4,5) [OF assms(1,2)] obtain q where
    "(f, q) \<in> set (connections s)" "state (heap s ! q) \<noteq> Closed"
    unfolding loop_inv_def watch_ok_def by blast
  with inv_unique [OF assms(1,2)] assms(3) show False by blast
qed

text \<open>Flushing a closed connection: its buffer is not sent, and 0 is returned.\<close>

lemma flush_dead:
  assumes "bufs_ok c" and "state c = Closed" and "conn_fds c = {#}" and "conn_fd c \<notin> open_fds k"
  shows "\<exists>c' k'. flush_write (Some close_cb) c k = (Ret (0, c'), k') \<and> fds_closed {} k k' \<and> conn_fds c' = {#}"
proof (cases "buf_empty (write_buf c)")
  case False
  have "send_loop (conn_fd c) (write_buf c) k = (Ret (Gone, write_buf c), k)"
    using False assms(4) by (simp add: send_loop.simps [of _ _ k] sys_send_def next_tx_def)
  then show ?thesis using assms(2,3) by (simp add: flush_write_def close_return_def on_closed_def)
next
  case True
  have sl: "send_loop (conn_fd c) (write_buf c) k = (Ret (Go_on, write_buf c), k)"
    using True by (simp add: send_loop.simps [of _ _ k])
  have z: "readable_bytes (write_buf c) = 0" using True by (simp add: buf_empty_def)
  show ?thesis
  proof (cases "sendfile_op c")
    case None
    then show ?thesis
      using sl True z assms(3) by (simp add: flush_write_def flush_finish_def sendfile_reset_def conn_fds_def conn_fd_def)
  next
    case (Some op)
    have neg: "file_fd op < 0" using assms(3) Some by (auto simp: conn_fds_def owns_def split: if_splits)
    then have "sendfile_loop (conn_fd c) op k = (Ret (Go_on, op), k)"
      by (simp add: sendfile_loop.simps [of _ op k] sendfile_active_def)
    then show ?thesis
      using sl Some True z neg assms(3)
      by (simp add: flush_write_def flush_finish_def sendfile_reset_def sendfile_active_def sendfile_destroy_def conn_fd_def
          conn_fds_def)
  qed
qed

lemma call_conn_Ret:
  "f (heap s ! p) s = (Ret (r, c), s1) \<Longrightarrow> call_conn f p s = (Ret r, s1\<lparr>heap := (heap s1)[p := c]\<rparr>)"
  by (simp add: call_conn_def)

lemma call_conn_stop:
  "f (heap s ! p) s = (Blocked, s1) \<Longrightarrow> call_conn f p s = (Blocked, s1)"
  by (simp add: call_conn_def)

text \<open>
  The rest of the handler after reading: the flush, and the change of the interest. On a closed
  connection the change fails; the descriptors are accounted for, although the flush has put the
  connection into another state.
\<close>

lemma writable_closed:
  assumes "loop_inv tc E s" and "(f, p) \<in> set (connections s)" and "ev_fd e = f"
    and "(r, s') = bind_st (flush_conn p s) (\<lambda>left s2.
           if left = 0 then epoll_modify (ev_fd e) w s2 else (Ret (), s2))"
    and "\<forall>g \<in># E. 0 \<le> g" and "state (heap s ! p) = Closed"
  shows "accounted E s' \<and> (\<exists>err \<in> {EBADF, ENOENT}. r = Throw (throw_errno ''epoll_ctl(MOD)'' err))"
proof -
  note e = inv_entry [OF assms(1,2)]
  have "conn_fd (heap s ! p) < 0" using e(7) [OF assms(6)] by (auto simp: conn_fds_def owns_def split: if_splits)
  moreover have "0 \<le> g" if "g \<in> open_fds s" for g
  proof -
    have "count (owners s + E) g = 1" using assms(1) that by (simp add: loop_inv_def accounted_def)
    then have "g \<in># owners s + E" by (metis count_inI zero_neq_one)
    then show ?thesis
      using assms(1,5) by (auto simp: loop_inv_def watch_ok_def owners_def in_sum_list conn_fds_def pw_fds_def owns_def
          split: option.splits if_splits)
  qed
  ultimately have "conn_fd (heap s ! p) \<notin> open_fds s" by force
  from flush_dead [OF e(2) assms(6) e(7) [OF assms(6)] this] obtain c' s1 where
    f: "flush_write (Some close_cb) (heap s ! p) s = (Ret (0, c'), s1)" "fds_closed {} s s1" "conn_fds c' = {#}" by blast
  let ?s = "s1\<lparr>heap := (heap s1)[p := c']\<rparr>"
  have "interest ?s f = None"
    using fds_closed_sel(2) [OF f(2), of f] closed_unwatched [OF assms(1,2) assms(6)] by simp
  from modify_unwatched [OF this, of w] assms(3,4) call_conn_Ret [of "flush_write (Some close_cb)", OF f(1)]
  have "s' = ?s \<and> (\<exists>err \<in> {EBADF, ENOENT}. r = Throw (throw_errno ''epoll_ctl(MOD)'' err))" by (auto simp: flush_conn_def)
  moreover have "accounted E ?s"
  proof -
    have m: "kernel.more s1 = kernel.more s" "open_fds s1 = open_fds s" using f(2) by (simp_all add: fds_closed_def)
    have "sum_list (map conn_fds ((heap s)[p := c'])) = sum_list (map conn_fds (heap s))"
      using sum_list_update [OF e(1), of conn_fds c'] e(7) [OF assms(6)] f(3) by simp
    then have "owners ?s = owners s" using m(1) by (simp add: owners_def server_more_eq)
    then show ?thesis using assms(1) m(2) by (simp add: loop_inv_def accounted_def)
  qed
  ultimately show ?thesis by blast
qed

lemma writable_inv:
  assumes "loop_inv tc E s" and "(f, p) \<in> set (connections s)" and "ev_fd e = f"
    and "(r, s') = bind_st (flush_conn p s) (\<lambda>left s2.
           if left = 0 then epoll_modify (ev_fd e) w s2 else (Ret (), s2))"
    and "\<forall>g \<in># E. 0 \<le> g"
  shows "r = Ret () \<and> loop_inv tc E s' \<and> calm s s' \<or>
    accounted E s' \<and> (\<exists>err \<in> {EBADF, ENOENT}. r = Throw (throw_errno ''epoll_ctl(MOD)'' err))"
proof (cases "state (heap s ! p) = Closed")
  case True
  with writable_closed [OF assms] show ?thesis by blast
next
  case False
  from flush_conn_inv [OF assms(1,2) False] obtain left s2 where
    s2: "flush_conn p s = (Ret left, s2)" "loop_inv tc E s2" "loop_frame tc p s s2"
      "state (heap s2 ! p) = Closed \<longrightarrow> left = 0" by blast
  have f2: "(f, p) \<in> set (connections s2)" and cm: "calm s s2" using assms(2) s2(3) by (simp_all add: loop_frame_def)
  show ?thesis
  proof (cases "left = 0")
    case True
    with s2(1) assms(3,4) have m: "(r, s') = epoll_modify f w s2" by simp
    show ?thesis
    proof (cases "state (heap s2 ! p) = Closed")
      case True
      have "accounted E s2" using s2(2) by (simp add: loop_inv_def)
      with modify_unwatched [OF closed_unwatched [OF s2(2) f2 True], of w] m show ?thesis by auto
    next
      case False
      from inv_entry(6) [OF s2(2) f2 False] inv_watched [OF s2(2)] m cm show ?thesis
        by (auto simp: epoll_modify_ok calm_def)
    qed
  qed (use s2 assms(4) cm in simp)
qed

context loop_client
begin

lemma readable_inv:
  assumes "loop_inv tc E s" and "(f, p) \<in> set (connections s)"
    and "call_conn (on_readable (Some (on_read p)) (Some close_cb)) p s = (r, s')"
  shows "r = Blocked \<or> (\<exists>go. r = Ret go \<and> loop_inv tc E s' \<and> loop_frame tc p s s')"
proof -
  let ?c = "heap s ! p"
  let ?s = "s\<lparr>rx := (rx s)(conn_fd ?c := rx_later (rx s (conn_fd ?c)))\<rparr>"
  note e = inv_entry [OF assms(1,2)]
  have t: "bufs_ok (touch s ?c)" "same_fds ?c (touch s ?c)"
    using e(2) by (simp_all add: touch_def bufs_ok_def same_fds_def)
  obtain r1 s1 where rl: "read_loop (Some (on_read p)) (Some close_cb) (rx_now (rx s (conn_fd ?c))) (touch s ?c) ?s = (r1, s1)"
    by force
  then have o: "on_readable (Some (on_read p)) (Some close_cb) ?c s = (r1, s1)"
    by (simp add: on_readable_def Let_def)
  from read_loop_frame [OF t(1) rl] show ?thesis
  proof (elim disjE exE conjE)
    assume "r1 = Blocked"
    with o assms(3) call_conn_stop [of "on_readable (Some (on_read p)) (Some close_cb)" s p s1] show ?thesis by simp
  next
    fix go c' c1 s2
    assume r1: "r1 = Ret (go, c')" and cf: "callback_frame tc p ?s s2" and sf: "same_fds (touch s ?c) c1" and b: "bufs_ok c1"
      and g: "if go then c' = c1 \<and> s1 = s2 else close_return False (Some close_cb) c1 s2 = (Ret (False, c'), s1)"
    have cf': "callback_frame tc p s s2" by (rule callback_frame_trans [OF _ cf]) simp
    have sf': "same_fds ?c c1" by (rule same_fds_trans [OF t(2) sf])
    have res: "r = Ret go" "s' = s1\<lparr>heap := (heap s1)[p := c']\<rparr>"
      using assms(3) call_conn_Ret [of "on_readable (Some (on_read p)) (Some close_cb)", OF o [unfolded r1]] by simp_all
    show ?thesis
    proof (cases go)
      case True
      with g res inv_callback [OF assms(1,2) cf' sf' b] cf' show ?thesis
        by (auto simp: callback_frame_def loop_frame_def)
    next
      case False
      with g have "close_return False (Some close_cb) c1 s2 = (Ret (False, c'), s1)" by simp
      from close_inv [OF assms(1,2) cf' sf' b this] res show ?thesis by simp
    qed
  qed
qed

lemma conn_event_inv:
  assumes "loop_inv tc E s" and "(f, p) \<in> set (connections s)" and "ev_fd e = f"
    and "read_cb a p = Some (on_read p)" and "conn_event a e p s = (r, s')" and "\<forall>g \<in># E. 0 \<le> g"
  shows "r = Blocked \<or> r = Ret () \<and> loop_inv tc E s' \<and> calm s s' \<or>
    is_writable e \<and> accounted E s' \<and> (\<exists>err \<in> {EBADF, ENOENT}. r = Throw (throw_errno ''epoll_ctl(MOD)'' err))"
proof (cases "Epoll.is_closed e")
  case True
  obtain c' s1 where c': "close_return () (Some close_cb) (heap s ! p) s = (Ret ((), c'), s1)"
    using close_return_Ret [of "()" "heap s ! p" s] by auto
  have "same_fds (heap s ! p) (heap s ! p)" by (simp add: same_fds_def)
  from close_inv [OF assms(1,2) callback_frame_refl(1) this inv_entry(2) [OF assms(1,2)] c']
  show ?thesis
    using True assms(5) call_conn_Ret [of "close_return () (Some close_cb)", OF c'] by (auto simp: conn_event_def loop_frame_def)
next
  case opened: False
  let ?w = "EPOLLIN OR EPOLLET OR EPOLLRDHUP"
  let ?rest = "\<lambda>s1. if is_writable e then bind_st (flush_conn p s1) (\<lambda>left s2.
      if left = 0 then epoll_modify (ev_fd e) ?w s2 else (Ret (), s2)) else (Ret (), s1)"
  have rest: "?thesis" if "loop_inv tc E s1" "(f, p) \<in> set (connections s1)" "calm s s1" "(r, s') = ?rest s1" for s1
    using that writable_inv [OF that(1,2) assms(3) _ assms(6), of r s' ?w] by (auto split: if_splits intro: calm_trans)
  show ?thesis
  proof (cases "is_readable e")
    case False
    with opened assms(5) have "(r, s') = ?rest s" by (simp add: conn_event_def)
    with rest [OF assms(1,2)] show ?thesis by simp
  next
    case True
    obtain r1 s1 where c: "call_conn (on_readable (Some (on_read p)) (Some close_cb)) p s = (r1, s1)" by force
    have ev: "(r, s') = bind_st (r1, s1) (\<lambda>go_on s1. if \<not> go_on then (Ret (), s1) else ?rest s1)"
      using opened True assms(4,5) c by (simp add: conn_event_def)
    from readable_inv [OF assms(1,2) c] show ?thesis
    proof (elim disjE exE conjE)
      assume "r1 = Blocked"
      with ev show ?thesis by simp
    next
      fix go assume r1: "r1 = Ret go" and i: "loop_inv tc E s1" and fr: "loop_frame tc p s s1"
      have "(f, p) \<in> set (connections s1)" "calm s s1" using fr assms(2) by (simp_all add: loop_frame_def)
      with rest [OF i] ev r1 i show ?thesis by (cases go) auto
    qed
  qed
qed

end

section \<open>Accepting\<close>

text \<open>
  The descriptors that \<open>accept4\<close> is going to return. The kernel returns an unused one each
  time, so they are not negative, not open now, and different.
\<close>

fun accept_fds :: "accept_event list \<Rightarrow> int list" where
  "accept_fds [] = []"
| "accept_fds (Acc_ok f r t # s) = f # accept_fds s"
| "accept_fds (Acc_err e # s) = accept_fds s"

definition accepts_fresh :: "'a kernel_scheme \<Rightarrow> bool" where
  "accepts_fresh k \<longleftrightarrow> distinct (accept_fds (accept_script k)) \<and>
     (\<forall>f \<in> set (accept_fds (accept_script k)). 0 \<le> f \<and> f \<notin> open_fds k)"

lemma infra_open:
  assumes "loop_inv tc E s"
  shows "sock_fd (listen_socket s) \<in> open_fds s" "wakeup_fd s \<in> open_fds s" "epfd (ev_epoll s) \<in> open_fds s"
  using assms by (auto simp: loop_inv_def accounted_def owners_def split: if_splits)

lemma calm_fresh: "calm k k' \<Longrightarrow> accepts_fresh k \<Longrightarrow> accepts_fresh k'"
  by (auto simp: calm_def accepts_fresh_def)

text \<open>A new client, accepted and not yet entered.\<close>

lemma accepted_inv:
  assumes "loop_inv tc E s" and "f \<notin> open_fds s" and "0 \<le> f"
    and "kernel.more s1 = kernel.more s" and "open_fds s1 = insert f (open_fds s)" and "interest s1 = (interest s)(f := None)"
  shows "loop_inv tc (add_mset f E) s1" and "\<forall>(g, p) \<in> set (connections s). state (heap s ! p) \<noteq> Closed \<longrightarrow> g \<noteq> f"
proof -
  from assms(4) have m: "heap s1 = heap s" "listen_socket s1 = listen_socket s" "ev_epoll s1 = ev_epoll s"
    "wakeup_fd s1 = wakeup_fd s" "connections s1 = connections s" "pending_writes s1 = pending_writes s"
    "thread_pool s1 = thread_pool s" by (simp_all only: server_more_eq)
  show l: "\<forall>(g, p) \<in> set (connections s). state (heap s ! p) \<noteq> Closed \<longrightarrow> g \<noteq> f"
    using inv_entry(6) [OF assms(1)] assms(2) by auto
  have "accounted (add_mset f E) s1"
    using assms(1,2,5) by (auto simp: loop_inv_def accounted_def owners_def m)
  moreover have "table_ok s1" "refs_ok tc s1"
    using assms(1,6) l by (auto simp: inv_defs entry_ok_def ref_ok_def m split: prod.splits if_splits)
  moreover have "watch_ok s1"
    using assms(1,2,6) infra_open [OF assms(1)] l by (auto simp: loop_inv_def watch_ok_def m)
  ultimately show "loop_inv tc (add_mset f E) s1" by (simp add: loop_inv_def)
qed

lemma conn_fds_new [simp]: "conn_fds (new_connection \<lparr>sock_fd = f\<rparr> i k) = owns f"
  "conn_fd (new_connection \<lparr>sock_fd = f\<rparr> i k) = f" "state (new_connection s i k) \<noteq> Closed"
  by (simp_all add: new_connection_def conn_fds_def conn_fd_def)

text \<open>The client gets an entry.\<close>

lemma entered_inv:
  assumes "loop_inv tc (add_mset f E) s" and "0 \<le> f" and "f \<notin> fst ` set (connections s)"
    and "heap s' = heap s @ [new_connection \<lparr>sock_fd = f\<rparr> i k]" and "connections s' = connections s @ [(f, length (heap s))]"
    and "open_fds s' = open_fds s" and "interest s' = (interest s)(f := Some w)"
    and "listen_socket s' = listen_socket s" and "ev_epoll s' = ev_epoll s" and "wakeup_fd s' = wakeup_fd s"
    and "pending_writes s' = pending_writes s" and "thread_pool s' = thread_pool s"
  shows "loop_inv tc E s'"
proof -
  have a: "count (owners s + add_mset f E) g = (if g \<in> open_fds s then 1 else 0)" for g
    using assms(1) by (simp add: loop_inv_def accounted_def)
  have "count (owners s) f = 0" using a [of f] by (auto split: if_splits)
  then have nl: "f \<noteq> sock_fd (listen_socket s)" "f \<noteq> wakeup_fd s" by (auto simp: owners_def split: if_splits)
  have len: "p < length (heap s)" if "(g, p) \<in> set (connections s)" for g p
    by (rule inv_entry(1) [OF assms(1) that])
  then have np: "length (heap s) \<notin> snd ` set (connections s)" by fastforce
  have old: "heap s' ! p = heap s ! p" if "p < length (heap s)" for p using that assms(4) by (simp add: nth_append)
  have new: "heap s' ! length (heap s) = new_connection \<lparr>sock_fd = f\<rparr> i k" using assms(4) by simp
  have "accounted E s'"
    using a assms(2,4,6,8-11) by (simp add: accounted_def owners_def owns_def)
  moreover have "table_ok s'"
    unfolding table_ok_def
  proof (intro conjI)
    show "distinct (map fst (connections s'))" "distinct (map snd (connections s'))"
      using assms(1,3,5) np by (simp_all add: loop_inv_def table_ok_def)
    show "\<forall>(g, p) \<in> set (connections s'). p < length (heap s') \<and> entry_ok s' g (heap s' ! p)"
    proof (intro ballI, clarsimp)
      fix g p assume "(g, p) \<in> set (connections s')"
      then consider "(g, p) \<in> set (connections s)" | "g = f" "p = length (heap s)" using assms(5) by auto
      then show "p < length (heap s') \<and> entry_ok s' g (heap s' ! p)"
      proof cases
        case 1
        have "entry_ok s g (heap s ! p)" using assms(1) 1 by (auto simp: loop_inv_def table_ok_def)
        with len [OF 1] show ?thesis
          using assms(4,7-10) old [OF len [OF 1]] by (auto simp: entry_ok_def split: if_splits)
      next
        case 2
        then show ?thesis using assms(2,4,7-10) nl new by (simp add: entry_ok_def)
      qed
    qed
  qed
  moreover have "watch_ok s'"
  proof -
    have "\<exists>p. (g, p) \<in> set (connections s') \<and> state (heap s' ! p) \<noteq> Closed"
      if "(g, p) \<in> set (connections s)" "state (heap s ! p) \<noteq> Closed" for g p
      using that len [OF that(1)] old assms(5) by auto
    moreover have "(f, length (heap s)) \<in> set (connections s')" using assms(5) by simp
    ultimately show ?thesis
      using assms(1,7-10) nl new by (auto simp: loop_inv_def watch_ok_def)
  qed
  moreover have "refs_ok tc s'"
    using assms(1,4,5,11,12) old by (auto simp: loop_inv_def refs_ok_def ref_ok_def)
  ultimately show ?thesis by (simp add: loop_inv_def)
qed

text \<open>The client has no entry, because its descriptor has a stale one: it is destroyed.\<close>

lemma dropped_inv:
  assumes "loop_inv tc (add_mset f E) s" and "0 \<le> f" and "\<forall>(g, p) \<in> set (connections s). state (heap s ! p) \<noteq> Closed \<longrightarrow> g \<noteq> f"
    and "heap s' = heap s @ [c]" and "conn_fds c = {#}" and "connections s' = connections s"
    and "open_fds s' = open_fds s - {f}" and "interest s' = (interest s)(f := None)"
    and "listen_socket s' = listen_socket s" and "ev_epoll s' = ev_epoll s" and "wakeup_fd s' = wakeup_fd s"
    and "pending_writes s' = pending_writes s" and "thread_pool s' = thread_pool s"
  shows "loop_inv tc E s'"
proof -
  have a: "count (owners s + add_mset f E) g = (if g \<in> open_fds s then 1 else 0)" for g
    using assms(1) by (simp add: loop_inv_def accounted_def)
  have f0: "count (owners s) f = 0" "count E f = 0" using a [of f] by (auto split: if_splits)
  then have nl: "f \<noteq> sock_fd (listen_socket s)" "f \<noteq> wakeup_fd s" by (auto simp: owners_def split: if_splits)
  have len: "p < length (heap s)" if "(g, p) \<in> set (connections s)" for g p
    by (rule inv_entry(1) [OF assms(1) that])
  have own: "owners s' = owners s" using assms(4,5,9-12) by (simp add: owners_def)
  have "accounted E s'"
    unfolding accounted_def own
  proof
    fix g show "count (owners s + E) g = (if g \<in> open_fds s' then 1 else 0)"
      using a [of g] f0 assms(7) by (cases "g = f") (simp_all add: count_owns)
  qed
  moreover have "table_ok s'"
    unfolding table_ok_def
  proof (intro conjI)
    show "distinct (map fst (connections s'))" "distinct (map snd (connections s'))"
      using assms(1,6) by (simp_all add: loop_inv_def table_ok_def)
    show "\<forall>(g, p) \<in> set (connections s'). p < length (heap s') \<and> entry_ok s' g (heap s' ! p)"
    proof (intro ballI, clarsimp)
      fix g p assume gp: "(g, p) \<in> set (connections s')"
      then have gp: "(g, p) \<in> set (connections s)" using assms(6) by simp
      then have "entry_ok s g (heap s ! p)" using assms(1) by (auto simp: loop_inv_def table_ok_def)
      with len [OF gp] gp assms(3) show "p < length (heap s') \<and> entry_ok s' g (heap s' ! p)"
        using assms(4,8-11) by (auto simp: entry_ok_def nth_append split: if_splits)
    qed
  qed
  moreover have "watch_ok s'"
  proof -
    have "\<exists>p. (g, p) \<in> set (connections s') \<and> state (heap s' ! p) \<noteq> Closed"
      if "(g, p) \<in> set (connections s)" "state (heap s ! p) \<noteq> Closed" for g p
      using that len [OF that(1)] assms(4,6) by (auto simp: nth_append)
    then show ?thesis
      using assms(1,8-11) nl by (auto simp: loop_inv_def watch_ok_def)
  qed
  moreover have "refs_ok tc s'"
    using assms(1,4,6,12,13) by (auto simp: loop_inv_def refs_ok_def ref_ok_def nth_append)
  ultimately show ?thesis by (simp add: loop_inv_def)
qed

lemma destroy_conn_new:
  assumes "heap s = h @ [new_connection \<lparr>sock_fd = f\<rparr> i k]" and "0 \<le> f"
  shows "destroy_conn (length h) s = (Kernel.sys_close f s)
    \<lparr>heap := h @ [(new_connection \<lparr>sock_fd = f\<rparr> i k)\<lparr>sendfile_op := None, socket := no_socket\<rparr>]\<rparr>"
  using assms
  by (simp add: destroy_conn_def connection_destroy_def sendfile_reset_def socket_close_def new_connection_def
      INVALID_FD_def Let_def Kernel.sys_close_def)

lemma accept_one_inv:
  assumes "loop_inv tc (add_mset f E) s" and "0 \<le> f" and "interest s f = None"
    and "\<forall>(g, p) \<in> set (connections s). state (heap s ! p) \<noteq> Closed \<longrightarrow> g \<noteq> f"
  shows "\<exists>s'. accept_one a \<lparr>sock_fd = f\<rparr> s = (Ret (), s') \<and> loop_inv tc E s' \<and>
    accept_script s' = accept_script s \<and> open_fds s' \<subseteq> open_fds s"
proof -
  have fo: "f \<in> open_fds s" using assms(1) by (auto simp: loop_inv_def accounted_def split: if_splits)
  let ?c = "new_connection \<lparr>sock_fd = f\<rparr> (next_conn_id s) s"
  let ?w = "EPOLLIN OR EPOLLET OR EPOLLRDHUP"
  let ?s3 = "\<lambda>cs. let s2 = s\<lparr>next_conn_id := next_conn_id s + 1, heap := heap s @ [?c], connections := cs,
      interest := (interest s)(f := Some ?w)\<rparr>
    in case conn_handler a of None \<Rightarrow> s2 | Some h \<Rightarrow> s2\<lparr>server.more := h (length (heap s)) (server.more s2)\<rparr>"
  show ?thesis
  proof (cases "map_of (connections s) f")
    case None
    let ?s = "?s3 (connections s @ [(f, length (heap s))])"
    have "f \<notin> fst ` set (connections s)" using None by (simp add: map_of_eq_None_iff)
    then have "loop_inv tc E ?s"
      by (rule entered_inv [where i = "next_conn_id s" and k = s and w = ?w, OF assms(1,2)]) (simp_all add: Let_def split: option.split)
    moreover have "accept_one a \<lparr>sock_fd = f\<rparr> s = (Ret (), ?s)"
      using None fo assms(3) by (simp add: accept_one_def epoll_add_ok Let_def cong: option.case_cong)
    ultimately show ?thesis
      by (intro exI [of _ ?s]) (simp add: Let_def split: option.split)
  next
    case (Some q)
    obtain t where t: "t = ?s3 (connections s)" by blast
    have sel: "heap t = heap s @ [?c]" "connections t = connections s" "open_fds t = open_fds s"
      "interest t = (interest s)(f := Some ?w)" "listen_socket t = listen_socket s" "ev_epoll t = ev_epoll s"
      "wakeup_fd t = wakeup_fd s" "pending_writes t = pending_writes s" "thread_pool t = thread_pool s" "accept_script t = accept_script s"
      by (simp_all add: t Let_def split: option.split)
    let ?s = "destroy_conn (length (heap s)) t"
    let ?d = "?c\<lparr>sendfile_op := None, socket := no_socket\<rparr>"
    have d: "?s = (Kernel.sys_close f t)\<lparr>heap := heap s @ [?d]\<rparr>" by (rule destroy_conn_new [OF sel(1) assms(2)])
    have "conn_fds ?d = {#}" by (simp add: conn_fds_def conn_fd_def no_socket_def INVALID_FD_def)
    then have "loop_inv tc E ?s"
      by (rule dropped_inv [where c = ?d, OF assms(1,2,4), rotated]) (simp_all add: d Kernel.sys_close_def sel)
    moreover have "accept_one a \<lparr>sock_fd = f\<rparr> s = (Ret (), ?s)"
      using Some fo assms(3) by (simp add: accept_one_def epoll_add_ok Let_def t cong: option.case_cong)
    ultimately show ?thesis
      by (intro exI [of _ ?s]) (auto simp: d Kernel.sys_close_def sel)
  qed
qed

lemma accept_inv:
  assumes "loop_inv tc E s" and "accepts_fresh s" and "accept_new_connections a s = (r, s')"
  shows "loop_inv tc E s' \<and> accepts_fresh s' \<and> (r = Ret () \<or>
    (\<exists>err. err \<notin> {EAGAIN, ECONNABORTED} \<and> r = Throw (throw_errno ''accept4()'' err)))"
  using assms
proof (induction a s arbitrary: r s' rule: accept_new_connections.induct)
  case (1 a s)
  have l: "sock_fd (listen_socket s) \<in> open_fds s" by (rule infra_open [OF 1(2)])
  note step = 1(4) [unfolded accept_new_connections.simps [of a s]]
  have same: "loop_inv tc E (s\<lparr>accept_script := x\<rparr>)" for x
    using 1(2) inv_cong [of "s\<lparr>accept_script := x\<rparr>" s] by simp
  have fresh: "accepts_fresh (s\<lparr>accept_script := x\<rparr>)" if "accept_script s = Acc_err e # x" for x e
    using 1(3) that by (simp add: accepts_fresh_def)
  show ?case
  proof (cases "accept_script s")
    case Nil
    with step l 1(2,3) show ?thesis
      by (auto simp: socket_accept_def sys_accept4_def no_socket_def is_valid_def)
  next
    case (Cons ev rest)
    show ?thesis
    proof (cases ev)
      case (Acc_err e)
      with Cons step l same fresh [of e rest] show ?thesis
        by (auto simp: socket_accept_def sys_accept4_def no_socket_def is_valid_def split: if_splits)
    next
      case (Acc_ok f rx1 tx1)
      with Cons 1(3) have f: "0 \<le> f" "f \<notin> open_fds s" "f \<notin> set (accept_fds rest)"
        and rest: "distinct (accept_fds rest)" "\<forall>g \<in> set (accept_fds rest). 0 \<le> g \<and> g \<notin> open_fds s"
        by (auto simp: accepts_fresh_def)
      obtain s1 where s1: "socket_accept (listen_socket s) s = (Ret \<lparr>sock_fd = f\<rparr>, s1)" "accept_script s1 = rest"
        "open_fds s1 = insert f (open_fds s)" "interest s1 = (interest s)(f := None)" "kernel.more s1 = kernel.more s"
        using socket_accept_new [OF l, of f rx1 tx1 rest] Cons Acc_ok by auto
      note i1 = accepted_inv [OF 1(2) f(2,1) s1(5,3,4)]
      from s1(5) have m: "connections s1 = connections s" "heap s1 = heap s" by (simp_all only: server_more_eq)
      from accept_one_inv [OF i1(1) f(1), of a] i1(2) s1(4) m obtain s2 where
        s2: "accept_one a \<lparr>sock_fd = f\<rparr> s1 = (Ret (), s2)" "loop_inv tc E s2" "accept_script s2 = rest"
          "open_fds s2 \<subseteq> insert f (open_fds s)" using s1(2,3) by auto
      have v: "is_valid \<lparr>sock_fd = f\<rparr>" using f(1) by (simp add: is_valid_def INVALID_FD_def)
      have "accepts_fresh s2" using s2(3,4) rest f(3) by (auto simp: accepts_fresh_def)
      moreover have "accept_new_connections a s2 = (r, s')" using step s1(1) v s2(1) by simp
      ultimately show ?thesis
        using 1(1) [OF s1(1) [symmetric] refl _ s2(1) [symmetric] refl s2(2)] v by simp
    qed
  qed
qed

section \<open>Handling an event, and the end of a round\<close>

context loop_client
begin

lemma handle_event_inv:
  assumes "loop_inv tc E s" and "accepts_fresh s" and "\<forall>p. read_cb a p = Some (on_read p)"
    and "handle_event a e s = (r, s')" and "\<forall>g \<in># E. 0 \<le> g"
  shows "r = Blocked \<or> r = Ret () \<and> loop_inv tc E s' \<and> accepts_fresh s' \<or> accounted E s' \<and>
    ((\<exists>err. r = Throw (throw_errno ''accept4()'' err) \<and> ev_fd e = sock_fd (listen_socket s) \<and> err \<notin> {EAGAIN, ECONNABORTED}) \<or>
     (\<exists>err \<in> {EBADF, ENOENT}. r = Throw (throw_errno ''epoll_ctl(MOD)'' err) \<and> is_writable e \<and>
        ev_fd e \<in> fst ` set (connections s)))"
proof (cases "ev_fd e = sock_fd (listen_socket s)")
  case True
  with assms(4) have "accept_new_connections a s = (r, s')" by (simp add: handle_event_def)
  from accept_inv [OF assms(1,2) this] True show ?thesis by (auto simp: loop_inv_def)
next
  case nl: False
  show ?thesis
  proof (cases "ev_fd e = wakeup_fd s")
    case True
    have i: "loop_inv tc E (sys_eventfd_read s)"
      using assms(1) inv_cong [of "sys_eventfd_read s" s] by (simp add: sys_eventfd_read_def)
    from drain_loop_inv [OF i] obtain t where
      t: "drain_loop (sys_eventfd_read s) = (Ret (), t)" "loop_inv tc E t" "calm (sys_eventfd_read s) t" by blast
    have "calm s t" using t(3) by (simp add: calm_def sys_eventfd_read_def)
    from calm_fresh [OF this assms(2)] t(1,2) nl True assms(4) show ?thesis
      by (simp add: handle_event_def drain_pending_writes_def)
  next
    case False
    show ?thesis
    proof (cases "map_of (connections s) (ev_fd e)")
      case None
      with nl False assms(1,2,4) show ?thesis by (simp add: handle_event_def)
    next
      case (Some p)
      then have m: "(ev_fd e, p) \<in> set (connections s)" by (rule map_of_SomeD)
      have "conn_event a e p s = (r, s')" using nl False Some assms(4) by (simp add: handle_event_def)
      from conn_event_inv [OF assms(1) m refl _ this assms(5)] assms(3) have
        "r = Blocked \<or> r = Ret () \<and> loop_inv tc E s' \<and> calm s s' \<or>
          is_writable e \<and> accounted E s' \<and> (\<exists>err \<in> {EBADF, ENOENT}. r = Throw (throw_errno ''epoll_ctl(MOD)'' err))" by blast
      moreover have "ev_fd e \<in> fst ` set (connections s)" using m by force
      ultimately show ?thesis using calm_fresh [of s s'] assms(2) by blast
    qed
  qed
qed

end

lemma remove_connection_inv:
  assumes "loop_inv tc E s" and "(f, p) \<in> set (connections s)" and "state (heap s ! p) = Closed"
  shows "loop_inv tc E (remove_connection f s)"
proof -
  have i: "interest s f = None" by (rule closed_unwatched [OF assms])
  have "interest (epoll_remove f s) = interest s" using i by (simp add: epoll_remove_eq fun_upd_idem)
  then have sel: "heap (remove_connection f s) = heap s" "connections (remove_connection f s) = AList.delete f (connections s)"
    "listen_socket (remove_connection f s) = listen_socket s" "ev_epoll (remove_connection f s) = ev_epoll s"
    "wakeup_fd (remove_connection f s) = wakeup_fd s" "pending_writes (remove_connection f s) = pending_writes s"
    "open_fds (remove_connection f s) = open_fds s" "interest (remove_connection f s) = interest s"
    "thread_pool (remove_connection f s) = thread_pool s"
    by (simp_all add: remove_connection_def Let_def epoll_remove_eq)
  let ?cs = "AList.delete f (connections s)"
  have sub: "set ?cs = {(g, q). (g, q) \<in> set (connections s) \<and> g \<noteq> f}"
    by (auto simp: AList.delete_eq)
  have d: "distinct (map fst ?cs)" "distinct (map snd ?cs)"
    using assms(1) by (auto simp: loop_inv_def table_ok_def AList.delete_eq distinct_map_filter)
  have uniq: "(f, q) \<in> set (connections s) \<Longrightarrow> state (heap s ! q) = Closed" for q
    using inv_unique [OF assms(1,2)] assms(3) by blast
  have "table_ok (remove_connection f s)"
    using assms(1) d unfolding loop_inv_def table_ok_def sel
    by (auto simp: sub entry_ok_def sel)
  moreover have "watch_ok (remove_connection f s)"
    using assms(1) i unfolding loop_inv_def watch_ok_def sel sub
    by auto (metis option.distinct(1))
  moreover have "refs_ok tc (remove_connection f s)"
  proof -
    have "ref_ok (remove_connection f s) q" if "ref_ok s q" for q
      using that uniq unfolding ref_ok_def sel sub by force
    then show ?thesis using assms(1) by (auto simp: loop_inv_def refs_ok_def sel)
  qed
  moreover have "accounted E (remove_connection f s)"
    using assms(1) by (simp add: loop_inv_def accounted_def owners_def sel)
  ultimately show ?thesis by (simp add: loop_inv_def)
qed

lemma reap_inv:
  assumes "loop_inv tc E s"
  shows "loop_inv tc E (reap s)"
proof -
  have "loop_inv tc E (fold remove_connection fs s)"
    if "loop_inv tc E s" "distinct fs" "\<forall>f \<in> set fs. \<exists>p. (f, p) \<in> set (connections s) \<and> state (heap s ! p) = Closed"
    for fs and s :: "('a, 'b) server_scheme"
    using that
  proof (induction fs arbitrary: s)
    case (Cons f fs)
    then obtain p where p: "(f, p) \<in> set (connections s)" "state (heap s ! p) = Closed" by auto
    have "heap (remove_connection f s) = heap s" "connections (remove_connection f s) = AList.delete f (connections s)"
      by (simp_all add: remove_connection_def Let_def epoll_remove_eq)
    then have "\<forall>g \<in> set fs. \<exists>p. (g, p) \<in> set (connections (remove_connection f s)) \<and>
        state (heap (remove_connection f s) ! p) = Closed"
      using Cons.prems(2,3) by (fastforce simp: AList.delete_eq)
    with Cons.IH [OF remove_connection_inv [OF Cons.prems(1) p]] Cons.prems(2) show ?case by simp
  qed simp
  moreover have "distinct (map fst (filter (\<lambda>(f, p). \<not> is_alive (heap s ! p)) (connections s)))"
    using assms by (simp add: loop_inv_def table_ok_def distinct_map_filter)
  ultimately show ?thesis using assms unfolding reap_def by (auto simp: is_alive_def)
qed

end
