(* ===== verification/Event_Loop_Run.thy ===== *)
theory Event_Loop_Run
  imports Event_Loop_Inv
begin

text \<open>
  The invariant of the event loop along \<open>run\<close>: a round keeps it, so do the rounds of the loop
  with what the other threads do in between, and it holds when the workers have been joined.
\<close>

section \<open>Rounds\<close>

lemma epoll_wait_frame:
  assumes "epoll_wait t ep s = (Ret (evs, ep'), s1)"
  shows "epfd ep' = epfd ep \<and> kernel.more s1 = kernel.more s \<and> open_fds s1 = open_fds s \<and>
    interest s1 = interest s \<and> accept_script s1 = accept_script s"
  using assms
  by (auto simp: epoll_wait_def sys_epoll_wait_def Let_def bind_st_def
      split: list.splits ready_event.splits sum.splits res.splits if_splits prod.splits)

lemma inv_waited:
  assumes "loop_inv tc E s" and "epoll_wait t (ev_epoll s) s = (Ret (evs, ep), s1)"
  shows "loop_inv tc E (s1\<lparr>ev_epoll := ep\<rparr>)"
proof -
  note fr = epoll_wait_frame [OF assms(2)]
  then have "heap s1 = heap s" "connections s1 = connections s" "listen_socket s1 = listen_socket s"
    "wakeup_fd s1 = wakeup_fd s" "pending_writes s1 = pending_writes s" "thread_pool s1 = thread_pool s"
    by (simp_all only: server_more_eq)
  with fr assms(1) inv_cong [of "s1\<lparr>ev_epoll := ep\<rparr>" s] show ?thesis by simp
qed

lemma reap_calm: "calm s (reap s)"
proof -
  have "calm s (fold remove_connection fs s)" for fs
  proof (induction fs arbitrary: s)
    case (Cons f fs)
    have "calm s (remove_connection f s)" by (simp add: calm_def remove_connection_def Let_def epoll_remove_eq)
    from calm_trans [OF this Cons] show ?case by simp
  qed simp
  then show ?thesis by (simp add: reap_def)
qed

lemma inv_pool:
  assumes "loop_inv tc E s" and "pool_tasks p \<subseteq> pool_tasks (thread_pool s)"
  shows "loop_inv tc E (s\<lparr>thread_pool := p\<rparr>)"
  using assms by (auto simp: inv_defs accounted_def owners_def entry_ok_def ref_ok_def subset_iff split: if_splits)

lemma pool_tasks_shutdown [simp]: "pool_tasks (shutdown_begin p) = pool_tasks p"
  by (simp add: pool_tasks_def shutdown_begin_def close_def)

text \<open>
  What the other threads may do: they keep the invariant, the descriptors \<open>accept4\<close> will
  return stay unused, and a pool that is shut down stays so.
\<close>

definition env_keeps :: "('t \<Rightarrow> ConnectionPtr) \<Rightarrow> (('t, 'b) server_scheme \<Rightarrow> ('t, 'b) server_scheme) list \<Rightarrow> bool" where
  "env_keeps tc env \<longleftrightarrow> (\<forall>other \<in> set env. \<forall>s. loop_inv tc {#} s \<longrightarrow> accepts_fresh s \<longrightarrow>
     loop_inv tc {#} (other s) \<and> accepts_fresh (other s) \<and>
     (shutdown_called (thread_pool s) \<longrightarrow> shutdown_called (thread_pool (other s))))"

lemma env_fold:
  assumes "env_keeps tc env" and "loop_inv tc {#} s" and "accepts_fresh s"
  shows "loop_inv tc {#} (fold (\<lambda>other. other) env s) \<and> accepts_fresh (fold (\<lambda>other. other) env s) \<and>
    (shutdown_called (thread_pool s) \<longrightarrow> shutdown_called (thread_pool (fold (\<lambda>other. other) env s)))"
  using assms
proof (induction env arbitrary: s)
  case (Cons other env)
  have "loop_inv tc {#} (other s) \<and> accepts_fresh (other s) \<and>
     (shutdown_called (thread_pool s) \<longrightarrow> shutdown_called (thread_pool (other s)))" and "env_keeps tc env"
    using Cons.prems by (auto simp: env_keeps_def)
  with Cons.IH [of "other s"] show ?case by simp
qed simp

lemma join_pool_inv:
  assumes "env_keeps tc env" and "loop_inv tc {#} s" and "accepts_fresh s" and "join_pool env s = (r, s')"
  shows "loop_inv tc {#} s' \<and> shutdown_called (thread_pool s')"
proof (cases "shutdown_called (thread_pool s)")
  case True
  with assms(2,4) show ?thesis by (simp add: join_pool_def)
next
  case False
  let ?s = "s\<lparr>thread_pool := shutdown_begin (thread_pool s)\<rparr>"
  have "loop_inv tc {#} ?s" by (rule inv_pool [OF assms(2)]) simp
  moreover have "accepts_fresh ?s" using assms(3) by (simp add: accepts_fresh_def)
  moreover have "shutdown_called (thread_pool ?s)" by (simp add: shutdown_begin_def)
  ultimately show ?thesis using env_fold [OF assms(1), of ?s] False assms(4) by (simp add: join_pool_def Let_def)
qed

context loop_client
begin

lemma handle_events_inv:
  assumes "loop_inv tc {#} s" and "accepts_fresh s" and "\<forall>p. read_cb a p = Some (on_read p)"
    and "handle_events a es s = (Ret (), s')"
  shows "loop_inv tc {#} s' \<and> accepts_fresh s'"
  using assms
proof (induction es arbitrary: s)
  case (Cons e es)
  from Cons.prems(4) obtain s1 where
    s1: "handle_event a e s = (Ret (), s1)" "handle_events a es s1 = (Ret (), s')" by (auto simp: bind_st_eq_Ret)
  from handle_event_inv [OF Cons.prems(1-3) s1(1)] have "loop_inv tc {#} s1" "accepts_fresh s1" by auto
  from Cons.IH [OF this Cons.prems(3) s1(2)] show ?case .
qed simp

lemma loop_iteration_inv:
  assumes "loop_inv tc {#} s" and "accepts_fresh s" and "\<forall>p. read_cb a p = Some (on_read p)"
    and "loop_iteration a s = (Ret (), s')"
  shows "loop_inv tc {#} s' \<and> accepts_fresh s'"
proof -
  from assms(4) obtain evs ep s1 s2 where
    w: "epoll_wait EPOLL_TIMEOUT_MS (ev_epoll s) s = (Ret (evs, ep), s1)"
      "handle_events a evs (s1\<lparr>ev_epoll := ep\<rparr>) = (Ret (), s2)" "s' = reap s2"
    by (auto simp: loop_iteration_def bind_st_eq_Ret)
  have i: "loop_inv tc {#} (s1\<lparr>ev_epoll := ep\<rparr>)" by (rule inv_waited [OF assms(1) w(1)])
  have "accepts_fresh (s1\<lparr>ev_epoll := ep\<rparr>)"
    using assms(2) epoll_wait_frame [OF w(1)] by (simp add: accepts_fresh_def)
  from handle_events_inv [OF i this assms(3) w(2)] reap_inv calm_fresh [OF reap_calm] w(3) show ?thesis by blast
qed

text \<open>When \<open>run\<close> returns, the workers have been joined in a state with the invariant.\<close>

lemma run_loop_inv:
  assumes "loop_inv tc {#} s" and "accepts_fresh s" and "\<forall>p. read_cb a p = Some (on_read p)" and "env_keeps tc env"
    and "run_loop a env s = (Ret (), s')"
  shows "\<exists>s1. loop_inv tc {#} s1 \<and> shutdown_called (thread_pool s1) \<and> s' = clear_connections s1"
  using assms
proof (induction a env s rule: run_loop.induct)
  case (1 a env s)
  show ?case
  proof (cases "loop_running s")
    case False
    with 1(6) obtain s1 where "join_pool env s = (Ret (), s1)" "s' = clear_connections s1"
      by (auto simp: loop_finish_def bind_st_eq_Ret)
    with join_pool_inv [OF 1(5,2,3)] show ?thesis by blast
  next
    case True
    with 1(6) [unfolded run_loop.simps [of a env s]] obtain other env1 s1 where
      e: "env = other # env1" "loop_iteration a s = (Ret (), s1)" "run_loop a env1 (other s1) = (Ret (), s')"
      by (cases env) (auto simp: bind_st_eq_Ret simp del: run_loop.simps)
    from loop_iteration_inv [OF 1(2-4) e(2)] have "loop_inv tc {#} s1" "accepts_fresh s1" by auto
    with 1(5) e(1) have "loop_inv tc {#} (other s1)" "accepts_fresh (other s1)" "env_keeps tc env1"
      by (auto simp: env_keeps_def)
    from 1(1) [OF _ e(1) this(1,2) 1(4) this(3) e(3)] True show ?thesis by simp
  qed
qed

end

end
