(* ===== verification/Header_Map.thy ===== *)
theory Header_Map
  imports Server_Prelude "HOL-Library.AList" "HOL-Library.Multiset"
begin

text \<open>
  The header container of requests and responses, \<open>std::unordered_map<std::string,
  std::string>\<close> (\<open>include/http/request.hpp\<close>, \<open>include/http/response.hpp\<close>).

  The locale \<open>string_map\<close> is the interface the HTTP layer uses: \<open>find\<close>,
  \<open>operator[]\<close> followed by an assignment, \<open>size\<close> and the sequence of entries.
  The model is an association list with distinct keys, and \<open>hm\<close> is its
  interpretation. The order in which a range-based \<open>for\<close> visits the entries is
  unspecified in C++: where the code iterates, the order is a parameter \<open>ord\<close> that
  only rearranges the entries (\<open>iteration_order\<close>).
\<close>

section \<open>The interface\<close>

locale string_map =
  fixes get :: "'m \<Rightarrow> string \<Rightarrow> string option"
    and put :: "string \<Rightarrow> string \<Rightarrow> 'm \<Rightarrow> 'm"
    and count :: "'m \<Rightarrow> nat"
    and entries :: "'m \<Rightarrow> (string \<times> string) list"
    and empty :: 'm
    and wf :: "'m \<Rightarrow> bool"
  assumes get_empty [simp]: "get empty k = None"
    and wf_empty [simp]: "wf empty"
    and count_empty [simp]: "count empty = 0"
    and get_put [simp]: "get (put k v m) k' = (if k = k' then Some v else get m k')"
    and wf_put [simp]: "wf m \<Longrightarrow> wf (put k v m)"
    and count_put: "wf m \<Longrightarrow> count (put k v m) = (if get m k = None then Suc (count m) else count m)"
    and map_of_entries: "wf m \<Longrightarrow> map_of (entries m) k = get m k"
    and distinct_entries: "wf m \<Longrightarrow> distinct (map fst (entries m))"
    and length_entries: "wf m \<Longrightarrow> length (entries m) = count m"
begin

lemma wf_fold_put [simp]: "wf m \<Longrightarrow> wf (fold (\<lambda>(k, v). put k v) kvs m)"
  by (induction kvs arbitrary: m) auto

text \<open>After a sequence of stores a key holds the value stored last.\<close>

lemma get_fold_put:
  "get (fold (\<lambda>(k, v). put k v) kvs m) k =
     (case map_of (rev kvs) k of Some v \<Rightarrow> Some v | None \<Rightarrow> get m k)"
proof (induction kvs arbitrary: m)
  case (Cons kv kvs)
  then show ?case
    by (cases kv) (auto simp: map_add_def split: option.splits)
qed simp

lemma count_put_le: "wf m \<Longrightarrow> count (put k v m) \<le> Suc (count m)"
  by (simp add: count_put)

lemma count_fold_put_le:
  "wf m \<Longrightarrow> count (fold (\<lambda>(k, v). put k v) kvs m) \<le> count m + length kvs"
proof (induction kvs arbitrary: m)
  case (Cons kv kvs)
  obtain k v where kv: "kv = (k, v)" by (cases kv)
  have "count (fold (\<lambda>(k, v). put k v) kvs (put k v m)) \<le> count (put k v m) + length kvs"
    using Cons by simp
  also have "\<dots> \<le> count m + length (kv # kvs)"
    using count_put_le [of m k v] Cons.prems by simp
  finally show ?case by (simp add: kv)
qed simp

lemma get_entries_iff: "wf m \<Longrightarrow> (k, v) \<in> set (entries m) \<longleftrightarrow> get m k = Some v"
  using distinct_entries [of m] map_of_entries [of m k]
  by (metis map_of_SomeD map_of_is_SomeI)

end

section \<open>The model of the container\<close>

type_synonym header_map = "(string \<times> string) list"

definition hm_get :: "header_map \<Rightarrow> string \<Rightarrow> string option" where
  "hm_get m k = map_of m k"

definition hm_set :: "string \<Rightarrow> string \<Rightarrow> header_map \<Rightarrow> header_map" where
  "hm_set k v m = AList.update k v m"

definition hm_size :: "header_map \<Rightarrow> nat" where
  "hm_size m = length m"

definition hm_wf :: "header_map \<Rightarrow> bool" where
  "hm_wf m \<longleftrightarrow> distinct (map fst m)"

lemma length_update:
  "length (AList.update k v m) = (if map_of m k = None then Suc (length m) else length m)"
  by (induction m) auto

interpretation hm: string_map hm_get hm_set hm_size "\<lambda>m. m" "[]" hm_wf
proof unfold_locales
  show "hm_size (hm_set k v m) = (if hm_get m k = None then Suc (hm_size m) else hm_size m)"
    if "hm_wf m" for m k v
    by (simp add: hm_size_def hm_set_def hm_get_def length_update)
  show "hm_wf (hm_set k v m)" if "hm_wf m" for m k v
    using that by (simp add: hm_wf_def hm_set_def distinct_update)
  show "hm_get (hm_set k v m) k' = (if k = k' then Some v else hm_get m k')" for m k v k'
    by (simp add: hm_get_def hm_set_def update_conv')
qed (simp_all add: hm_get_def hm_size_def hm_wf_def)

lemmas hm_simps = hm.get_put hm.get_empty hm.wf_put hm.wf_empty

section \<open>Iteration order\<close>

text \<open>The order of iteration is a permutation of the entries that the library chooses.\<close>

definition iteration_order :: "(header_map \<Rightarrow> (string \<times> string) list) \<Rightarrow> bool" where
  "iteration_order ord \<longleftrightarrow> (\<forall>m. mset (ord m) = mset m)"

lemma iteration_order_id [simp]: "iteration_order (\<lambda>m. m)"
  and iteration_order_rev [simp]: "iteration_order rev"
  by (simp_all add: iteration_order_def)

lemma iteration_order_set: "iteration_order ord \<Longrightarrow> set (ord m) = set m"
  unfolding iteration_order_def by (metis set_mset_mset)

lemma iteration_order_wf: "iteration_order ord \<Longrightarrow> hm_wf m \<Longrightarrow> hm_wf (ord m)"
  unfolding iteration_order_def hm_wf_def by (metis mset_map mset_eq_imp_distinct_iff)

lemma iteration_order_get:
  assumes "iteration_order ord" and "hm_wf m"
  shows "hm_get (ord m) k = hm_get m k"
proof -
  have d: "distinct (map fst (ord m))" "distinct (map fst m)"
    using assms iteration_order_wf by (auto simp: hm_wf_def)
  have "map_of (ord m) = map_of m"
    using iteration_order_set [OF assms(1), of m] by (simp add: map_of_inject_set [OF d])
  then show ?thesis by (simp add: hm_get_def)
qed

end
