(* ===== verification/Http_Request.thy ===== *)
theory Http_Request
  imports Header_Map
begin

text \<open>
  \<open>include/http/request.hpp\<close> and \<open>src/http/request.cpp\<close>: methods, the request
  structure, header lookup, the keep-alive decision and the declared body length.
\<close>

section \<open>Methods\<close>

datatype Method = GET | HEAD | POST | PUT | DELETE | OPTIONS | PATCH | UNKNOWN

fun method_to_string :: "Method \<Rightarrow> string" where
  "method_to_string GET = ''GET''"
| "method_to_string HEAD = ''HEAD''"
| "method_to_string POST = ''POST''"
| "method_to_string PUT = ''PUT''"
| "method_to_string DELETE = ''DELETE''"
| "method_to_string OPTIONS = ''OPTIONS''"
| "method_to_string PATCH = ''PATCH''"
| "method_to_string UNKNOWN = ''UNKNOWN''"

definition string_to_method :: "string \<Rightarrow> Method" where
  "string_to_method str =
     (if str = ''GET'' then GET
      else if str = ''HEAD'' then HEAD
      else if str = ''POST'' then POST
      else if str = ''PUT'' then PUT
      else if str = ''DELETE'' then DELETE
      else if str = ''OPTIONS'' then OPTIONS
      else if str = ''PATCH'' then PATCH
      else UNKNOWN)"

lemma string_to_method_roundtrip [simp]: "string_to_method (method_to_string m) = m"
  by (cases m) (simp_all add: string_to_method_def)

lemma method_to_string_chars [simp]:
  "SP \<notin> set (method_to_string m)" "LF \<notin> set (method_to_string m)" "method_to_string m \<noteq> []"
  by (cases m; simp)+

lemma string_to_method_known:
  "string_to_method s = m \<Longrightarrow> m \<noteq> UNKNOWN \<Longrightarrow> s = method_to_string m"
  by (auto simp: string_to_method_def split: if_splits)

section \<open>The request\<close>

record HttpRequest =
  req_method :: Method
  req_path :: string
  req_version :: string
  req_headers :: header_map
  req_body :: string

definition empty_request :: HttpRequest where
  "empty_request =
     \<lparr>req_method = UNKNOWN, req_path = [], req_version = [], req_headers = [], req_body = []\<rparr>"

definition header :: "HttpRequest \<Rightarrow> string \<Rightarrow> string option" where
  "header r name = hm_get (req_headers r) (map tolower name)"

definition wants_keep_alive :: "HttpRequest \<Rightarrow> bool" where
  "wants_keep_alive r =
     (let conn = header r ''connection''
      in if req_version r = ''HTTP/1.1''
         then (if conn = Some ''close'' then False else True)
         else if conn = Some ''keep-alive'' then True
         else False)"

definition content_length :: "HttpRequest \<Rightarrow> nat" where
  "content_length r =
     (case header r ''content-length'' of
        None \<Rightarrow> 0
      | Some val \<Rightarrow> (case from_chars val of None \<Rightarrow> 0 | Some n \<Rightarrow> n))"

lemma map_tolower_idem [simp]: "map tolower (map tolower s) = map tolower s"
  by simp

lemma header_case: "map tolower a = map tolower b \<Longrightarrow> header r a = header r b"
  by (simp add: header_def)

lemma header_stored [simp]:
  "header (r\<lparr>req_headers := hm_set (map tolower name) v h\<rparr>) key =
     (if map tolower key = map tolower name then Some v else hm_get h (map tolower key))"
  by (auto simp: header_def)

lemma content_length_bound: "content_length r < 2 ^ 64"
  by (auto simp: content_length_def dest: from_chars_bound split: option.splits)

lemma content_length_cong:
  "header r ''content-length'' = header r' ''content-length'' \<Longrightarrow> content_length r = content_length r'"
  by (simp add: content_length_def)

end
