(* ===== verification/Http_Parser.thy ===== *)
theory Http_Parser
  imports Http_Request
begin

text \<open>
  \<open>include/http/parser.hpp\<close> and \<open>src/http/parser.cpp\<close>: the incremental request
  parser. A state is the record \<open>HttpParser\<close>; every member function takes the state
  and returns the new one. The loop of \<open>feed\<close> is recursion on the remaining input, which
  each round shortens.
\<close>

section \<open>State\<close>

datatype Result = Incomplete | Complete | Error

text \<open>\<open>State::Complete\<close> is \<open>Completed\<close> here, to tell it from \<open>Result::Complete\<close>.\<close>

datatype PState = RequestLine | Headers | Body | Completed

definition MAX_REQUEST_LINE :: nat where "MAX_REQUEST_LINE = 8 * 1024"
definition MAX_HEADER_SIZE :: nat where "MAX_HEADER_SIZE = 8 * 1024"
definition MAX_HEADER_COUNT :: nat where "MAX_HEADER_COUNT = 100"
definition MAX_BODY_SIZE :: nat where "MAX_BODY_SIZE = 8 * 1024 * 1024"

record HttpParser =
  p_state :: PState
  p_request :: HttpRequest
  line_buf :: string
  p_error :: string
  body_remaining :: nat
  max_body_size :: nat

definition new_parser :: HttpParser where
  "new_parser =
     \<lparr>p_state = RequestLine, p_request = empty_request, line_buf = [], p_error = [],
      body_remaining = 0, max_body_size = MAX_BODY_SIZE\<rparr>"

definition set_max_body_size :: "nat \<Rightarrow> HttpParser \<Rightarrow> HttpParser" where
  "set_max_body_size sz p = p\<lparr>max_body_size := sz\<rparr>"

definition reset :: "HttpParser \<Rightarrow> HttpParser" where
  "reset p = p\<lparr>p_state := RequestLine, p_request := empty_request, line_buf := [],
              body_remaining := 0, p_error := []\<rparr>"

text \<open>
  \<open>take_result\<close> moves the request out. A moved-from request is valid but unspecified in
  C++: it is the parameter \<open>moved_from\<close>.
\<close>

definition take_result :: "HttpRequest \<Rightarrow> HttpParser \<Rightarrow> HttpRequest \<times> HttpParser" where
  "take_result moved_from p = (p_request p, p\<lparr>p_request := moved_from\<rparr>)"

section \<open>Helpers of the parser\<close>

definition is_ows :: "char \<Rightarrow> bool" where
  "is_ows c \<longleftrightarrow> c = SP \<or> c = HT"

definition trim :: "string \<Rightarrow> string" where
  "trim sv = rev (dropWhile is_ows (rev (dropWhile is_ows sv)))"

definition to_lower :: "string \<Rightarrow> string" where
  "to_lower str = map tolower str"

definition set_error :: "string \<Rightarrow> HttpParser \<Rightarrow> HttpParser" where
  "set_error msg p = p\<lparr>p_error := msg, p_state := Completed\<rparr>"

section \<open>Lines\<close>

text \<open>Lines 102 to 104: one trailing LF, then one trailing CR, is removed.\<close>

definition strip_eol :: "string \<Rightarrow> string" where
  "strip_eol s =
     (let s1 = (if s \<noteq> [] \<and> last s = LF then butlast s else s)
      in if s1 \<noteq> [] \<and> last s1 = CR then butlast s1 else s1)"

definition consume_line :: "string \<Rightarrow> HttpParser \<Rightarrow> nat \<times> HttpParser" where
  "consume_line data p =
     (case find_char LF data of
        None \<Rightarrow>
          if length (line_buf p) + length data > MAX_HEADER_SIZE
          then (0, set_error ''header line too long'' p)
          else (length data, p\<lparr>line_buf := line_buf p @ data\<rparr>)
      | Some pos \<Rightarrow>
          (let consumed = pos + 1; chunk = take consumed data
           in if length (line_buf p) + length chunk > MAX_HEADER_SIZE
              then (0, set_error ''header line too long'' p)
              else (consumed, p\<lparr>line_buf := strip_eol (line_buf p @ chunk)\<rparr>)))"

section \<open>The parsers of the states\<close>

definition parse_request_line :: "string \<Rightarrow> HttpParser \<Rightarrow> Result \<times> HttpParser" where
  "parse_request_line line p =
     (if length line > MAX_REQUEST_LINE then (Error, set_error ''request line too long'' p)
      else case find_char SP line of
        None \<Rightarrow> (Error, set_error ''malformed request line: missing first SP'' p)
      | Some sp1 \<Rightarrow>
        (case find_char_from SP line (sp1 + 1) of
           None \<Rightarrow> (Error, set_error ''malformed request line: missing second SP'' p)
         | Some sp2 \<Rightarrow>
           (let r = (p_request p)
                  \<lparr>req_method := string_to_method (take sp1 line),
                   req_path := take (sp2 - sp1 - 1) (drop (sp1 + 1) line),
                   req_version := drop (sp2 + 1) line\<rparr>;
                p1 = p\<lparr>p_request := r\<rparr>
            in if req_method r = UNKNOWN then (Error, set_error ''unknown HTTP method'' p1)
               else if req_version r \<noteq> ''HTTP/1.1'' \<and> req_version r \<noteq> ''HTTP/1.0''
               then (Error, set_error (''unsupported HTTP version: '' @ req_version r) p1)
               else (Incomplete, p1\<lparr>p_state := Headers\<rparr>))))"

definition parse_header_line :: "string \<Rightarrow> HttpParser \<Rightarrow> Result \<times> HttpParser" where
  "parse_header_line line p =
     (if line = [] then
        (let p1 = p\<lparr>body_remaining := content_length (p_request p)\<rparr>
         in if body_remaining p1 > 0
            then (if body_remaining p1 > max_body_size p1
                  then (Error, set_error ''body too large'' p1)
                  else (Incomplete, p1\<lparr>p_state := Body\<rparr>))
            else (Complete, p1\<lparr>p_state := Completed\<rparr>))
      else if hm_size (req_headers (p_request p)) \<ge> MAX_HEADER_COUNT
      then (Error, set_error ''too many headers'' p)
      else case find_char CHR '':'' line of
        None \<Rightarrow> (Error, set_error ''malformed header: no colon'' p)
      | Some colon \<Rightarrow>
          (let name = to_lower (take colon line);
               value = trim (drop (colon + 1) line);
               r = p_request p
           in (Incomplete,
               p\<lparr>p_request := r\<lparr>req_headers := hm_set name value (req_headers r)\<rparr>\<rparr>)))"

text \<open>\<open>parse_body\<close> also returns the rest of the input: the parameter is a reference.\<close>

definition parse_body :: "string \<Rightarrow> HttpParser \<Rightarrow> Result \<times> string \<times> HttpParser" where
  "parse_body remaining p =
     (let tk = min (length remaining) (body_remaining p);
          r = p_request p;
          p1 = p\<lparr>p_request := r\<lparr>req_body := req_body r @ take tk remaining\<rparr>,
                body_remaining := body_remaining p - tk\<rparr>
      in if body_remaining p1 = 0 then (Complete, drop tk remaining, p1\<lparr>p_state := Completed\<rparr>)
         else (Incomplete, drop tk remaining, p1))"

section \<open>The loop\<close>

text \<open>Lines 49 to 56: the line in \<open>line_buf\<close> goes to the parser of the state.\<close>

definition parse_line :: "HttpParser \<Rightarrow> Result \<times> HttpParser" where
  "parse_line p =
     (if p_state p = RequestLine then parse_request_line (line_buf p) p
      else if p_state p = Headers then parse_header_line (line_buf p) p
      else (Incomplete, p))"

text \<open>Line 65.\<close>

definition feed_result :: "HttpParser \<Rightarrow> Result" where
  "feed_result p = (if p_state p = Completed then Complete else Incomplete)"

function feed :: "string \<Rightarrow> HttpParser \<Rightarrow> Result \<times> HttpParser" where
  "feed data p =
     (if data = [] then (feed_result p, p)
      else if p_state p = Body then
        (case parse_body data p of (res, _, p1) \<Rightarrow>
           if res \<noteq> Incomplete then (res, p1) else (feed_result p1, p1))
      else case consume_line data p of (consumed, p1) \<Rightarrow>
        if consumed = 0 then (feed_result p1, p1)
        else case parse_line p1 of (res, p2) \<Rightarrow>
          (let p3 = p2\<lparr>line_buf := []\<rparr>
           in if res = Error \<or> res = Complete then (res, p3)
              else feed (drop consumed data) p3))"
  by pat_completeness auto
termination
  by (relation "measure (\<lambda>(data, p). length data)") auto

declare feed.simps [simp del]

text \<open>
  A client of the parser that receives its input in pieces: it feeds them in order and
  stops at the first answer other than \<open>Incomplete\<close>.
\<close>

fun feed_chunks :: "string list \<Rightarrow> HttpParser \<Rightarrow> Result \<times> HttpParser" where
  "feed_chunks [] p = (feed_result p, p)"
| "feed_chunks (c # cs) p =
     (case feed c p of (r, p1) \<Rightarrow> if r = Incomplete then feed_chunks cs p1 else (r, p1))"

lemmas max_defs = MAX_REQUEST_LINE_def MAX_HEADER_SIZE_def MAX_HEADER_COUNT_def MAX_BODY_SIZE_def

end
