(* ===== verification/Http_Response.thy ===== *)
theory Http_Response
  imports Header_Map
begin

text \<open>
  \<open>include/http/response.hpp\<close> and \<open>src/http/response.cpp\<close>: the response structure, its
  builder operations and \<open>serialize\<close>. The order in which \<open>serialize\<close> visits the headers
  is the parameter \<open>ord\<close> (see \<open>Header_Map\<close>). A client's reading of a response head is
  the specification \<open>read_head\<close>; the properties relate it to \<open>serialize\<close>.
\<close>

section \<open>Status codes\<close>

datatype Status =
  Ok | Created | NoContent | MovedPermanently | NotModified | BadRequest | Forbidden | NotFound
| MethodNotAllowed | RequestTimeout | PayloadTooLarge | UriTooLong | InternalServerError
| NotImplemented | ServiceUnavailable

text \<open>The value of the enumerator, \<^verbatim>\<open>static_cast<int>(status)\<close>.\<close>

fun status_code :: "Status \<Rightarrow> nat" where
  "status_code Ok = 200"
| "status_code Created = 201"
| "status_code NoContent = 204"
| "status_code MovedPermanently = 301"
| "status_code NotModified = 304"
| "status_code BadRequest = 400"
| "status_code Forbidden = 403"
| "status_code NotFound = 404"
| "status_code MethodNotAllowed = 405"
| "status_code RequestTimeout = 408"
| "status_code PayloadTooLarge = 413"
| "status_code UriTooLong = 414"
| "status_code InternalServerError = 500"
| "status_code NotImplemented = 501"
| "status_code ServiceUnavailable = 503"

fun status_to_reason :: "Status \<Rightarrow> string" where
  "status_to_reason Ok = ''OK''"
| "status_to_reason Created = ''Created''"
| "status_to_reason NoContent = ''No Content''"
| "status_to_reason MovedPermanently = ''Moved Permanently''"
| "status_to_reason NotModified = ''Not Modified''"
| "status_to_reason BadRequest = ''Bad Request''"
| "status_to_reason Forbidden = ''Forbidden''"
| "status_to_reason NotFound = ''Not Found''"
| "status_to_reason MethodNotAllowed = ''Method Not Allowed''"
| "status_to_reason RequestTimeout = ''Request Timeout''"
| "status_to_reason PayloadTooLarge = ''Payload Too Large''"
| "status_to_reason UriTooLong = ''URI Too Long''"
| "status_to_reason InternalServerError = ''Internal Server Error''"
| "status_to_reason NotImplemented = ''Not Implemented''"
| "status_to_reason ServiceUnavailable = ''Service Unavailable''"

section \<open>The response and its builders\<close>

record HttpResponse =
  status :: Status
  resp_headers :: header_map
  resp_body :: string
  sendfile_fd :: int
  sendfile_size :: nat

definition new_response :: HttpResponse where
  "new_response =
     \<lparr>status = Ok, resp_headers = [], resp_body = [], sendfile_fd = -1, sendfile_size = 0\<rparr>"

definition set_status :: "Status \<Rightarrow> HttpResponse \<Rightarrow> HttpResponse" where
  "set_status code r = r\<lparr>status := code\<rparr>"

definition set_body :: "string \<Rightarrow> string \<Rightarrow> HttpResponse \<Rightarrow> HttpResponse" where
  "set_body body_str content_type r =
     r\<lparr>resp_body := body_str, resp_headers := hm_set ''content-type'' content_type (resp_headers r)\<rparr>"

definition set_header :: "string \<Rightarrow> string \<Rightarrow> HttpResponse \<Rightarrow> HttpResponse" where
  "set_header name value r =
     r\<lparr>resp_headers := hm_set (map tolower name) value (resp_headers r)\<rparr>"

definition has_sendfile :: "HttpResponse \<Rightarrow> bool" where
  "has_sendfile r \<longleftrightarrow> sendfile_fd r \<ge> 0"

definition set_sendfile :: "int \<Rightarrow> nat \<Rightarrow> string \<Rightarrow> HttpResponse \<Rightarrow> HttpResponse" where
  "set_sendfile file_fd file_size content_type r =
     r\<lparr>sendfile_fd := file_fd, sendfile_size := file_size,
       resp_headers := hm_set ''content-length'' (to_string file_size)
                         (hm_set ''content-type'' content_type (resp_headers r))\<rparr>"

definition take_sendfile_fd :: "HttpResponse \<Rightarrow> int \<times> HttpResponse" where
  "take_sendfile_fd r = (sendfile_fd r, r\<lparr>sendfile_fd := -1\<rparr>)"

definition make_error :: "Status \<Rightarrow> string \<Rightarrow> HttpResponse" where
  "make_error code detail =
     (let body_str = to_string (status_code code) @ [SP] @ status_to_reason code;
          body_str = (if detail \<noteq> [] then body_str @ [LF] @ detail else body_str)
      in set_body body_str ''text/plain'' (new_response\<lparr>status := code\<rparr>))"

definition make_redirect :: "string \<Rightarrow> HttpResponse" where
  "make_redirect location =
     new_response\<lparr>status := MovedPermanently, resp_headers := hm_set ''location'' location []\<rparr>"

section \<open>Serialization\<close>

definition header_line :: "string \<times> string \<Rightarrow> string" where
  "header_line nv = fst nv @ '': '' @ snd nv"

definition serialize :: "(header_map \<Rightarrow> (string \<times> string) list) \<Rightarrow> HttpResponse \<Rightarrow> string" where
  "serialize ord r =
     (let has_content_length = (hm_get (resp_headers r) ''content-length'' \<noteq> None)
      in ''HTTP/1.1 '' @ to_string (status_code (status r)) @ [SP] @ status_to_reason (status r) @ CRLF @
         concat (map (\<lambda>nv. header_line nv @ CRLF) (ord (resp_headers r))) @
         (if resp_body r \<noteq> [] \<and> \<not> has_content_length \<and> \<not> has_sendfile r
          then ''content-length: '' @ to_string (length (resp_body r)) @ CRLF else []) @
         CRLF @
         (if \<not> has_sendfile r then resp_body r else []))"




declare new_response_def [http_defs] set_status_def [http_defs] set_body_def [http_defs]
  set_header_def [http_defs] has_sendfile_def [http_defs] set_sendfile_def [http_defs]
  take_sendfile_fd_def [http_defs] make_error_def [http_defs] make_redirect_def [http_defs]

end
