(* ===== verification/Router.thy ===== *)
theory Router
  imports Http_Request Http_Response
begin

text \<open>
  \<open>include/http/router.hpp\<close> and \<open>src/http/router.cpp\<close>: routes and dispatch. A handler
  reads the request, fills the response and may act on the operating system, whose state is
  the type variable \<open>'w\<close>; it returns the response or leaves by an exception.
\<close>

section \<open>Routes\<close>

type_synonym 'w handler = "HttpRequest \<Rightarrow> HttpResponse \<Rightarrow> 'w \<Rightarrow> HttpResponse res \<times> 'w"

record 'w Route =
  route_method :: Method
  route_path :: string
  route_handler :: "'w handler"
  is_prefix :: bool

type_synonym 'w Router = "'w Route list"

definition add_route :: "Method \<Rightarrow> string \<Rightarrow> 'w handler \<Rightarrow> 'w Router \<Rightarrow> 'w Router" where
  "add_route m p h rs =
     rs @ [\<lparr>route_method = m, route_path = p, route_handler = h, is_prefix = False\<rparr>]"

definition add_prefix_route :: "Method \<Rightarrow> string \<Rightarrow> 'w handler \<Rightarrow> 'w Router \<Rightarrow> 'w Router" where
  "add_prefix_route m p h rs =
     rs @ [\<lparr>route_method = m, route_path = p, route_handler = h, is_prefix = True\<rparr>]"

section \<open>Dispatch\<close>

definition exact_match :: "HttpRequest \<Rightarrow> 'w Route \<Rightarrow> bool" where
  "exact_match req route \<longleftrightarrow>
     \<not> is_prefix route \<and> route_method route = req_method req \<and> route_path route = req_path req"

definition prefix_match :: "HttpRequest \<Rightarrow> 'w Route \<Rightarrow> bool" where
  "prefix_match req route \<longleftrightarrow>
     is_prefix route \<and> route_method route = req_method req \<and>
     starts_with (req_path req) (route_path route)"

text \<open>Pass 1: the first exact route of the vector.\<close>

fun find_exact :: "HttpRequest \<Rightarrow> 'w Router \<Rightarrow> 'w Route option" where
  "find_exact req [] = None"
| "find_exact req (route # rs) =
     (if exact_match req route then Some route else find_exact req rs)"

text \<open>Pass 2: the loop over the vector with the pointer \<open>best\<close>.\<close>

fun find_best :: "HttpRequest \<Rightarrow> 'w Router \<Rightarrow> 'w Route option \<Rightarrow> 'w Route option" where
  "find_best req [] best = best"
| "find_best req (route # rs) best =
     find_best req rs
       (if prefix_match req route then
          (case best of
             None \<Rightarrow> Some route
           | Some b \<Rightarrow> if length (route_path route) > length (route_path b) then Some route else best)
        else best)"

definition dispatch ::
  "'w Router \<Rightarrow> HttpRequest \<Rightarrow> HttpResponse \<Rightarrow> 'w \<Rightarrow> (bool \<times> HttpResponse) res \<times> 'w" where
  "dispatch routes req resp w =
     (case find_exact req routes of
        Some route \<Rightarrow>
          (case route_handler route req resp w of
             (r, w1) \<Rightarrow> (res_bind r (\<lambda>resp1. Ret (True, resp1)), w1))
      | None \<Rightarrow>
          (case find_best req routes None of
             Some best \<Rightarrow>
               (case route_handler best req resp w of
                  (r, w1) \<Rightarrow> (res_bind r (\<lambda>resp1. Ret (True, resp1)), w1))
           | None \<Rightarrow> (Ret (False, resp), w)))"

declare add_route_def [http_defs] add_prefix_route_def [http_defs]

section \<open>What the two passes select\<close>

lemma find_exact_None: "find_exact req rs = None \<longleftrightarrow> (\<forall>r \<in> set rs. \<not> exact_match req r)"
  by (induction rs) auto

lemma find_exact_first:
  assumes "i < length rs" and "exact_match req (rs ! i)" and "\<forall>j < i. \<not> exact_match req (rs ! j)"
  shows "find_exact req rs = Some (rs ! i)"
  using assms
proof (induction rs arbitrary: i)
  case (Cons r rs)
  then show ?case
    by (cases i) (auto simp: All_less_Suc2)
qed simp

text \<open>The candidate of pass 2 stays until a strictly longer prefix is met.\<close>

lemma find_best_keep:
  "\<forall>r \<in> set rs. prefix_match req r \<longrightarrow> length (route_path r) \<le> length (route_path b) \<Longrightarrow>
   find_best req rs (Some b) = Some b"
  by (induction rs) auto

lemma find_best_None: "find_best req rs None = None \<longleftrightarrow> (\<forall>r \<in> set rs. \<not> prefix_match req r)"
proof -
  have some: "find_best req rs (Some b) \<noteq> None" for b and rs :: "'a Route list"
    by (induction rs arbitrary: b) auto
  show ?thesis by (induction rs) (auto simp: some)
qed

text \<open>A route beats a candidate with a shorter prefix, and is then kept.\<close>

lemma find_best_reach:
  assumes "i < length rs" and "prefix_match req (rs ! i)"
    and "\<forall>j < i. prefix_match req (rs ! j) \<longrightarrow> length (route_path (rs ! j)) < length (route_path (rs ! i))"
    and "\<forall>j. i < j \<and> j < length rs \<longrightarrow> prefix_match req (rs ! j) \<longrightarrow>
           length (route_path (rs ! j)) \<le> length (route_path (rs ! i))"
    and "case best of None \<Rightarrow> True | Some b \<Rightarrow> length (route_path b) < length (route_path (rs ! i))"
  shows "find_best req rs best = Some (rs ! i)"
  using assms
proof (induction rs arbitrary: i best)
  case (Cons r rs)
  show ?case
  proof (cases i)
    case 0
    have "\<forall>q \<in> set rs. prefix_match req q \<longrightarrow> length (route_path q) \<le> length (route_path r)"
    proof (intro ballI impI)
      fix q assume "q \<in> set rs" "prefix_match req q"
      then obtain k where k: "k < length rs" "rs ! k = q" by (auto simp: in_set_conv_nth)
      with Cons.prems(4) 0 \<open>prefix_match req q\<close>
      show "length (route_path q) \<le> length (route_path r)" by (auto dest: spec [of _ "Suc k"])
    qed
    with Cons.prems 0 show ?thesis by (auto simp: find_best_keep split: option.splits)
  next
    case (Suc k)
    let ?best = "if prefix_match req r then
          (case best of
             None \<Rightarrow> Some r
           | Some b \<Rightarrow> if length (route_path r) > length (route_path b) then Some r else best)
        else best"
    have "find_best req rs ?best = Some (rs ! k)"
    proof (rule Cons.IH)
      show "\<forall>j<k. prefix_match req (rs ! j) \<longrightarrow> length (route_path (rs ! j)) < length (route_path (rs ! k))"
        using Cons.prems(3) Suc by (auto dest: spec [of _ "Suc _"])
      show "\<forall>j. k < j \<and> j < length rs \<longrightarrow> prefix_match req (rs ! j) \<longrightarrow>
           length (route_path (rs ! j)) \<le> length (route_path (rs ! k))"
        using Cons.prems(4) Suc by (auto dest: spec [of _ "Suc _"])
      show "case ?best of None \<Rightarrow> True | Some b \<Rightarrow> length (route_path b) < length (route_path (rs ! k))"
        using Cons.prems(3,5) Suc by (auto dest: spec [of _ 0] split: option.splits)
    qed (use Cons.prems(1,2) Suc in auto)
    then show ?thesis using Suc by simp
  qed
qed simp

section \<open>Properties\<close>

text \<open>
  Exact routes come first: the earliest registered exact route for the method and path
  handles the request, whatever prefix routes there are; \<open>dispatch\<close> then answers true.
\<close>

lemma dispatch_exact_first:
  assumes "i < length rs" and "exact_match req (rs ! i)" and "\<forall>j < i. \<not> exact_match req (rs ! j)"
    and "route_handler (rs ! i) req resp w = (Ret resp1, w1)"
  shows "dispatch rs req resp w = (Ret (True, resp1), w1)"
  using find_exact_first [OF assms(1-3)] assms(4) by (simp add: dispatch_def)

lemma dispatch_exact_first_witness:
  "dispatch
     (add_route GET ''/a'' (\<lambda>req resp w. (Ret (set_status Created resp), w))
       (add_prefix_route GET ''/'' (\<lambda>req resp w. (Ret resp, w)) []))
     (empty_request\<lparr>req_method := GET, req_path := ''/a''\<rparr>) new_response ()
   = (Ret (True, set_status Created new_response), ())"
  by (rule dispatch_exact_first [of 1]) (simp_all add: http_defs exact_match_def)

text \<open>
  C35 Otherwise the longest matching prefix wins, the earliest registered one among prefixes of
  the same length: the route that beats all earlier matches strictly and all later ones at
  least equally handles the request.
\<close>

theorem dispatch_longest_prefix:
  assumes "\<forall>r \<in> set rs. \<not> exact_match req r"
    and "i < length rs" and "prefix_match req (rs ! i)"
    and "\<forall>j < i. prefix_match req (rs ! j) \<longrightarrow> length (route_path (rs ! j)) < length (route_path (rs ! i))"
    and "\<forall>j. i < j \<and> j < length rs \<longrightarrow> prefix_match req (rs ! j) \<longrightarrow>
           length (route_path (rs ! j)) \<le> length (route_path (rs ! i))"
    and "route_handler (rs ! i) req resp w = (Ret resp1, w1)"
  shows "dispatch rs req resp w = (Ret (True, resp1), w1)"
proof -
  have "find_best req rs None = Some (rs ! i)" using assms(2-5) by (intro find_best_reach) simp_all
  moreover have "find_exact req rs = None" using assms(1) by (simp add: find_exact_None)
  ultimately show ?thesis using assms(6) by (simp add: dispatch_def)
qed

theorem dispatch_longest_prefix_witness:
  "dispatch
     (add_prefix_route GET ''/s/'' (\<lambda>req resp w. (Ret (set_status Created resp), w))
       (add_prefix_route GET ''/'' (\<lambda>req resp w. (Ret resp, w)) []))
     (empty_request\<lparr>req_method := GET, req_path := ''/s/x''\<rparr>) new_response ()
   = (Ret (True, set_status Created new_response), ())"
  by (rule dispatch_longest_prefix [of _ _ 1])
     (simp_all add: http_defs exact_match_def prefix_match_def)

text \<open>
  \<open>dispatch\<close> answers false exactly when no route matches the request exactly or by prefix,
  and then it has changed neither the response nor the system.
\<close>

lemma dispatch_no_match_iff:
  "(\<exists>resp1 w1. dispatch rs req resp w = (Ret (False, resp1), w1)) \<longleftrightarrow>
     (\<not> (\<exists>r \<in> set rs. exact_match req r \<or> prefix_match req r) \<and>
      dispatch rs req resp w = (Ret (False, resp), w))"
  using find_exact_None [of req rs] find_best_None [of req rs]
  by (auto simp: dispatch_def split: option.splits prod.splits)

end
