(* ===== verification/Mime.thy ===== *)
theory Mime
  imports Server_Prelude
begin

text \<open>
  \<open>include/http/mime.hpp\<close> and \<open>src/http/mime.cpp\<close>: the table of MIME types and its
  binary search. \<open>lower_bound\<close> is the halving search of the C++ standard library over an
  arbitrary comparison; the locale \<open>strict_order\<close> is what the search needs of the
  comparison, and \<open>sv\<close> interprets it on the comparison of \<open>std::string_view\<close>.
\<close>

section \<open>Comparison of strings\<close>

text \<open>\<^verbatim>\<open>operator<\<close> of \<^verbatim>\<open>std::string_view\<close>: lexicographic, characters as unsigned
  bytes, a proper prefix is smaller.\<close>

fun sv_less :: "string \<Rightarrow> string \<Rightarrow> bool" where
  "sv_less xs [] = False"
| "sv_less [] (y # ys) = True"
| "sv_less (x # xs) (y # ys) =
     ((of_char x :: nat) < of_char y \<or> x = y \<and> sv_less xs ys)"

section \<open>Binary search\<close>

text \<open>\<^verbatim>\<open>std::lower_bound\<close> on the \<open>len\<close> elements from \<open>first\<close> on.\<close>

function lower_bound :: "('k \<Rightarrow> 'k \<Rightarrow> bool) \<Rightarrow> 'k list \<Rightarrow> 'k \<Rightarrow> nat \<Rightarrow> nat \<Rightarrow> nat" where
  "lower_bound lt ks key first len =
     (if len = 0 then first
      else let half = len div 2; middle = first + half
           in if lt (ks ! middle) key
              then lower_bound lt ks key (middle + 1) (len - half - 1)
              else lower_bound lt ks key first half)"
  by pat_completeness auto
termination
  by (relation "measure (\<lambda>(lt, ks, key, first, len). len)") auto

declare lower_bound.simps [simp del]

text \<open>
  The reference: a linear scan. On a range that is partitioned by the key (first the elements
  that compare less than it, then the others) the search returns the partition point.
\<close>

lemma lower_bound_partition:
  assumes "ks = P @ Q" and "\<forall>x \<in> set P. lt x key" and "\<forall>x \<in> set Q. \<not> lt x key"
    and "first \<le> length P" and "length P \<le> first + len" and "first + len \<le> length ks"
  shows "lower_bound lt ks key first len = length P"
  using assms(4-6)
proof (induction len arbitrary: first rule: less_induct)
  case (less len)
  show ?case
  proof (cases "len = 0")
    case True
    with less.prems show ?thesis by (subst lower_bound.simps) simp
  next
    case False
    define half where "half = len div 2"
    have h: "half < len" "first + half < length ks"
      using False less.prems(3) by (auto simp: half_def)
    have mid: "lt (ks ! (first + half)) key \<longleftrightarrow> first + half < length P"
      using assms(1-3) h(2) by (auto simp: nth_append)
    show ?thesis
    proof (cases "first + half < length P")
      case True
      then have "lower_bound lt ks key (first + half + 1) (len - half - 1) = length P"
        using less.prems h by (intro less.IH) auto
      then show ?thesis
        using False True mid by (subst lower_bound.simps) (simp add: half_def Let_def)
    next
      case ge: False
      then have "lower_bound lt ks key first half = length P"
        using less.prems h by (intro less.IH) auto
      then show ?thesis
        using False ge mid by (subst lower_bound.simps) (simp add: half_def Let_def)
    qed
  qed
qed

text \<open>What makes a sorted range partitioned by every key.\<close>

locale strict_order =
  fixes lt :: "'k \<Rightarrow> 'k \<Rightarrow> bool"
  assumes irrefl [simp]: "\<not> lt x x"
    and trans: "lt x y \<Longrightarrow> lt y z \<Longrightarrow> lt x z"
    and total: "x \<noteq> y \<Longrightarrow> lt x y \<or> lt y x"
begin

lemma asym: "lt x y \<Longrightarrow> \<not> lt y x"
  using trans irrefl by blast

lemma sorted_distinct: "sorted_wrt lt ks \<Longrightarrow> distinct ks"
  by (induction ks) auto

lemma sorted_split:
  assumes "sorted_wrt lt ks"
  shows "\<exists>P Q. ks = P @ Q \<and> (\<forall>x \<in> set P. lt x key) \<and> (\<forall>x \<in> set Q. \<not> lt x key)"
  using assms
proof (induction ks)
  case (Cons k ks)
  show ?case
  proof (cases "lt k key")
    case True
    from Cons obtain P Q where "ks = P @ Q" "\<forall>x \<in> set P. lt x key" "\<forall>x \<in> set Q. \<not> lt x key"
      by auto
    with True have "k # ks = (k # P) @ Q \<and> (\<forall>x \<in> set (k # P). lt x key) \<and> (\<forall>x \<in> set Q. \<not> lt x key)"
      by simp
    then show ?thesis by blast
  next
    case False
    have "\<not> lt x key" if "x \<in> set (k # ks)" for x
      using that False Cons.prems trans [of k x key] by auto
    then show ?thesis by (intro exI [of _ "[]"] exI [of _ "k # ks"]) auto
  qed
qed simp

text \<open>In a sorted range the search finds a key exactly when it is there.\<close>

lemma lower_bound_finds:
  assumes "sorted_wrt lt ks"
  shows "lower_bound lt ks key 0 (length ks) < length ks \<and>
      ks ! lower_bound lt ks key 0 (length ks) = key \<longleftrightarrow> key \<in> set ks"
proof -
  obtain P Q where s: "ks = P @ Q" "\<forall>x \<in> set P. lt x key" "\<forall>x \<in> set Q. \<not> lt x key"
    using sorted_split [OF assms] by blast
  have lb: "lower_bound lt ks key 0 (length ks) = length P"
    using s by (intro lower_bound_partition) simp_all
  show ?thesis
  proof (cases Q)
    case Nil
    with s lb show ?thesis by auto
  next
    case (Cons q Q')
    have "key \<notin> set P" using s(2) by auto
    moreover have "key \<notin> set Q'" if "key \<noteq> q"
    proof
      assume "key \<in> set Q'"
      then have "lt q key" using assms s(1) Cons by (auto simp: sorted_wrt_append)
      with s(3) Cons show False by simp
    qed
    ultimately show ?thesis using s(1) lb Cons by auto
  qed
qed

end

lemma sv_less_irrefl: "\<not> sv_less x x"
  by (induction x) auto

lemma sv_less_trans: "sv_less x y \<Longrightarrow> sv_less y z \<Longrightarrow> sv_less x z"
proof (induction x y arbitrary: z rule: sv_less.induct)
  case (2 y ys)
  then show ?case by (cases z) auto
next
  case (3 x xs y ys)
  then show ?case by (cases z) auto
qed simp

lemma sv_less_total: "x \<noteq> y \<Longrightarrow> sv_less x y \<or> sv_less y x"
proof (induction x y rule: sv_less.induct)
  case (1 xs)
  then show ?case by (cases xs) auto
next
  case (3 x xs y ys)
  have "(of_char x :: nat) < of_char y \<or> (of_char y :: nat) < of_char x" if "x \<noteq> y"
    using that by (metis linorder_neqE_nat of_char_eq_iff)
  with 3 show ?case by auto
qed auto

interpretation sv: strict_order sv_less
  by unfold_locales (auto simp: sv_less_irrefl intro: sv_less_trans dest: sv_less_total)

section \<open>The table and the lookup\<close>

type_synonym mime_entry = "string \<times> string"

definition MIME_TABLE :: "mime_entry list" where
  "MIME_TABLE =
  [(''.aac'', ''audio/aac''),
   (''.avif'', ''image/avif''),
   (''.bmp'', ''image/bmp''),
   (''.css'', ''text/css; charset=utf-8''),
   (''.csv'', ''text/csv''),
   (''.eot'', ''application/vnd.ms-fontobject''),
   (''.flac'', ''audio/flac''),
   (''.gif'', ''image/gif''),
   (''.gz'', ''application/gzip''),
   (''.htm'', ''text/html; charset=utf-8''),
   (''.html'', ''text/html; charset=utf-8''),
   (''.ico'', ''image/x-icon''),
   (''.ics'', ''text/calendar''),
   (''.jpg'', ''image/jpeg''),
   (''.jpeg'', ''image/jpeg''),
   (''.js'', ''text/javascript; charset=utf-8''),
   (''.json'', ''application/json''),
   (''.m3u8'', ''application/x-mpegURL''),
   (''.map'', ''application/json''),
   (''.mp3'', ''audio/mpeg''),
   (''.mp4'', ''video/mp4''),
   (''.ogg'', ''audio/ogg''),
   (''.ogv'', ''video/ogg''),
   (''.otf'', ''font/otf''),
   (''.pdf'', ''application/pdf''),
   (''.png'', ''image/png''),
   (''.rss'', ''application/rss+xml''),
   (''.svg'', ''image/svg+xml''),
   (''.tar'', ''application/x-tar''),
   (''.tiff'', ''image/tiff''),
   (''.ts'', ''video/mp2t''),
   (''.ttf'', ''font/ttf''),
   (''.txt'', ''text/plain; charset=utf-8''),
   (''.wasm'', ''application/wasm''),
   (''.webm'', ''video/webm''),
   (''.webp'', ''image/webp''),
   (''.woff'', ''font/woff''),
   (''.woff2'', ''font/woff2''),
   (''.xhtml'', ''application/xhtml+xml''),
   (''.xml'', ''text/xml''),
   (''.zip'', ''application/zip''),
   (''.zst'', ''application/zstd'')]"

definition octet_stream :: string where
  "octet_stream = ''application/octet-stream''"

text \<open>Lines 68 to 77, over a table: \<^verbatim>\<open>lower_bound\<close> and the test of the entry it finds.\<close>

definition table_lookup :: "mime_entry list \<Rightarrow> string \<Rightarrow> string" where
  "table_lookup tbl extension =
     (let found = lower_bound sv_less (map fst tbl) extension 0 (length tbl)
      in if found < length tbl \<and> fst (tbl ! found) = extension then snd (tbl ! found)
         else octet_stream)"

definition mime_type :: "string \<Rightarrow> string" where
  "mime_type extension = table_lookup MIME_TABLE extension"

lemma table_lookup_sorted:
  assumes "sorted_wrt sv_less (map fst tbl)"
  shows "table_lookup tbl e = (case map_of tbl e of Some t \<Rightarrow> t | None \<Rightarrow> octet_stream)"
proof -
  let ?i = "lower_bound sv_less (map fst tbl) e 0 (length tbl)"
  have d: "distinct (map fst tbl)" by (rule sv.sorted_distinct [OF assms])
  have f: "?i < length tbl \<and> map fst tbl ! ?i = e \<longleftrightarrow> e \<in> set (map fst tbl)"
    using sv.lower_bound_finds [OF assms, of e] by simp
  show ?thesis
  proof (cases "e \<in> set (map fst tbl)")
    case True
    with f have i: "?i < length tbl" "fst (tbl ! ?i) = e" by auto
    then have "(e, snd (tbl ! ?i)) \<in> set tbl" by (metis nth_mem prod.collapse)
    with d have "map_of tbl e = Some (snd (tbl ! ?i))" by simp
    with i show ?thesis by (simp add: table_lookup_def Let_def)
  next
    case False
    then have "map_of tbl e = None" by (simp add: map_of_eq_None_iff)
    moreover have "\<not> (?i < length tbl \<and> fst (tbl ! ?i) = e)" using False f by auto
    ultimately show ?thesis by (auto simp: table_lookup_def Let_def)
  qed
qed

lemma table_lookup_absent:
  assumes "e \<notin> set (map fst tbl)"
  shows "table_lookup tbl e = octet_stream"
proof -
  have "fst (tbl ! i) \<noteq> e" if "i < length tbl" for i
    using that assms by (metis length_map nth_map nth_mem)
  then show ?thesis by (auto simp: table_lookup_def Let_def)
qed

text \<open>An entry with smaller keys before it and no smaller key after it is found.\<close>

lemma table_lookup_at:
  assumes "tbl = L @ (e, t) # R"
    and "\<forall>x \<in> set (map fst L). sv_less x e" and "\<forall>x \<in> set (map fst R). \<not> sv_less x e"
  shows "table_lookup tbl e = t"
proof -
  have "lower_bound sv_less (map fst tbl) e 0 (length tbl) = length (map fst L)"
    using assms by (intro lower_bound_partition [where Q = "e # map fst R"]) simp_all
  then show ?thesis using assms(1) by (simp add: table_lookup_def)
qed

text \<open>The table with the two entries out of order, and its sorted rearrangement.\<close>

definition jpg :: mime_entry where "jpg = (''.jpg'', ''image/jpeg'')"
definition jpeg :: mime_entry where "jpeg = (''.jpeg'', ''image/jpeg'')"
definition before_jpg :: "mime_entry list" where "before_jpg = take 13 MIME_TABLE"
definition after_jpeg :: "mime_entry list" where "after_jpeg = drop 15 MIME_TABLE"

lemma mime_table_split: "MIME_TABLE = before_jpg @ jpg # jpeg # after_jpeg"
  unfolding before_jpg_def after_jpeg_def jpg_def jpeg_def MIME_TABLE_def by simp

lemma mime_table_exchanged:
  "sorted_wrt sv_less (map fst (before_jpg @ jpeg # jpg # after_jpeg))"
proof -
  have "transp sv_less" by (rule transpI) (rule sv.trans)
  moreover have "successively sv_less (map fst (before_jpg @ jpeg # jpg # after_jpeg))"
    by code_simp
  ultimately show ?thesis by (simp add: successively_conv_sorted_wrt)
qed

lemma mime_jpg: "mime_type ''.jpg'' = ''image/jpeg''"
  by code_simp

lemma mime_type_entry:
  assumes "(e, t) \<in> set (before_jpg @ after_jpeg)"
  shows "mime_type e = t"
proof -
  from assms consider (L) A B where "before_jpg = A @ (e, t) # B" 
    | (R) A B where "after_jpeg = A @ (e, t) # B"
    by (auto dest: split_list)
  then show ?thesis
  proof cases
    case L
    have "table_lookup MIME_TABLE e = t"
    proof (rule table_lookup_at)
      show "MIME_TABLE = A @ (e, t) # (B @ jpg # jpeg # after_jpeg)"
        by (simp add: mime_table_split L)
    qed (use mime_table_exchanged [unfolded L] in \<open>auto simp: sorted_wrt_append dest: sv.asym\<close>)
    then show ?thesis by (simp add: mime_type_def)
  next
    case R
    have "table_lookup MIME_TABLE e = t"
    proof (rule table_lookup_at)
      show "MIME_TABLE = (before_jpg @ jpg # jpeg # A) @ (e, t) # B"
        by (simp add: mime_table_split R)
    qed (use mime_table_exchanged [unfolded R] in \<open>auto simp: sorted_wrt_append dest: sv.asym\<close>)
    then show ?thesis by (simp add: mime_type_def)
  qed
qed

lemma mime_jpeg: "mime_type ''.jpeg'' = octet_stream"
proof -
  note s = mime_table_exchanged [unfolded map_append list.map sorted_wrt_append sorted_wrt.simps]
  have "lower_bound sv_less (map fst MIME_TABLE) (fst jpeg) 0 (length MIME_TABLE) =
      length (map fst before_jpg)"
    using s by (intro lower_bound_partition [where Q = "map fst (jpg # jpeg # after_jpeg)"])
      (auto simp: mime_table_split dest: sv.asym)
  then show ?thesis
    by (simp add: mime_type_def table_lookup_def mime_table_split jpg_def jpeg_def)
qed

section \<open>Properties\<close>

text \<open>
  C38 What \<open>mime_type\<close> returns, for every extension: the type of the table entry, or
  \<open>application/octet-stream\<close> when the table has none; with one exception. The entry for
  \<open>.jpeg\<close> stands after \<open>.jpg\<close>, so the table is not sorted, the binary search misses it and
  JPEG files with that extension are served as \<open>application/octet-stream\<close>.
\<close>

theorem mime_type_result:
  "mime_type e =
     (if e = ''.jpeg'' then octet_stream
      else case map_of MIME_TABLE e of Some t \<Rightarrow> t | None \<Rightarrow> octet_stream)"
proof (cases "map_of MIME_TABLE e")
  case None
  then have "e \<notin> set (map fst MIME_TABLE)" by (simp add: map_of_eq_None_iff)
  then have "mime_type e = octet_stream"
    unfolding mime_type_def by (rule table_lookup_absent)
  with None show ?thesis by simp
next
  case (Some t)
  then have "(e, t) \<in> set (before_jpg @ after_jpeg) \<or> (e, t) = jpg \<or> (e, t) = jpeg"
    using map_of_SomeD [OF Some] by (auto simp: mime_table_split)
  then consider "(e, t) \<in> set (before_jpg @ after_jpeg)" "e \<noteq> ''.jpeg''" | "(e, t) = jpg" | "e = ''.jpeg''"
    by (auto simp: jpeg_def)
  then show ?thesis
  proof cases
    case 1
    with Some mime_type_entry show ?thesis by simp
  next
    case 2
    with Some mime_jpg show ?thesis by (simp add: jpg_def)
  next
    case 3
    then show ?thesis by (simp add: mime_jpeg)
  qed
qed

text \<open>
  The search itself is right: on every strictly sorted table it is exactly the lookup of the
  extension, with \<open>application/octet-stream\<close> for an unknown one. The table of the program is
  not sorted; with its 14th and 15th entry exchanged it is.
\<close>

lemma binary_search_correct:
  assumes "sorted_wrt sv_less (map fst tbl)"
  shows "table_lookup tbl e = (case map_of tbl e of Some t \<Rightarrow> t | None \<Rightarrow> octet_stream) \<and>
    \<not> sorted_wrt sv_less (map fst MIME_TABLE)"
proof
  show "table_lookup tbl e = (case map_of tbl e of Some t \<Rightarrow> t | None \<Rightarrow> octet_stream)"
    by (rule table_lookup_sorted [OF assms])
  have "\<not> sv_less (fst jpg) (fst jpeg)" by (simp add: jpg_def jpeg_def)
  then show "\<not> sorted_wrt sv_less (map fst MIME_TABLE)"
    by (simp add: mime_table_split sorted_wrt_append)
qed

lemma binary_search_correct_witness:
  "table_lookup (before_jpg @ jpeg # jpg # after_jpeg) ''.jpeg'' = ''image/jpeg''"
proof -
  have "map_of (before_jpg @ jpeg # jpg # after_jpeg) ''.jpeg'' = Some ''image/jpeg''" by code_simp
  then show ?thesis using binary_search_correct [OF mime_table_exchanged, of "''.jpeg''"] by simp
qed

end
