(* ===== verification/Static_Handler.thy ===== *)
theory Static_Handler
  imports Router Mime
begin

text \<open>
  \<open>include/http/static_handler.hpp\<close> and \<open>src/http/static_handler.cpp\<close>: the handler that
  serves files below a root directory. \<open>std::filesystem::path\<close> is modelled (POSIX format:
  parsing, \<open>operator/\<close>, \<open>lexically_normal\<close>, iteration, \<open>extension\<close>). What asks the
  operating system is a parameter, the record \<open>file_system\<close> of calls on a system state
  \<open>'w\<close>: nothing is assumed of it but what a property names.
\<close>

section \<open>Paths\<close>

text \<open>
  A path is absolute or relative and has a list of file names; a trailing separator is an
  empty last name, as in the iteration of the standard library. The empty path is the
  relative path with no name.
\<close>

datatype path = Path (absolute: bool) (names: "string list")

definition empty_path :: path where
  "empty_path = Path False []"

fun split_slash :: "string \<Rightarrow> string list" where
  "split_slash [] = [[]]"
| "split_slash (c # s) =
     (if c = CHR ''/'' then [] # split_slash s
      else case split_slash s of (x # xs) \<Rightarrow> (c # x) # xs | [] \<Rightarrow> [[c]])"

definition path_of :: "string \<Rightarrow> path" where
  "path_of s =
     (let ns = filter (\<lambda>x. x \<noteq> []) (split_slash s);
          trailing = (ns \<noteq> [] \<and> last s = CHR ''/'')
      in Path (starts_with s ''/'') (if trailing then ns @ [[]] else ns))"

text \<open>The elements a path iterates over: the root directory, then the names.\<close>

definition elements :: "path \<Rightarrow> string list" where
  "elements p = (if absolute p then [''/''] else []) @ names p"

definition has_filename :: "path \<Rightarrow> bool" where
  "has_filename p \<longleftrightarrow> names p \<noteq> [] \<and> last (names p) \<noteq> []"

definition drop_trailing :: "string list \<Rightarrow> string list" where
  "drop_trailing ns = (if ns \<noteq> [] \<and> last ns = [] then butlast ns else ns)"

text \<open>\<^verbatim>\<open>operator/\<close>: an absolute right operand replaces the left one.\<close>

definition path_append :: "path \<Rightarrow> path \<Rightarrow> path" where
  "path_append p q =
     (if absolute q then q
      else if names q = [] then (if has_filename p then Path (absolute p) (names p @ [[]]) else p)
      else Path (absolute p) (drop_trailing (names p) @ names q))"

text \<open>\<^verbatim>\<open>lexically_normal\<close>: dots and doubled separators disappear, \<open>..\<close> cancels the
  name before it (and vanishes at the root), a dangling last dot leaves a separator.\<close>

fun normal_step :: "bool \<Rightarrow> string \<Rightarrow> string list \<Rightarrow> string list" where
  "normal_step rooted n st =
     (if n = [] \<or> n = ''.'' then st
      else if n = ''..'' then
        (case st of
           [] \<Rightarrow> if rooted then [] else [''..'']
         | t # ts \<Rightarrow> if t = ''..'' then ''..'' # st else ts)
      else n # st)"

definition lexically_normal :: "path \<Rightarrow> path" where
  "lexically_normal p =
     (if p = empty_path then p
      else let st = rev (fold (normal_step (absolute p)) (names p) []);
               dangling = (names p \<noteq> [] \<and> last (names p) \<in> {[], ''.'', ''..''})
           in if \<not> absolute p \<and> st = [] then Path False [''.'']
              else Path (absolute p) (if dangling \<and> st \<noteq> [] \<and> last st \<noteq> ''..'' then st @ [[]] else st))"

text \<open>\<^verbatim>\<open>extension\<close>: from the last dot of the file name on, unless it starts the name.\<close>

definition last_dot :: "string \<Rightarrow> nat option" where
  "last_dot s = map_option (\<lambda>i. length s - 1 - i) (find_char CHR ''.'' (rev s))"

definition extension :: "path \<Rightarrow> string" where
  "extension p =
     (let f = (if names p = [] then [] else last (names p))
      in if f = ''.'' \<or> f = ''..'' then []
         else case last_dot f of None \<Rightarrow> [] | Some 0 \<Rightarrow> [] | Some i \<Rightarrow> drop i f)"

section \<open>The operating system\<close>

record 'w file_system =
  canonical :: "path \<Rightarrow> 'w \<Rightarrow> path res"
  weakly_canonical :: "path \<Rightarrow> 'w \<Rightarrow> path option"
  fs_exists :: "path \<Rightarrow> 'w \<Rightarrow> bool res"
  is_directory :: "path \<Rightarrow> 'w \<Rightarrow> bool res"
  is_regular_file :: "path \<Rightarrow> 'w \<Rightarrow> bool res"
  fs_open :: "path \<Rightarrow> 'w \<Rightarrow> int \<times> 'w"
  fs_fstat :: "int \<Rightarrow> 'w \<Rightarrow> int option"
  fs_close :: "int \<Rightarrow> 'w \<Rightarrow> 'w"

section \<open>The handler\<close>

record StaticFileHandler =
  root_dir :: path
  strip_prefix :: string

definition make_handler :: "'w file_system \<Rightarrow> path \<Rightarrow> string \<Rightarrow> 'w \<Rightarrow> StaticFileHandler res" where
  "make_handler fs dir strip w =
     res_bind (canonical fs dir w) (\<lambda>root. Ret \<lparr>root_dir = root, strip_prefix = strip\<rparr>)"

text \<open>\<^verbatim>\<open>std::mismatch\<close> over the two iterations reaches the end of the first one.\<close>

definition within_root :: "path \<Rightarrow> path \<Rightarrow> bool" where
  "within_root root real \<longleftrightarrow> take (length (elements root)) (elements real) = elements root"

definition resolve :: "'w file_system \<Rightarrow> StaticFileHandler \<Rightarrow> string \<Rightarrow> 'w \<Rightarrow> path" where
  "resolve fs h url_path w =
     (let rel = (if starts_with url_path (strip_prefix h)
                 then drop (length (strip_prefix h)) url_path else url_path);
          candidate = lexically_normal (path_append (root_dir h) (path_of rel))
      in case weakly_canonical fs candidate w of
           None \<Rightarrow> empty_path
         | Some real \<Rightarrow> if within_root (root_dir h) real then real else empty_path)"

text \<open>\<^verbatim>\<open>static_cast<std::size_t>(sb.st_size)\<close>, 64 bits.\<close>

definition to_size_t :: "int \<Rightarrow> nat" where
  "to_size_t z = nat (z mod 2 ^ 64)"

definition serve_file :: "'w file_system \<Rightarrow> path \<Rightarrow> HttpResponse \<Rightarrow> 'w \<Rightarrow> HttpResponse \<times> 'w" where
  "serve_file fs abs_path resp w =
     (case fs_open fs abs_path w of (file_fd, w1) \<Rightarrow>
        if file_fd < 0 then (make_error InternalServerError [], w1)
        else case fs_fstat fs file_fd w1 of
               None \<Rightarrow> (make_error InternalServerError [], fs_close fs file_fd w1)
             | Some st_size \<Rightarrow>
                 (set_sendfile file_fd (to_size_t st_size) (mime_type (extension abs_path))
                    (set_status Ok resp), w1))"

text \<open>\<open>operator()\<close>.\<close>

definition handle :: "'w file_system \<Rightarrow> StaticFileHandler \<Rightarrow> 'w handler" where
  "handle fs h req resp w =
     (let abs_path = resolve fs h (req_path req) w
      in if abs_path = empty_path then (Ret (make_error Forbidden ''access denied''), w)
         else case fs_exists fs abs_path w of
           Throw e \<Rightarrow> (Throw e, w)
         | Blocked \<Rightarrow> (Blocked, w)
         | Ret ex \<Rightarrow>
           if \<not> ex then (Ret (make_error NotFound []), w)
           else case is_directory fs abs_path w of
             Throw e \<Rightarrow> (Throw e, w)
           | Blocked \<Rightarrow> (Blocked, w)
           | Ret dir \<Rightarrow>
             (let target = (if dir then path_append abs_path (path_of ''index.html'') else abs_path)
              in case (if dir then fs_exists fs target w else Ret True) of
                Throw e \<Rightarrow> (Throw e, w)
              | Blocked \<Rightarrow> (Blocked, w)
              | Ret tex \<Rightarrow>
                if \<not> tex then (Ret (make_error NotFound ''no index.html''), w)
                else case is_regular_file fs target w of
                  Throw e \<Rightarrow> (Throw e, w)
                | Blocked \<Rightarrow> (Blocked, w)
                | Ret reg \<Rightarrow>
                  if \<not> reg then (Ret (make_error Forbidden ''not a regular file''), w)
                  else (case serve_file fs target resp w of (r, w1) \<Rightarrow> (Ret r, w1))))"

end
