(* ===== verification/Main_App.thy ===== *)
theory Main_App
  imports Event_Loop Http_Parser Router Static_Handler
begin

text \<open>
  \<open>src/main.cpp\<close>: the routes, the read callback of a connection, the task a worker runs for
  a request, and the program. The application's part of the state is the parser of each
  connection (\<open>HttpState\<close>). A task is the record of what the lambda captures.

  Parameters: \<open>ord\<close> is the iteration order of the header map, \<open>mv\<close> what is left of a
  moved-from request, \<open>fs\<close> the file system calls.
\<close>

section \<open>State\<close>

datatype Task = Handle_request HttpRequest ConnectionPtr bool

type_synonym http_states = "ConnectionPtr \<Rightarrow> HttpParser"

type_synonym web_server = "(Task, http_states) server_scheme"

type_synonym header_order = "header_map \<Rightarrow> (string \<times> string) list"

definition parser_of :: "web_server \<Rightarrow> ConnectionPtr \<Rightarrow> HttpParser" where
  "parser_of s p = server.more s p"

definition set_parser :: "ConnectionPtr \<Rightarrow> HttpParser \<Rightarrow> web_server \<Rightarrow> web_server" where
  "set_parser p x s = s\<lparr>server.more := (server.more s)(p := x)\<rparr>"

section \<open>Routes\<close>

definition health_handler :: "'w handler" where
  "health_handler req resp w = (Ret (set_body ''ok'' ''text/plain'' (set_status Ok resp)), w)"

text \<open>The dash of the message is the UTF-8 sequence E2 80 94.\<close>

definition placeholder_handler :: "'w handler" where
  "placeholder_handler req resp w =
     (Ret (set_body (''cppws running '' @ [CHR 0xE2, CHR 0x80, CHR 0x94] @ '' create public/ to serve files'')
             ''text/plain'' (set_status Ok resp)), w)"

definition build_router :: "'w file_system \<Rightarrow> path \<Rightarrow> 'w \<Rightarrow> 'w Router res" where
  "build_router fs current_path w =
     (let router = add_route GET ''/health'' health_handler [];
          public_dir = path_append current_path (path_of ''public'')
      in res_bind (fs_exists fs public_dir w) (\<lambda>ex.
           if ex then res_bind (make_handler fs public_dir ''/'' w) (\<lambda>h.
                        Ret (add_prefix_route GET ''/'' (handle fs h) router))
           else Ret (add_prefix_route GET ''/'' placeholder_handler router)))"

section \<open>The event loop side\<close>

text \<open>Lines 85 to 88: a new connection gets a fresh parser.\<close>

definition on_connection :: "ConnectionPtr \<Rightarrow> http_states \<Rightarrow> http_states" where
  "on_connection p st = st(p := new_parser)"

text \<open>Lines 89 to 137.\<close>

definition read_callback ::
  "header_order \<Rightarrow> HttpRequest \<Rightarrow> ConnectionPtr \<Rightarrow> web_server callback" where
  "read_callback ord mv p c s =
     (let data = readable (read_buf c);
          (result, ps) = feed data (parser_of s p);
          s1 = set_parser p ps s;
          c1 = c\<lparr>read_buf := consume_all (read_buf c)\<rparr>
      in if result = Error then
           (let resp = make_error BadRequest (p_error ps);
                c2 = set_keep_alive False c1
            in bind_st (post_response (Some p) (serialize ord resp) (-1) 0 s1) (\<lambda>_ s2. (Ret c2, s2)))
         else if result = Complete then
           (let (req, ps1) = take_result mv ps;
                s2 = set_parser p (reset ps1) s1;
                keep = wants_keep_alive req;
                c2 = set_keep_alive keep c1
            in bind_st (submit_task (Handle_request req p keep) s2) (\<lambda>_ s3. (Ret c2, s3)))
         else (Ret c1, s1))"

definition web_app :: "header_order \<Rightarrow> HttpRequest \<Rightarrow> (Task, http_states) app" where
  "web_app ord mv = \<lparr>conn_handler = Some on_connection, read_cb = (\<lambda>p. Some (read_callback ord mv p))\<rparr>"

section \<open>The worker side\<close>

text \<open>The conversion of a \<open>std::size_t\<close> to \<open>off_t\<close>.\<close>

definition size_to_off :: "nat \<Rightarrow> int" where
  "size_to_off n = (if n mod 2 ^ 64 < 2 ^ 63 then int (n mod 2 ^ 64) else int (n mod 2 ^ 64) - 2 ^ 64)"

definition answer :: "bool \<Rightarrow> HttpResponse \<Rightarrow> bool \<Rightarrow> HttpResponse" where
  "answer found resp keep =
     set_header ''connection'' (if keep then ''keep-alive'' else ''close'')
       (if found then resp else make_error NotFound [])"

fun run_task :: "header_order \<Rightarrow> web_server Router \<Rightarrow> Task \<Rightarrow> web_server \<Rightarrow> unit res \<times> web_server" where
  "run_task ord router (Handle_request req conn_ptr keep) s =
     bind_st (dispatch router req new_response s) (\<lambda>(found, resp) s1.
       let resp1 = answer found resp keep;
           (file_fd, resp2) = take_sendfile_fd resp1;
           file_sz = size_to_off (sendfile_size resp2)
       in post_response (Some conn_ptr) (serialize ord resp2) file_fd file_sz s1)"

text \<open>Worker \<open>i\<close> takes the next task, and later runs it.\<close>

definition worker_begin :: "nat \<Rightarrow> web_server \<Rightarrow> unit res \<times> web_server" where
  "worker_begin i s =
     (case worker_take i (thread_pool s) of
        Ret p \<Rightarrow> (Ret (), s\<lparr>thread_pool := p\<rparr>)
      | Throw e \<Rightarrow> (Throw e, s)
      | Blocked \<Rightarrow> (Blocked, s))"

definition worker_end ::
  "header_order \<Rightarrow> web_server Router \<Rightarrow> nat \<Rightarrow> Task \<Rightarrow> web_server \<Rightarrow> unit res \<times> web_server" where
  "worker_end ord router i t s =
     bind_st (worker_run (run_task ord router) i t (thread_pool s) s) (\<lambda>p s1.
       (Ret (), s1\<lparr>thread_pool := p\<rparr>))"

section \<open>The program\<close>

definition DEFAULT_PORT :: "16 word" where "DEFAULT_PORT = 8080"
definition N_WORKERS :: nat where "N_WORKERS = 0"

text \<open>\<open>signal_handler\<close>; \<open>loop_set\<close> says whether \<open>g_loop\<close> is set.\<close>

definition signal_handler :: "bool \<Rightarrow> web_server \<Rightarrow> web_server" where
  "signal_handler loop_set s = (if loop_set then stop s else s)"

text \<open>
  The try block of \<open>main\<close>. The loop runs with the activity \<open>env\<close> of workers and signals;
  \<open>joins\<close> is the activity of the workers while a destructor waits for them. An exception
  that leaves the constructor, the router or the loop is fatal; when the block is left the
  event loop is destroyed.
\<close>

definition leave_block ::
  "(web_server \<Rightarrow> web_server) list \<Rightarrow> unit res \<times> web_server \<Rightarrow> unit res \<times> web_server" where
  "leave_block joins m =
     (case m of
        (Blocked, s) \<Rightarrow> (Blocked, s)
      | (r, s) \<Rightarrow> bind_st (event_loop_dtor joins s) (\<lambda>_ s1. (r, s1)))"

definition main_block ::
  "header_order \<Rightarrow> HttpRequest \<Rightarrow> socket_calls \<Rightarrow> errno + int \<Rightarrow> int \<Rightarrow> nat \<Rightarrow>
   web_server file_system \<Rightarrow> path \<Rightarrow> (web_server Router \<Rightarrow> (web_server \<Rightarrow> web_server) list) \<Rightarrow>
   (web_server \<Rightarrow> web_server) list \<Rightarrow> web_server \<Rightarrow> unit res \<times> web_server" where
  "main_block ord mv cs created evfd hw fs cwd env joins s =
     bind_st (event_loop_ctor cs created evfd hw DEFAULT_PORT N_WORKERS joins s) (\<lambda>_ s1.
       leave_block joins
         (bind_st (build_router fs cwd s1, s1) (\<lambda>router s1. run (web_app ord mv) (env router) s1)))"

text \<open>The exit status; \<open>None\<close> when the program does not end.\<close>

definition exit_status :: "unit res \<Rightarrow> nat option" where
  "exit_status r = (case r of Ret _ \<Rightarrow> Some 0 | Throw _ \<Rightarrow> Some 1 | Blocked \<Rightarrow> None)"

end
