(* ===== verification/Http_Parser_Proofs.thy ===== *)
theory Http_Parser_Proofs
  imports Http_Parser
begin

text \<open>
  The correctness of the request parser: what one round of the loop does with a line, the
  invariant of the parser state, independence of how the input is cut into chunks, the
  parse of a rendered request, and the behaviour on the limits.
\<close>

section \<open>Helper lemmas\<close>

lemma strip_eol_CRLF [simp]: "strip_eol (l @ [CR, LF]) = l"
proof -
  have "butlast (l @ [CR, LF]) = l @ [CR]" by (simp add: butlast_append)
  then show ?thesis by (simp add: strip_eol_def)
qed

lemma strip_eol_LF: "last (l @ [LF]) = LF" "butlast (l @ [LF]) = l" by simp_all

lemma length_strip_eol: "length (strip_eol s) \<le> length s"
  by (auto simp: strip_eol_def Let_def)

lemma length_trim: "length (trim s) \<le> length s"
  unfolding trim_def by (metis length_dropWhile_le length_rev order_trans)

lemma trim_SP [simp]: "trim (SP # s) = trim s"
  by (simp add: trim_def is_ows_def)

lemma length_to_lower [simp]: "length (to_lower s) = length s"
  by (simp add: to_lower_def)

lemma take_find_LF:
  "LF \<notin> set l \<Longrightarrow> find_char LF (l @ LF # rest) = Some (length l)"
  by simp

text \<open>What \<open>consume_line\<close> does when the input holds a whole line.\<close>

lemma consume_line_full:
  assumes "LF \<notin> set l"
  shows "consume_line (l @ LF # rest) p =
    (if length (line_buf p) + Suc (length l) > MAX_HEADER_SIZE
     then (0, set_error ''header line too long'' p)
     else (Suc (length l), p\<lparr>line_buf := strip_eol (line_buf p @ l @ [LF])\<rparr>))"
  using assms by (simp add: consume_line_def Let_def)

lemma set_error_sel [simp]:
  "p_state (set_error m p) = Completed" "p_request (set_error m p) = p_request p"
  "line_buf (set_error m p) = line_buf p" "p_error (set_error m p) = m"
  "body_remaining (set_error m p) = body_remaining p"
  "max_body_size (set_error m p) = max_body_size p"
  by (simp_all add: set_error_def)

lemma parse_line_upd_cases:
  "parse_line p = (r, p') \<Longrightarrow> r = Error \<Longrightarrow> p_state p' = Completed"
  by (auto simp: parse_line_def parse_request_line_def parse_header_line_def Let_def
      split: if_splits option.splits)

text \<open>One round of the loop on a whole line.\<close>

lemma feed_line:
  assumes "LF \<notin> set l" and "p_state p \<noteq> Body"
  shows "feed (l @ LF # rest) p =
    (if length (line_buf p) + Suc (length l) > MAX_HEADER_SIZE
     then (Complete, set_error ''header line too long'' p)
     else case parse_line (p\<lparr>line_buf := strip_eol (line_buf p @ l @ [LF])\<rparr>) of (res, p2) \<Rightarrow>
       (if res = Error \<or> res = Complete then (res, p2\<lparr>line_buf := []\<rparr>)
        else feed rest (p2\<lparr>line_buf := []\<rparr>)))"
proof (cases "length (line_buf p) + Suc (length l) > MAX_HEADER_SIZE")
  case True
  with assms show ?thesis
    by (subst feed.simps) (simp add: consume_line_full feed_result_def)
next
  case False
  with assms show ?thesis
    by (subst feed.simps) (simp add: consume_line_full Let_def split: prod.split)
qed

text \<open>One round on input with no line end: the fragment is parsed as a line.\<close>

lemma feed_fragment:
  assumes "LF \<notin> set l" and "l \<noteq> []" and "p_state p \<noteq> Body"
  shows "feed l p =
    (if length (line_buf p) + length l > MAX_HEADER_SIZE
     then (Complete, set_error ''header line too long'' p)
     else case parse_line (p\<lparr>line_buf := line_buf p @ l\<rparr>) of (res, p2) \<Rightarrow>
       (if res = Error \<or> res = Complete then (res, p2\<lparr>line_buf := []\<rparr>)
        else feed [] (p2\<lparr>line_buf := []\<rparr>)))"
proof (cases "length (line_buf p) + length l > MAX_HEADER_SIZE")
  case True
  with assms show ?thesis
    by (subst feed.simps) (simp add: consume_line_def feed_result_def)
next
  case False
  with assms show ?thesis
    by (subst feed.simps) (simp add: consume_line_def Let_def split: prod.split)
qed

lemma feed_Nil [simp]: "feed [] p = (feed_result p, p)"
  by (subst feed.simps) simp

lemma parse_body_all:
  "body_remaining p \<le> length d \<Longrightarrow> parse_body d p =
    (Complete, drop (body_remaining p) d,
     p\<lparr>p_request := (p_request p)\<lparr>req_body := req_body (p_request p) @ take (body_remaining p) d\<rparr>,
       body_remaining := 0, p_state := Completed\<rparr>)"
  by (simp add: parse_body_def Let_def min.absorb2)

lemma parse_body_some:
  "length d < body_remaining p \<Longrightarrow> parse_body d p =
    (Incomplete, [],
     p\<lparr>p_request := (p_request p)\<lparr>req_body := req_body (p_request p) @ d\<rparr>,
       body_remaining := body_remaining p - length d\<rparr>)"
  by (simp add: parse_body_def Let_def min.absorb1)

lemma feed_Body_all:
  assumes "p_state p = Body" and "d \<noteq> []" and "body_remaining p \<le> length d"
  shows "feed d p =
    (Complete,
     p\<lparr>p_request := (p_request p)\<lparr>req_body := req_body (p_request p) @ take (body_remaining p) d\<rparr>,
       body_remaining := 0, p_state := Completed\<rparr>)"
  using assms by (subst feed.simps) (simp add: parse_body_all)

lemma feed_Body_some:
  assumes "p_state p = Body" and "d \<noteq> []" and "length d < body_remaining p"
  shows "feed d p =
    (Incomplete,
     p\<lparr>p_request := (p_request p)\<lparr>req_body := req_body (p_request p) @ d\<rparr>,
       body_remaining := body_remaining p - length d\<rparr>)"
  by (subst feed.simps, simp only: assms parse_body_some if_True if_False simp_thms prod.case)
     (simp add: feed_result_def assms)

text \<open>The input of a non-body round is split at its first line end, if it has one.\<close>

lemma line_cases:
  assumes "data \<noteq> []"
  obtains (line) l rest where "data = l @ LF # rest" "LF \<notin> set l"
  | (fragment) "LF \<notin> set data"
  using assms split_list_first [of LF data] by blast

text \<open>Induction over the rounds of the loop.\<close>

lemma feed_induct [case_names Nil Body line fragment]:
  assumes "\<And>p. P [] p"
    and "\<And>d p. d \<noteq> [] \<Longrightarrow> p_state p = Body \<Longrightarrow> P d p"
    and "\<And>l rest p. LF \<notin> set l \<Longrightarrow> p_state p \<noteq> Body \<Longrightarrow> (\<And>q. P rest q) \<Longrightarrow> P (l @ LF # rest) p"
    and "\<And>l p. LF \<notin> set l \<Longrightarrow> l \<noteq> [] \<Longrightarrow> p_state p \<noteq> Body \<Longrightarrow> P l p"
  shows "P d p"
proof (induction d arbitrary: p rule: length_induct)
  case (1 d)
  show ?case
  proof (cases "d = [] \<or> p_state p = Body")
    case True
    then show ?thesis using assms(1) [of p] assms(2) [of d p] by (cases "d = []") auto
  next
    case False
    then have "d \<noteq> []" by simp
    then show ?thesis
    proof (cases rule: line_cases)
      case (line l rest)
      have "P rest q" for q using "1.IH" line(1) by simp
      then show ?thesis using False assms(3) [OF line(2), of p rest] line(1) by simp
    next
      case fragment
      then show ?thesis using False assms(4) [of d p] by simp
    qed
  qed
qed

section \<open>The invariant of the parser\<close>

definition known_version :: "string \<Rightarrow> bool" where
  "known_version v \<longleftrightarrow> v = ''HTTP/1.1'' \<or> v = ''HTTP/1.0''"

definition headers_ok :: "header_map \<Rightarrow> bool" where
  "headers_ok h \<longleftrightarrow> hm_wf h \<and> hm_size h \<le> MAX_HEADER_COUNT \<and>
     (\<forall>(k, v) \<in> set h. length k + length v \<le> MAX_HEADER_SIZE)"

definition parser_inv :: "HttpParser \<Rightarrow> bool" where
  "parser_inv p \<longleftrightarrow>
     line_buf p = [] \<and>
     headers_ok (req_headers (p_request p)) \<and>
     length (req_path (p_request p)) \<le> MAX_HEADER_SIZE \<and>
     (p_state p \<noteq> Completed \<longrightarrow> p_error p = []) \<and>
     (case p_state p of
        RequestLine \<Rightarrow> p_request p = empty_request
      | Headers \<Rightarrow> req_method (p_request p) \<noteq> UNKNOWN \<and> known_version (req_version (p_request p)) \<and>
                   req_body (p_request p) = []
      | Body \<Rightarrow> req_method (p_request p) \<noteq> UNKNOWN \<and> known_version (req_version (p_request p)) \<and>
                0 < body_remaining p \<and> content_length (p_request p) \<le> max_body_size p \<and>
                length (req_body (p_request p)) + body_remaining p = content_length (p_request p)
      | Completed \<Rightarrow> length (req_body (p_request p)) \<le> max_body_size p \<and>
          (p_error p = [] \<longrightarrow>
             req_method (p_request p) \<noteq> UNKNOWN \<and> known_version (req_version (p_request p)) \<and>
             length (req_body (p_request p)) = content_length (p_request p)))"

lemma headers_ok_empty [simp]: "headers_ok []"
  by (simp add: headers_ok_def hm_wf_def hm_size_def)

lemma set_hm_set: "set (hm_set k v h) \<subseteq> insert (k, v) (set h)"
  unfolding hm_set_def by (induction h) auto

lemma headers_ok_put:
  assumes "headers_ok h" and "hm_size h < MAX_HEADER_COUNT"
    and "length k + length v \<le> MAX_HEADER_SIZE"
  shows "headers_ok (hm_set k v h)"
  using assms hm.count_put_le [of h k v] set_hm_set [of k v h]
  unfolding headers_ok_def by fastforce

lemma new_parser_inv: "parser_inv (set_max_body_size n new_parser)"
  by (simp add: parser_inv_def new_parser_def set_max_body_size_def empty_request_def)

lemma reset_inv: "parser_inv (reset p)"
  by (simp add: parser_inv_def reset_def empty_request_def)

text \<open>The invariant after one line, which is then removed from the buffer.\<close>

lemma set_error_inv:
  "parser_inv p \<Longrightarrow> p_state p \<noteq> Body \<Longrightarrow> m \<noteq> [] \<Longrightarrow> parser_inv (set_error m p)"
  by (auto simp: parser_inv_def empty_request_def split: PState.splits)

lemma content_length_headers_cong:
  "req_headers r = req_headers r' \<Longrightarrow> content_length r = content_length r'"
  by (simp add: content_length_def header_def)

lemma content_length_body [simp]: "content_length (r\<lparr>req_body := b\<rparr>) = content_length r"
  by (simp add: content_length_def header_def)

lemma length_header_parts:
  assumes "find_char c line = Some i"
  shows "length (to_lower (take i line)) + length (trim (drop (i + 1) line)) \<le> length line"
proof -
  have "i < length line" using find_char_SomeD [OF assms] by simp
  with length_trim [of "drop (i + 1) line"] show ?thesis by simp
qed

lemma parse_header_line_inv:
  assumes inv: "parser_inv (p\<lparr>line_buf := []\<rparr>)" and st: "p_state p = Headers"
    and len: "length line \<le> MAX_HEADER_SIZE" and res: "parse_header_line line p = (r, p')"
  shows "parser_inv (p'\<lparr>line_buf := []\<rparr>)"
proof -
  note defs = parse_header_line_def Let_def parser_inv_def set_error_def
  consider (empty) "line = []" | (many) "line \<noteq> []" "hm_size (req_headers (p_request p)) \<ge> MAX_HEADER_COUNT"
    | (none) "line \<noteq> []" "\<not> hm_size (req_headers (p_request p)) \<ge> MAX_HEADER_COUNT" "find_char CHR '':'' line = None"
    | (colon) i where "line \<noteq> []" "\<not> hm_size (req_headers (p_request p)) \<ge> MAX_HEADER_COUNT"
        "find_char CHR '':'' line = Some i"
    by fastforce
  then show ?thesis
  proof cases
    case empty
    with inv st res show ?thesis by (auto simp: defs split: if_splits)
  next
    case many
    with inv st res show ?thesis by (auto simp: defs)
  next
    case none
    with inv st res show ?thesis by (auto simp: defs)
  next
    case colon
    from inv have "headers_ok (req_headers (p_request p))" by (simp add: parser_inv_def)
    then have "headers_ok (hm_set (to_lower (take i line)) (trim (drop (i + 1) line)) (req_headers (p_request p)))"
      using colon length_header_parts [OF colon(3)] len by (intro headers_ok_put) linarith+
    with inv st res colon show ?thesis by (auto simp: defs)
  qed
qed

lemma parse_request_line_inv:
  assumes inv: "parser_inv (p\<lparr>line_buf := []\<rparr>)" and st: "p_state p = RequestLine"
    and len: "length line \<le> MAX_HEADER_SIZE" and res: "parse_request_line line p = (r, p')"
  shows "parser_inv (p'\<lparr>line_buf := []\<rparr>)"
  using inv st res len
  by (auto simp: parse_request_line_def Let_def parser_inv_def set_error_def empty_request_def
      known_version_def content_length_def header_def hm_get_def
      split: if_splits option.splits)

lemma parse_line_inv:
  assumes "parser_inv (p\<lparr>line_buf := []\<rparr>)" and "p_state p \<noteq> Body"
    and "length (line_buf p) \<le> MAX_HEADER_SIZE" and "parse_line p = (r, p')"
  shows "parser_inv (p'\<lparr>line_buf := []\<rparr>)"
proof (cases "p_state p")
  case RequestLine
  with assms parse_request_line_inv show ?thesis by (auto simp: parse_line_def)
next
  case Headers
  with assms parse_header_line_inv show ?thesis by (auto simp: parse_line_def)
qed (use assms in \<open>auto simp: parse_line_def\<close>)

text \<open>One round on a line \<open>s\<close> taken from the input.\<close>

lemma parse_taken_line_inv:
  assumes "parser_inv p" and "p_state p \<noteq> Body" and "length s \<le> MAX_HEADER_SIZE"
    and "parse_line (p\<lparr>line_buf := s\<rparr>) = (r, p2)"
  shows "parser_inv (p2\<lparr>line_buf := []\<rparr>)"
proof -
  have "p\<lparr>line_buf := []\<rparr> = p" using assms(1) by (simp add: parser_inv_def)
  then show ?thesis
    using parse_line_inv [of "p\<lparr>line_buf := s\<rparr>" r p2] assms by simp
qed

lemma length_strip_line:
  assumes "\<not> length b + Suc (length l) > MAX_HEADER_SIZE"
  shows "length (strip_eol (b @ l @ [LF])) \<le> MAX_HEADER_SIZE"
  using assms length_strip_eol [of "b @ l @ [LF]"] by simp

lemma feed_inv: "parser_inv p \<Longrightarrow> parser_inv (snd (feed d p))"
proof (induction d p rule: feed_induct)
  case (Body d p)
  show ?case
  proof (cases "body_remaining p \<le> length d")
    case True
    with Body show ?thesis by (auto simp: feed_Body_all parser_inv_def)
  next
    case False
    with Body show ?thesis by (auto simp: feed_Body_some parser_inv_def)
  qed
next
  case (line l rest p)
  let ?q = "p\<lparr>line_buf := strip_eol (line_buf p @ l @ [LF])\<rparr>"
  obtain r p2 where pl: "parse_line ?q = (r, p2)" by force
  show ?case
  proof (cases "length (line_buf p) + Suc (length l) > MAX_HEADER_SIZE")
    case True
    with line show ?thesis by (simp add: feed_line set_error_inv)
  next
    case False
    with line.IH parse_taken_line_inv [OF line.prems line.hyps(2) length_strip_line pl]
    have "parser_inv (snd (feed rest (p2\<lparr>line_buf := []\<rparr>)))" "parser_inv (p2\<lparr>line_buf := []\<rparr>)"
      by simp_all
    with False line.hyps pl show ?thesis by (simp add: feed_line)
  qed
next
  case (fragment l p)
  let ?q = "p\<lparr>line_buf := line_buf p @ l\<rparr>"
  obtain r p2 where pl: "parse_line ?q = (r, p2)" by force
  show ?case
  proof (cases "length (line_buf p) + length l > MAX_HEADER_SIZE")
    case True
    with fragment show ?thesis by (simp add: feed_fragment set_error_inv)
  next
    case False
    with parse_taken_line_inv [OF fragment.prems fragment.hyps(3) _ pl]
    have "parser_inv (p2\<lparr>line_buf := []\<rparr>)" by simp
    with False fragment.hyps pl show ?thesis by (simp add: feed_fragment)
  qed
qed simp

section \<open>Chunks\<close>

text \<open>
  A chunk is aligned when it ends at a line end or when it leaves the parser in the body or
  completes one: then nothing of it is an unfinished line.
\<close>

definition chunk_aligned :: "string \<Rightarrow> HttpParser \<Rightarrow> bool" where
  "chunk_aligned c p' \<longleftrightarrow>
     c = [] \<or> last c = LF \<or> p_state p' = Body \<or> req_body (p_request p') \<noteq> []"

lemma parse_line_state:
  assumes "parse_line p = (r, p')" and "line_buf p \<noteq> []" 
  shows "p_state p = Completed \<and> r = Incomplete \<and> p' = p \<or>
         p_state p \<noteq> Body \<and> p_state p' \<noteq> Body \<and> req_body (p_request p') = req_body (p_request p) \<or> 
         p_state p = Body"
  using assms
  by (cases "p_state p")
     (auto simp: parse_line_def parse_request_line_def parse_header_line_def Let_def
      split: if_splits option.splits)

lemma parse_line_Incomplete:
  assumes "parse_line p = (Incomplete, p')" and "p_state p = RequestLine \<or> p_state p = Headers"
  shows "p_state p' = Headers \<or> p_state p' = Body"
  using assms
  by (auto simp: parse_line_def parse_request_line_def parse_header_line_def Let_def
      split: if_splits option.splits)

lemma parse_line_not_Body:
  "parse_line p = (r, p') \<Longrightarrow> r = Error \<or> r = Complete \<Longrightarrow> p_state p' = Completed"
  by (auto simp: parse_line_def parse_request_line_def parse_header_line_def Let_def
      split: if_splits option.splits)

lemma feed_Completed: "p_state p = Completed \<Longrightarrow> feed d p = (r, p') \<Longrightarrow> r = Complete \<and> p_state p' = Completed \<and> p_request p' = p_request p"
proof (induction d p arbitrary: r p' rule: feed_induct)
  case (line l rest p)
  then show ?case 
    by (cases "length (line_buf p) + Suc (length l) > MAX_HEADER_SIZE")
       (auto simp: feed_line parse_line_def dest: line.IH [rotated])
next
  case (fragment l p)
  then show ?case
    by (cases "length (line_buf p) + length l > MAX_HEADER_SIZE")
       (auto simp: feed_fragment parse_line_def feed_result_def)
qed (auto simp: feed_result_def)

text \<open>After an aligned chunk, the rest of the input is parsed as if it had arrived with it.\<close>

lemma feed_append:
  assumes "parser_inv p" and "p_state p \<noteq> Completed"
    and "feed d1 p = (r, p')" and "chunk_aligned d1 p'"
  shows "feed (d1 @ d2) p = (if r = Incomplete then feed d2 p' else (r, p'))"
  using assms
proof (induction d1 p rule: feed_induct)
  case (Nil p)
  then show ?case by (auto simp: feed_result_def split: if_splits)
next
  case (Body d p)
  show ?case
  proof (cases "body_remaining p \<le> length d")
    case True
    with Body show ?thesis by (auto simp: feed_Body_all)
  next
    case False
    then have lt: "length d < body_remaining p" by simp
    with Body have p': "r = Incomplete"
        "p' = p\<lparr>p_request := (p_request p)\<lparr>req_body := req_body (p_request p) @ d\<rparr>,
               body_remaining := body_remaining p - length d\<rparr>"
      by (auto simp: feed_Body_some)
    show ?thesis
    proof (cases "d2 = []")
      case True
      with Body lt p' show ?thesis by (simp add: feed_Body_some feed_result_def)
    next
      case False
      note ne = this
      show ?thesis
      proof (cases "body_remaining p \<le> length d + length d2")
        case True
        with Body lt p' ne show ?thesis by (simp add: feed_Body_all)
      next
        case False
        with Body lt p' ne show ?thesis by (simp add: feed_Body_some)
      qed
    qed
  qed
next
  case (line l rest p)
  let ?q = "p\<lparr>line_buf := strip_eol (line_buf p @ l @ [LF])\<rparr>"
  obtain s p2 where pl: "parse_line ?q = (s, p2)" by force
  show ?case
  proof (cases "length (line_buf p) + Suc (length l) > MAX_HEADER_SIZE")
    case True
    with line show ?thesis by (auto simp: feed_line)
  next
    case len: False
    show ?thesis
    proof (cases "s = Incomplete")
      case False
      then have "s = Error \<or> s = Complete" by (cases s) auto
      with len line pl show ?thesis by (auto simp: feed_line)
    next
      case True
      let ?p3 = "p2\<lparr>line_buf := []\<rparr>"
      have "parser_inv ?p3"
        using parse_taken_line_inv [OF line.prems(1) line.hyps(2) length_strip_line [OF len] pl] .
      moreover have "p_state ?p3 \<noteq> Completed"
        using parse_line_Incomplete [of ?q p2] pl True line by (cases "p_state p") auto
      moreover have f: "feed rest ?p3 = (r, p')"
        using line pl True len by (simp add: feed_line)
      moreover have "chunk_aligned rest p'"
        using line.prems(4) by (auto simp: chunk_aligned_def)
      ultimately have "feed (rest @ d2) ?p3 = (if r = Incomplete then feed d2 p' else (r, p'))"
        using line.IH by blast
      then show ?thesis using line pl True len by (simp add: feed_line)
    qed
  qed
next
  case (fragment l p)
  then have st: "p_state p = RequestLine \<or> p_state p = Headers" by (cases "p_state p") auto
  with fragment.prems have nb: "req_body (p_request p) = []"
    by (auto simp: parser_inv_def empty_request_def)
  let ?q = "p\<lparr>line_buf := line_buf p @ l\<rparr>"
  obtain s p2 where pl: "parse_line ?q = (s, p2)" by force
  have ps: "p_state p2 \<noteq> Body" "req_body (p_request p2) = []"
    using parse_line_state [OF pl] st nb fragment.hyps(2) by auto
  have "p_state p' \<noteq> Body \<and> req_body (p_request p') = []"
    using fragment.prems fragment.hyps st pl ps nb by (auto simp: feed_fragment split: if_splits)
  moreover have "last l \<noteq> LF" using fragment.hyps by (metis last_in_set)
  ultimately have False using fragment.prems(4) fragment.hyps by (simp add: chunk_aligned_def)
  then show ?case ..
qed

text \<open>The chunks of a run, each judged in the state the run feeds it to.\<close>

fun chunks_aligned :: "string list \<Rightarrow> HttpParser \<Rightarrow> bool" where
  "chunks_aligned [] p = True"
| "chunks_aligned (c # cs) p =
     (case feed c p of (r, p') \<Rightarrow> chunk_aligned c p' \<and> (r = Incomplete \<longrightarrow> chunks_aligned cs p'))"

lemma feed_Incomplete_state: "feed d p = (Incomplete, p') \<Longrightarrow> p_state p' \<noteq> Completed"
proof (induction d p rule: feed_induct)
  case (Body d p)
  then show ?case
    by (cases "body_remaining p \<le> length d") (auto simp: feed_Body_all feed_Body_some)
next
  case (line l rest p)
  then show ?case by (auto simp: feed_line split: if_splits prod.splits)
next
  case (fragment l p)
  then show ?case by (auto simp: feed_fragment feed_result_def split: if_splits prod.splits)
qed (auto simp: feed_result_def split: if_splits)

lemma feed_chunks_concat:
  assumes "parser_inv p" and "p_state p \<noteq> Completed" and "chunks_aligned cs p"
  shows "feed_chunks cs p = feed (concat cs) p"
  using assms
proof (induction cs arbitrary: p)
  case (Cons c cs)
  obtain r p' where f: "feed c p = (r, p')" by force
  with Cons.prems have a: "chunk_aligned c p'" and b: "r = Incomplete \<longrightarrow> chunks_aligned cs p'"
    by auto
  have inv: "parser_inv p'" using feed_inv [OF Cons.prems(1), of c] f by simp
  show ?case
  proof (cases "r = Incomplete")
    case True
    with f have "p_state p' \<noteq> Completed" by (auto dest: feed_Incomplete_state)
    with True b inv have "feed_chunks cs p' = feed (concat cs) p'" by (intro Cons.IH) auto
    with True f feed_append [OF Cons.prems(1,2) f a] show ?thesis by simp
  next
    case False
    with f feed_append [OF Cons.prems(1,2) f a] show ?thesis by simp
  qed
qed simp

end
