(* ===== verification/Http_Parser_Spec.thy ===== *)
theory Http_Parser_Spec
  imports Http_Parser_Proofs
begin

text \<open>
  What the request parser promises: the lines it accepts, the parse of a rendered request,
  the limits on what it stores, its behaviour on each kind of malformed or oversized input,
  and the properties of the component.
\<close>

section \<open>Lines the parser accepts\<close>

lemma parse_request_line_good:
  assumes "m \<noteq> UNKNOWN" and "SP \<notin> set path" and "known_version v"
    and "length (method_to_string m @ SP # path @ SP # v) \<le> MAX_REQUEST_LINE"
  shows "parse_request_line (method_to_string m @ SP # path @ SP # v) p =
    (Incomplete, p\<lparr>p_request := (p_request p)\<lparr>req_method := m, req_path := path, req_version := v\<rparr>,
                   p_state := Headers\<rparr>)"
proof -
  let ?l = "method_to_string m @ SP # path @ SP # v"
  have 1: "find_char SP ?l = Some (length (method_to_string m))" by simp
  have 2: "find_char_from SP ?l (Suc (length (method_to_string m))) =
      Some (Suc (length (method_to_string m) + length path))"
    using assms(2) by (simp add: find_char_from_def)
  have 3: "\<not> (v \<noteq> ''HTTP/1.1'' \<and> v \<noteq> ''HTTP/1.0'')"
    using assms(3) by (auto simp: known_version_def)
  have 4: "\<not> length ?l > MAX_REQUEST_LINE" using assms(4) by simp
  show ?thesis
    unfolding parse_request_line_def if_not_P [OF 4]
    using assms(1) 3 by (simp add: 1 2 Let_def del: de_Morgan_conj)
qed

lemma two_spaces:
  assumes "find_char SP line = Some i" and "find_char_from SP line (i + 1) = Some j"
  shows "line = take i line @ SP # take (j - i - 1) (drop (i + 1) line) @ SP # drop (j + 1) line \<and>
    SP \<notin> set (take (j - i - 1) (drop (i + 1) line))"
proof -
  have i: "i < length line" "line ! i = SP" using find_char_SomeD [OF assms(1)] by auto
  from assms(2) obtain k where k: "find_char SP (drop (i + 1) line) = Some k" and j: "j = i + 1 + k"
    by (auto simp: find_char_from_def)
  let ?t = "drop (i + 1) line"
  have kk: "k < length ?t" "?t ! k = SP" "SP \<notin> set (take k ?t)" using find_char_SomeD [OF k] by auto
  have "line = take i line @ SP # ?t" using id_take_nth_drop [OF i(1)] i(2) by simp
  moreover have "?t = take k ?t @ SP # drop (Suc k) ?t" using id_take_nth_drop [OF kk(1)] kk(2) by simp
  moreover have "drop (Suc k) ?t = drop (j + 1) line" by (simp add: j add.commute)
  moreover have "j - i - 1 = k" by (simp add: j)
  ultimately show ?thesis using kk(3) by metis
qed

lemma parse_request_line_Incomplete:
  assumes "parse_request_line line p = (Incomplete, p')"
  shows "\<exists>m path v. m \<noteq> UNKNOWN \<and> SP \<notin> set path \<and> known_version v \<and>
    length line \<le> MAX_REQUEST_LINE \<and> line = method_to_string m @ SP # path @ SP # v"
proof -
  from assms obtain i j where i: "find_char SP line = Some i"
      and j: "find_char_from SP line (i + 1) = Some j" and len: "length line \<le> MAX_REQUEST_LINE"
    by (auto simp: parse_request_line_def split: if_splits option.splits)
  let ?path = "take (j - i - 1) (drop (i + 1) line)" and ?v = "drop (j + 1) line"
  let ?m = "string_to_method (take i line)"
  have m: "?m \<noteq> UNKNOWN" and v: "known_version ?v"
    using assms i j len
    by (auto simp: parse_request_line_def Let_def known_version_def split: if_splits)
  have "line = method_to_string ?m @ SP # ?path @ SP # ?v" "SP \<notin> set ?path"
    using two_spaces [OF i j] string_to_method_known [OF refl m] by auto
  with m v len show ?thesis by blast
qed

section \<open>The parse of a rendered request\<close>

text \<open>The wire format of \<open>include/http/request.hpp\<close>, written by a client.\<close>

definition render_header :: "string \<times> string \<Rightarrow> string" where
  "render_header nv = fst nv @ '': '' @ snd nv @ CRLF"

definition render_request ::
  "Method \<Rightarrow> string \<Rightarrow> string \<Rightarrow> (string \<times> string) list \<Rightarrow> string \<Rightarrow> string" where
  "render_request m path v hs body =
     method_to_string m @ SP # path @ SP # v @ CRLF @ concat (map render_header hs) @ CRLF @ body"

text \<open>The headers a request stores: names in lower case, the last of equal names wins.\<close>

definition stored_headers :: "(string \<times> string) list \<Rightarrow> header_map \<Rightarrow> header_map" where
  "stored_headers hs h = fold (\<lambda>(k, v). hm_set k v) (map (\<lambda>(n, v). (to_lower n, v)) hs) h"

definition header_line_ok :: "string \<times> string \<Rightarrow> bool" where
  "header_line_ok nv \<longleftrightarrow>
     CHR '':'' \<notin> set (fst nv) \<and> LF \<notin> set (fst nv) \<and> LF \<notin> set (snd nv) \<and>
     trim (snd nv) = snd nv \<and> length (fst nv) + length (snd nv) + 4 \<le> MAX_HEADER_SIZE"

definition request_ok :: "Method \<Rightarrow> string \<Rightarrow> string \<Rightarrow> (string \<times> string) list \<Rightarrow> bool" where
  "request_ok m path v hs \<longleftrightarrow>
     m \<noteq> UNKNOWN \<and> SP \<notin> set path \<and> LF \<notin> set path \<and> known_version v \<and>
     length (method_to_string m) + length path + length v + 4 \<le> MAX_HEADER_SIZE \<and>
     length hs \<le> MAX_HEADER_COUNT \<and> (\<forall>nv \<in> set hs. header_line_ok nv)"

lemma stored_headers_Cons:
  "stored_headers ((n, v) # hs) h = stored_headers hs (hm_set (to_lower n) v h)"
  by (simp add: stored_headers_def)

lemma stored_headers_count:
  "hm_wf h \<Longrightarrow> hm_size (stored_headers hs h) \<le> hm_size h + length hs"
  using hm.count_fold_put_le [of h "map (\<lambda>(n, v). (to_lower n, v)) hs"]
  by (simp add: stored_headers_def)

text \<open>The stored value of a header is the one sent last under any spelling of its name.\<close>

lemma stored_headers_get:
  "hm_get (stored_headers hs []) k = map_of (rev (map (\<lambda>(n, v). (to_lower n, v)) hs)) k"
  using hm.get_fold_put [of "map (\<lambda>(n, v). (to_lower n, v)) hs" "[]" k]
  by (simp add: stored_headers_def split: option.splits)

text \<open>A line terminated by CRLF in a parser between lines.\<close>

lemma feed_crlf_line:
  assumes "LF \<notin> set l" and "p_state p \<noteq> Body" and "line_buf p = []"
    and "length l + 2 \<le> MAX_HEADER_SIZE"
    and "parse_line (p\<lparr>line_buf := l\<rparr>) = (Incomplete, p2)" and "p2\<lparr>line_buf := []\<rparr> = p3"
  shows "feed (l @ CRLF @ rest) p = feed rest p3"
proof -
  have "LF \<notin> set (l @ [CR])" using assms(1) by simp
  from feed_line [OF this assms(2), of rest] show ?thesis using assms by simp
qed

lemma parse_header_line_good:
  assumes "header_line_ok (n, v)" and "hm_size (req_headers (p_request p)) < MAX_HEADER_COUNT"
  shows "parse_header_line (n @ '': '' @ v) p =
    (Incomplete, p\<lparr>p_request := (p_request p)
       \<lparr>req_headers := hm_set (to_lower n) v (req_headers (p_request p))\<rparr>\<rparr>)"
  using assms by (simp add: parse_header_line_def header_line_ok_def Let_def)

lemma feed_headers:
  assumes "p_state p = Headers" and "line_buf p = []" and "hm_wf (req_headers (p_request p))"
    and "hm_size (req_headers (p_request p)) + length hs \<le> MAX_HEADER_COUNT"
    and "\<forall>nv \<in> set hs. header_line_ok nv"
  shows "feed (concat (map render_header hs) @ rest) p =
    feed rest (p\<lparr>p_request := (p_request p)
      \<lparr>req_headers := stored_headers hs (req_headers (p_request p))\<rparr>\<rparr>)"
  using assms
proof (induction hs arbitrary: p)
  case Nil
  then show ?case by (simp add: stored_headers_def)
next
  case (Cons nv hs)
  obtain n v where nv: "nv = (n, v)" by (cases nv)
  let ?l = "n @ '': '' @ v"
  let ?p2 = "p\<lparr>p_request := (p_request p)
       \<lparr>req_headers := hm_set (to_lower n) v (req_headers (p_request p))\<rparr>\<rparr>"
  have ok: "header_line_ok (n, v)" using Cons.prems(5) nv by simp
  have sz: "hm_size (req_headers (p_request p)) < MAX_HEADER_COUNT" using Cons.prems(4) by simp
  have "parse_line (p\<lparr>line_buf := ?l\<rparr>) = (Incomplete, ?p2\<lparr>line_buf := ?l\<rparr>)"
    using parse_header_line_good [OF ok, of "p\<lparr>line_buf := ?l\<rparr>"] sz Cons.prems(1)
    by (simp add: parse_line_def)
  moreover have "?p2\<lparr>line_buf := ?l\<rparr>\<lparr>line_buf := []\<rparr> = ?p2"
    using Cons.prems(2) by (intro HttpParser.equality) simp_all
  moreover have "LF \<notin> set ?l" "length ?l + 2 \<le> MAX_HEADER_SIZE"
    using ok by (auto simp: header_line_ok_def)
  ultimately have "feed (?l @ CRLF @ concat (map render_header hs) @ rest) p =
      feed (concat (map render_header hs) @ rest) ?p2"
    using feed_crlf_line [of ?l p "?p2\<lparr>line_buf := ?l\<rparr>" ?p2] Cons.prems(1,2) by simp
  also have "\<dots> = feed rest (?p2\<lparr>p_request := (p_request ?p2)
      \<lparr>req_headers := stored_headers hs (req_headers (p_request ?p2))\<rparr>\<rparr>)"
    using Cons.prems hm.count_put_le [of "req_headers (p_request p)" "to_lower n" v]
    by (intro Cons.IH) auto
  finally show ?case by (simp add: nv render_header_def [of "(n, v)"] stored_headers_Cons)
qed

lemma feed_blank_line:
  assumes "p_state p = Headers" and "line_buf p = []" and "req_body (p_request p) = []"
    and "content_length (p_request p) = length body" and "length body \<le> max_body_size p"
  shows "feed (CRLF @ body @ rest) p =
    (Complete, p\<lparr>p_request := (p_request p)\<lparr>req_body := body\<rparr>, body_remaining := 0,
                 p_state := Completed\<rparr>)"
proof (cases "body = []")
  case True
  have "feed ([CR] @ LF # rest) p = (Complete, p\<lparr>body_remaining := 0, p_state := Completed\<rparr>)"
    using assms True
    by (subst feed_line) (auto simp: parse_line_def parse_header_line_def strip_eol_def max_defs Let_def)
  with True assms(3) show ?thesis by simp
next
  case False
  let ?q = "p\<lparr>body_remaining := length body, p_state := Body\<rparr>"
  have "parse_line (p\<lparr>line_buf := []\<rparr>) = (Incomplete, ?q)"
    using assms False by (simp add: parse_line_def parse_header_line_def)
  then have "feed ([] @ CRLF @ body @ rest) p = feed (body @ rest) ?q"
    using assms by (intro feed_crlf_line) (auto simp: max_defs)
  then have "feed (CRLF @ body @ rest) p = feed (body @ rest) ?q" by simp
  also have "\<dots> = (Complete, ?q\<lparr>p_request := (p_request ?q)\<lparr>req_body := body\<rparr>, body_remaining := 0,
                 p_state := Completed\<rparr>)"
    using False assms(3) by (simp add: feed_Body_all)
  finally show ?thesis by simp
qed

lemma method_path_line:
  assumes "request_ok m path v hs"
  shows "LF \<notin> set (method_to_string m @ SP # path @ SP # v)"
    "length (method_to_string m @ SP # path @ SP # v) + 2 \<le> MAX_HEADER_SIZE"
  using assms by (auto simp: request_ok_def known_version_def)

lemma feed_render_request:
  assumes "request_ok m path v hs" and "p_state p = RequestLine" and "line_buf p = []"
    and "p_request p = empty_request"
    and "content_length (empty_request\<lparr>req_headers := stored_headers hs []\<rparr>) = length body"
    and "length body \<le> max_body_size p"
  shows "feed (render_request m path v hs body @ rest) p =
    (Complete, p\<lparr>p_request := \<lparr>req_method = m, req_path = path, req_version = v,
                    req_headers = stored_headers hs [], req_body = body\<rparr>,
                 body_remaining := 0, p_state := Completed\<rparr>)"
proof -
  let ?l = "method_to_string m @ SP # path @ SP # v"
  let ?r = "empty_request\<lparr>req_method := m, req_path := path, req_version := v\<rparr>"
  let ?p1 = "p\<lparr>p_request := ?r, p_state := Headers\<rparr>"
  let ?p2 = "?p1\<lparr>p_request := ?r\<lparr>req_headers := stored_headers hs []\<rparr>\<rparr>"
  have len: "length ?l \<le> MAX_REQUEST_LINE"
    using method_path_line(2) [OF assms(1)] by (simp add: max_defs)
  have "parse_line (p\<lparr>line_buf := ?l\<rparr>) = (Incomplete, ?p1\<lparr>line_buf := ?l\<rparr>)"
    using parse_request_line_good [of m path v "p\<lparr>line_buf := ?l\<rparr>"] assms(1,2,4) len
    by (simp add: parse_line_def request_ok_def)
  moreover have "?p1\<lparr>line_buf := ?l\<rparr>\<lparr>line_buf := []\<rparr> = ?p1" using assms(3) by simp
  ultimately have "feed (?l @ CRLF @ concat (map render_header hs) @ CRLF @ body @ rest) p =
      feed (concat (map render_header hs) @ CRLF @ body @ rest) ?p1"
    using feed_crlf_line [of ?l p "?p1\<lparr>line_buf := ?l\<rparr>" ?p1 "concat (map render_header hs) @ CRLF @ body @ rest"]
      method_path_line [OF assms(1)] assms(2,3)
    by simp
  also have "\<dots> = feed (CRLF @ body @ rest) ?p2"
    using feed_headers [of ?p1 hs "CRLF @ body @ rest"] assms(1,3)
    by (simp add: request_ok_def empty_request_def hm_size_def)
  also have "content_length (p_request ?p2) = length body"
    using assms(5) by (simp add: content_length_def header_def)
  then have "feed (CRLF @ body @ rest) ?p2 =
      (Complete, ?p2\<lparr>p_request := (p_request ?p2)\<lparr>req_body := body\<rparr>, body_remaining := 0,
                 p_state := Completed\<rparr>)"
    using assms(3,6) by (intro feed_blank_line) (simp_all add: empty_request_def)
  finally show ?thesis by (simp add: render_request_def empty_request_def)
qed

section \<open>Limits and errors\<close>

lemma parse_line_max [simp]: "parse_line p = (r, p') \<Longrightarrow> max_body_size p' = max_body_size p"
  by (auto simp: parse_line_def parse_request_line_def parse_header_line_def Let_def
      split: if_splits option.splits)

lemma feed_max_body_size: "max_body_size (snd (feed d p)) = max_body_size p"
proof (induction d p rule: feed_induct)
  case (Body d p)
  then show ?case
    by (cases "body_remaining p \<le> length d") (simp_all add: feed_Body_all feed_Body_some)
next
  case (line l rest p)
  then show ?case by (auto simp: feed_line split: prod.split dest: parse_line_max)
next
  case (fragment l p)
  then show ?case by (auto simp: feed_fragment split: prod.split dest: parse_line_max)
qed simp

text \<open>An answer other than \<open>Incomplete\<close> leaves the parser in its final state.\<close>

lemma feed_final_state:
  assumes "feed d p = (r, p')" and "r \<noteq> Incomplete"
  shows "p_state p' = Completed"
  using assms
proof (induction d p rule: feed_induct)
  case (Body d p)
  then show ?case
    by (cases "body_remaining p \<le> length d") (auto simp: feed_Body_all feed_Body_some)
next
  case (line l rest p)
  then show ?case
    by (auto simp: feed_line split: if_splits prod.splits dest: parse_line_not_Body)
next
  case (fragment l p)
  then show ?case
    by (auto simp: feed_fragment feed_result_def split: if_splits prod.splits dest: parse_line_not_Body)
qed (auto simp: feed_result_def split: if_splits)

lemma feed_chunks_final_state:
  "feed_chunks cs p = (r, p') \<Longrightarrow> r \<noteq> Incomplete \<Longrightarrow> p_state p' = Completed"
  by (induction cs arbitrary: p)
     (auto simp: feed_result_def split: if_splits prod.splits dest: feed_final_state)

text \<open>A line with fewer than two spaces is no request line.\<close>

lemma request_line_two_spaces:
  assumes "parse_request_line line p = (r, p')" and "length (filter (\<lambda>c. c = SP) line) < 2"
  shows "r = Error"
proof (cases r)
  case Incomplete
  with assms(1) parse_request_line_Incomplete [of line p p'] obtain m path v
    where "line = method_to_string m @ SP # path @ SP # v" by auto
  then have "length (filter (\<lambda>c. c = SP) line) \<ge> 2" by simp
  with assms(2) show ?thesis by simp
next
  case Complete
  with assms(1) show ?thesis
    by (auto simp: parse_request_line_def Let_def split: if_splits option.splits)
qed

lemma feed_run_inv:
  "parser_inv p \<Longrightarrow> parser_inv (fold (\<lambda>d q. snd (feed d q)) ds p)"
  by (induction ds arbitrary: p) (simp_all add: feed_inv)

lemma feed_run_max: "max_body_size (fold (\<lambda>d q. snd (feed d q)) ds p) = max_body_size p"
  by (induction ds arbitrary: p) (simp_all add: feed_max_body_size)

lemma feed_chunks_inv: "parser_inv p \<Longrightarrow> parser_inv (snd (feed_chunks cs p))"
proof (induction cs arbitrary: p)
  case (Cons c cs)
  then show ?case using feed_inv [OF Cons.prems, of c] by (auto split: prod.split)
qed simp

lemma inv_body_bound: "parser_inv p \<Longrightarrow> length (req_body (p_request p)) \<le> max_body_size p"
  by (auto simp: parser_inv_def empty_request_def split: PState.splits)

section \<open>Properties\<close>

text \<open>
  C30 Bounded memory: after any number of \<open>feed\<close> calls on any input, also after errors, a
  parser holds at most 100 headers of at most 8 KiB each, a path of at most 8 KiB, a body of
  at most the configured size, and no unfinished line.
\<close>

theorem parser_memory_bounded:
  "let p = fold (\<lambda>d q. snd (feed d q)) ds (set_max_body_size n new_parser); r = p_request p
   in hm_size (req_headers r) \<le> 100 \<and>
      list_all (\<lambda>(k, v). length k + length v \<le> 8192) (req_headers r) \<and>
      length (req_path r) \<le> 8192 \<and> length (req_body r) \<le> n \<and> line_buf p = []"
proof -
  let ?p = "fold (\<lambda>d q. snd (feed d q)) ds (set_max_body_size n new_parser)"
  have inv: "parser_inv ?p" by (rule feed_run_inv [OF new_parser_inv])
  have mx: "max_body_size ?p = n" by (simp add: feed_run_max set_max_body_size_def)
  have "headers_ok (req_headers (p_request ?p))" "line_buf ?p = []"
      "length (req_path (p_request ?p)) \<le> 8192"
    using inv by (simp_all add: parser_inv_def max_defs)
  with inv_body_bound [OF inv] mx show ?thesis
    by (auto simp: Let_def headers_ok_def max_defs list_all_iff)
qed

text \<open>
  C31 A request reported complete without an error message is well formed: a known method, a
  supported version, and a body of exactly the declared length.
\<close>

theorem complete_request_sound:
  assumes "feed_chunks cs (set_max_body_size n new_parser) = (Complete, p)" and "p_error p = []"
  shows "req_method (p_request p) \<noteq> UNKNOWN \<and>
    (req_version (p_request p) = ''HTTP/1.1'' \<or> req_version (p_request p) = ''HTTP/1.0'') \<and>
    length (req_body (p_request p)) = content_length (p_request p)"
  using feed_chunks_inv [OF new_parser_inv, of cs n] feed_chunks_final_state [OF assms(1)] assms
  by (simp add: parser_inv_def known_version_def)

theorem complete_request_sound_witness:
  "length (req_body (p_request (snd (feed_chunks
     [''GET /a HTTP/1.1'' @ CRLF, ''Content-Length: 2'' @ CRLF @ CRLF, ''o'', ''k'']
     (set_max_body_size 10 new_parser))))) = 2"
proof -
  let ?cs = "[''GET /a HTTP/1.1'' @ CRLF, ''Content-Length: 2'' @ CRLF @ CRLF, ''o'', ''k'']"
  let ?p = "snd (feed_chunks ?cs (set_max_body_size 10 new_parser))"
  have 1: "feed_chunks ?cs (set_max_body_size 10 new_parser) = (Complete, ?p)" by code_simp
  have 2: "p_error ?p = []" by code_simp
  have 3: "content_length (p_request ?p) = 2" by code_simp
  show ?thesis using complete_request_sound [OF 1 2] 3 by simp
qed

text \<open>
  C22 Parsing is the inverse of rendering: a request written in the wire format, within the
  limits of the parser and with a truthful \<open>Content-Length\<close>, is reported complete with exactly
  the method, path, version, headers and body that were written, whatever follows it in the
  same read.
\<close>

theorem parse_rendered_request:
  assumes "request_ok m path v hs"
    and "content_length (empty_request\<lparr>req_headers := stored_headers hs []\<rparr>) = length body"
    and "length body \<le> n"
  shows "feed (render_request m path v hs body @ rest) (set_max_body_size n new_parser) =
    (Complete, (set_max_body_size n new_parser)
       \<lparr>p_request := \<lparr>req_method = m, req_path = path, req_version = v,
                      req_headers = stored_headers hs [], req_body = body\<rparr>,
        p_state := Completed\<rparr>)"
  using feed_render_request [OF assms(1), of "set_max_body_size n new_parser" body rest] assms(2,3)
  by (simp add: set_max_body_size_def new_parser_def)

theorem parse_rendered_request_witness:
  "fst (feed (render_request POST ''/submit'' ''HTTP/1.1''
      [(''Host'', ''a''), (''Content-Length'', ''2'')] ''ok'' @ ''junk'')
     (set_max_body_size 10 new_parser)) = Complete"
proof -
  let ?hs = "[(''Host'', ''a''), (''Content-Length'', ''2'')]"
  have 1: "request_ok POST ''/submit'' ''HTTP/1.1'' ?hs" by code_simp
  have 2: "content_length (empty_request\<lparr>req_headers := stored_headers ?hs []\<rparr>) = length ''ok''"
    by code_simp
  have 3: "length ''ok'' \<le> 10" by simp
  show ?thesis unfolding parse_rendered_request [OF 1 2 3] by simp
qed

text \<open>
  C29 Independence of the chunking: when every chunk ends at a line end or in the body, feeding
  the chunks one by one gives the same answer and the same state as feeding their
  concatenation at once.
\<close>

theorem chunking_irrelevant:
  assumes "chunks_aligned cs (set_max_body_size n new_parser)"
  shows "feed_chunks cs (set_max_body_size n new_parser) =
    feed (concat cs) (set_max_body_size n new_parser)"
  using assms feed_chunks_concat [OF new_parser_inv]
  by (simp add: set_max_body_size_def new_parser_def)

theorem chunking_irrelevant_witness:
  "feed_chunks [''PUT /a HTTP/1.0'' @ CRLF, ''Content-Length: 3'' @ CRLF @ CRLF @ ''a'', ''bc'']
     (set_max_body_size 10 new_parser) =
   feed (concat [''PUT /a HTTP/1.0'' @ CRLF, ''Content-Length: 3'' @ CRLF @ CRLF @ ''a'', ''bc''])
     (set_max_body_size 10 new_parser)"
proof -
  have "chunks_aligned
     [''PUT /a HTTP/1.0'' @ CRLF, ''Content-Length: 3'' @ CRLF @ CRLF @ ''a'', ''bc'']
     (set_max_body_size 10 new_parser)" by code_simp
  then show ?thesis by (rule chunking_irrelevant)
qed

text \<open>
  C32 The accepted request lines are exactly \<open>METHOD SP path SP version\<close> with one of the seven
  methods, a path without a space, one of the two versions and at most 8 KiB; on such a line
  the parser records the three parts and goes on to the headers.
\<close>

theorem request_line_accepted_iff:
  "parse_request_line line p = (Incomplete, p') \<longleftrightarrow>
     (\<exists>m path v. m \<noteq> UNKNOWN \<and> SP \<notin> set path \<and> (v = ''HTTP/1.1'' \<or> v = ''HTTP/1.0'') \<and>
        length line \<le> 8192 \<and> line = method_to_string m @ SP # path @ SP # v \<and>
        p' = p\<lparr>p_request := (p_request p)
                 \<lparr>req_method := m, req_path := path, req_version := v\<rparr>, p_state := Headers\<rparr>)"
proof
  assume l: "parse_request_line line p = (Incomplete, p')"
  then obtain m path v where g: "m \<noteq> UNKNOWN" "SP \<notin> set path" "known_version v"
      "length line \<le> MAX_REQUEST_LINE" "line = method_to_string m @ SP # path @ SP # v"
    using parse_request_line_Incomplete by blast
  then have "p' = p\<lparr>p_request := (p_request p)
      \<lparr>req_method := m, req_path := path, req_version := v\<rparr>, p_state := Headers\<rparr>"
    using l parse_request_line_good [of m path v p] by simp
  with g show "\<exists>m path v. m \<noteq> UNKNOWN \<and> SP \<notin> set path \<and> (v = ''HTTP/1.1'' \<or> v = ''HTTP/1.0'') \<and>
        length line \<le> 8192 \<and> line = method_to_string m @ SP # path @ SP # v \<and>
        p' = p\<lparr>p_request := (p_request p)
                 \<lparr>req_method := m, req_path := path, req_version := v\<rparr>, p_state := Headers\<rparr>"
    unfolding known_version_def max_defs by auto
next
  assume "\<exists>m path v. m \<noteq> UNKNOWN \<and> SP \<notin> set path \<and> (v = ''HTTP/1.1'' \<or> v = ''HTTP/1.0'') \<and>
        length line \<le> 8192 \<and> line = method_to_string m @ SP # path @ SP # v \<and>
        p' = p\<lparr>p_request := (p_request p)
                 \<lparr>req_method := m, req_path := path, req_version := v\<rparr>, p_state := Headers\<rparr>"
  then show "parse_request_line line p = (Incomplete, p')"
    using parse_request_line_good by (auto simp: known_version_def max_defs)
qed

text \<open>
  A read that ends inside the request line is answered with an error: any first fragment
  without a line end and with fewer than two spaces is parsed as a whole request line,
  although the rest of the line may still arrive. The incremental use that the header of the
  class and the unit tests \<open>HandlesPartialRequestLine\<close> and \<open>HandlesOneByteFeed\<close> describe
  does not work.
\<close>

lemma partial_request_line_rejected:
  assumes "LF \<notin> set d" and "d \<noteq> []" and "length d \<le> 8192"
    and "length (filter (\<lambda>c. c = SP) d) < 2"
  shows "fst (feed d new_parser) = Error"
proof -
  obtain r p2 where pl: "parse_request_line d (new_parser\<lparr>line_buf := d\<rparr>) = (r, p2)" by force
  then have "r = Error" using request_line_two_spaces assms(4) by blast
  with pl show ?thesis
    using feed_fragment [of d new_parser] assms
    by (simp add: parse_line_def max_defs new_parser_def)
qed

lemma partial_request_line_rejected_witness:
  "fst (feed ''GET /index'' new_parser) = Error"
  by (rule partial_request_line_rejected) simp_all

text \<open>
  A header line over the limit of 8 KiB is not reported as an error: \<open>feed\<close> answers
  \<open>Complete\<close>, with the error message set and the request as far as it was parsed.
\<close>

lemma oversized_line_reported_complete:
  assumes "LF \<notin> set l" and "8192 \<le> length l" and "p_state p = RequestLine \<or> p_state p = Headers"
  shows "feed (l @ LF # rest) p = (Complete, set_error ''header line too long'' p)"
  using assms by (subst feed_line) (auto simp: max_defs)

lemma oversized_line_reported_complete_witness:
  "feed (replicate 9000 CHR ''a'' @ LF # [])
     (new_parser\<lparr>p_state := Headers\<rparr>) =
   (Complete, set_error ''header line too long'' (new_parser\<lparr>p_state := Headers\<rparr>))"
  by (rule oversized_line_reported_complete) simp_all

text \<open>
  After an error the parser is not stuck in it: every later \<open>feed\<close>, whatever the input,
  answers \<open>Complete\<close> and hands out the request as it was when the error occurred, until
  \<open>reset\<close> is called.
\<close>

lemma feed_after_error_complete:
  assumes "feed d p = (Error, p')"
  shows "fst (feed d' p') = Complete \<and> p_request (snd (feed d' p')) = p_request p'"
proof -
  have "p_state p' = Completed" using feed_final_state [OF assms] by simp
  then show ?thesis using feed_Completed [of p' d' "fst (feed d' p')" "snd (feed d' p')"] by simp
qed

lemma feed_after_error_complete_witness:
  "fst (feed (''more'' @ CRLF) (snd (feed (''BREW / HTTP/1.1'' @ CRLF) new_parser))) = Complete"
proof -
  have "feed (''BREW / HTTP/1.1'' @ CRLF) new_parser =
      (Error, snd (feed (''BREW / HTTP/1.1'' @ CRLF) new_parser))" by code_simp
  then show ?thesis by (rule feed_after_error_complete [THEN conjunct1])
qed

text \<open>
  The declared body length: for a decimal \<open>Content-Length\<close> value it is that number when it
  fits 64 bits and 0 when it does not, so an out-of-range length is taken as no body.
\<close>

lemma content_length_decimal:
  "content_length (r\<lparr>req_headers := hm_set ''content-length'' (to_string n) h\<rparr>) =
     (if n < 2 ^ 64 then n else 0)"
proof -
  have "map tolower ''content-length'' = ''content-length''" by code_simp
  then show ?thesis
    by (simp add: content_length_def header_def from_chars_to_string)
qed

text \<open>
  Header lookup ignores the case of names on both sides: in the headers of a parsed request
  the value of a name, however it is spelled, is the one sent last under any spelling.
\<close>

lemma header_lookup_last_sent:
  "header (r\<lparr>req_headers := stored_headers hs []\<rparr>) name =
     map_of (rev (map (\<lambda>(n, v). (map tolower n, v)) hs)) (map tolower name)"
  by (simp add: header_def stored_headers_get to_lower_def)

end
