(* ===== verification/Http_Response_Spec.thy ===== *)
theory Http_Response_Spec
  imports Http_Response
begin

text \<open>
  What a client reads from a serialized response: the status line, the header lines, the
  declared length and the body bytes, for every order in which the header container is
  visited.
\<close>

section \<open>Reading a response head\<close>

text \<open>A client cuts the stream at CRLF and reads lines until the first empty one.\<close>

fun cut_crlf :: "string \<Rightarrow> (string \<times> string) option" where
  "cut_crlf [] = None"
| "cut_crlf (c # s) =
     (if c = CR \<and> s \<noteq> [] \<and> hd s = LF then Some ([], tl s)
      else map_option (\<lambda>(l, t). (c # l, t)) (cut_crlf s))"

lemma cut_crlf_length: "cut_crlf s = Some (l, t) \<Longrightarrow> length t < length s"
proof (induction s arbitrary: l)
  case (Cons c s)
  then show ?case by (cases s) (fastforce split: if_splits)+
qed simp

function read_head :: "string \<Rightarrow> (string list \<times> string) option" where
  "read_head s =
     (case cut_crlf s of
        None \<Rightarrow> None
      | Some (l, t) \<Rightarrow>
          if l = [] then Some ([], t) else map_option (\<lambda>(ls, b). (l # ls, b)) (read_head t))"
  by pat_completeness auto
termination
  by (relation "measure length") (auto simp: cut_crlf_length)

declare read_head.simps [simp del]

lemma cut_crlf_line [simp]: "CR \<notin> set l \<Longrightarrow> cut_crlf (l @ CR # LF # t) = Some (l, t)"
  by (induction l) auto

lemma read_head_blank: "read_head (CR # LF # b) = Some ([], b)"
  by (subst read_head.simps) simp

lemma read_head_line:
  "CR \<notin> set l \<Longrightarrow> l \<noteq> [] \<Longrightarrow>
   read_head (l @ CR # LF # t) = map_option (\<lambda>(ls, b). (l # ls, b)) (read_head t)"
  by (subst read_head.simps) simp

lemma read_head_lines:
  "\<forall>l \<in> set ls. CR \<notin> set l \<and> l \<noteq> [] \<Longrightarrow>
   read_head (concat (map (\<lambda>l. l @ CRLF) ls) @ CRLF @ b) = Some (ls, b)"
  by (induction ls) (simp_all add: read_head_blank read_head_line)

text \<open>The body length a head declares: the value of its first \<open>content-length\<close> line.\<close>

definition header_name :: "string \<Rightarrow> string" where
  "header_name l = takeWhile (\<lambda>c. c \<noteq> CHR '':'') l"

definition declared_length :: "string list \<Rightarrow> nat option" where
  "declared_length ls =
     (case filter (\<lambda>l. header_name l = ''content-length'') ls of
        [] \<Rightarrow> None
      | l # _ \<Rightarrow> Some (dec_value (drop (length ''content-length: '') l)))"

section \<open>What \<open>serialize\<close> writes\<close>

text \<open>No header of the response carries a carriage return, and no name a colon.\<close>

definition headers_clean :: "header_map \<Rightarrow> bool" where
  "headers_clean h \<longleftrightarrow> hm_wf h \<and>
     list_all (\<lambda>(n, v). CR \<notin> set n \<and> CR \<notin> set v \<and> CHR '':'' \<notin> set n) h"

definition status_line :: "Status \<Rightarrow> string" where
  "status_line s = ''HTTP/1.1 '' @ to_string (status_code s) @ [SP] @ status_to_reason s"

definition auto_length :: "HttpResponse \<Rightarrow> string list" where
  "auto_length r =
     (if resp_body r \<noteq> [] \<and> hm_get (resp_headers r) ''content-length'' = None \<and> \<not> has_sendfile r
      then [header_line (''content-length'', to_string (length (resp_body r)))] else [])"

lemma serialize_lines:
  "serialize ord r =
     concat (map (\<lambda>l. l @ CRLF)
       (status_line (status r) # map header_line (ord (resp_headers r)) @ auto_length r)) @
     CRLF @ (if has_sendfile r then [] else resp_body r)"
  by (simp add: serialize_def status_line_def auto_length_def header_line_def comp_def Let_def)

lemma status_line_clean: "CR \<notin> set (status_line s) \<and> status_line s \<noteq> []"
  by (cases s) (auto simp: status_line_def)

lemma header_line_clean:
  "headers_clean h \<Longrightarrow> iteration_order ord \<Longrightarrow> nv \<in> set (ord h) \<Longrightarrow>
   CR \<notin> set (header_line nv) \<and> header_line nv \<noteq> []"
  by (auto simp: headers_clean_def list_all_iff header_line_def iteration_order_set)

lemma read_head_serialize:
  assumes "iteration_order ord" and "headers_clean (resp_headers r)"
  shows "read_head (serialize ord r) =
    Some (status_line (status r) # map header_line (ord (resp_headers r)) @ auto_length r,
          if has_sendfile r then [] else resp_body r)"
proof -
  let ?ls = "status_line (status r) # map header_line (ord (resp_headers r)) @ auto_length r"
  have "\<forall>l \<in> set ?ls. CR \<notin> set l \<and> l \<noteq> []"
    using header_line_clean [OF assms(2,1)] status_line_clean
    by (auto simp: auto_length_def header_line_def)
  from read_head_lines [OF this] show ?thesis by (simp add: serialize_lines)
qed

lemma header_name_line [simp]: "CHR '':'' \<notin> set n \<Longrightarrow> header_name (header_line (n, v)) = n"
  by (induction n) (auto simp: header_name_def header_line_def)

lemma status_line_name: "header_name (status_line s) \<noteq> ''content-length''"
  by (simp add: header_name_def status_line_def)

lemma filter_key_unique:
  "distinct (map fst h) \<Longrightarrow>
   filter (\<lambda>nv. fst nv = k) h = (case map_of h k of None \<Rightarrow> [] | Some v \<Rightarrow> [(k, v)])"
proof (induction h)
  case (Cons nv h)
  then show ?case
    by (cases nv) (auto simp: map_of_eq_None_iff filter_empty_conv image_iff split: option.splits)
qed simp

lemma content_length_lines:
  assumes "iteration_order ord" and "headers_clean h"
  shows "filter (\<lambda>l. header_name l = ''content-length'') (map header_line (ord h)) =
    (case hm_get h ''content-length'' of
       None \<Rightarrow> [] | Some v \<Rightarrow> [header_line (''content-length'', v)])"
proof -
  have d: "distinct (map fst (ord h))"
    using assms iteration_order_wf by (auto simp: headers_clean_def hm_wf_def)
  have n: "nv \<in> set (ord h) \<Longrightarrow> header_name (header_line nv) = fst nv" for nv
    using assms by (cases nv) (auto simp: headers_clean_def list_all_iff iteration_order_set)
  have "filter (\<lambda>l. header_name l = ''content-length'') (map header_line (ord h)) =
      map header_line (filter (\<lambda>nv. fst nv = ''content-length'') (ord h))"
    using n by (auto simp: filter_map comp_def cong: filter_cong)
  also have "\<dots> = (case map_of (ord h) ''content-length'' of
       None \<Rightarrow> [] | Some v \<Rightarrow> [header_line (''content-length'', v)])"
    by (simp add: filter_key_unique [OF d] split: option.split)
  also have "map_of (ord h) ''content-length'' = hm_get h ''content-length''"
    using iteration_order_get [OF assms(1)] assms(2) by (simp add: headers_clean_def hm_get_def)
  finally show ?thesis .
qed

lemma declared_length_serialize:
  assumes "iteration_order ord" and "headers_clean (resp_headers r)"
  shows "declared_length (status_line (status r) # map header_line (ord (resp_headers r)) @ auto_length r) =
    (case hm_get (resp_headers r) ''content-length'' of
       Some v \<Rightarrow> Some (dec_value v)
     | None \<Rightarrow> if resp_body r \<noteq> [] \<and> \<not> has_sendfile r
               then Some (length (resp_body r)) else None)"
  using content_length_lines [OF assms] status_line_name [of "status r"]
  by (auto simp: declared_length_def auto_length_def header_line_def header_name_def split: option.split)

section \<open>The builders\<close>

lemma list_all_hm_set:
  "list_all P h \<Longrightarrow> P (k, v) \<Longrightarrow> list_all P (hm_set k v h)"
  unfolding hm_set_def by (induction h) auto

lemma headers_clean_set [simp]:
  "headers_clean h \<Longrightarrow> CR \<notin> set n \<Longrightarrow> CR \<notin> set v \<Longrightarrow> CHR '':'' \<notin> set n \<Longrightarrow>
   headers_clean (hm_set n v h)"
  by (simp add: headers_clean_def list_all_hm_set)

lemma headers_clean_Nil [simp]: "headers_clean []"
  by (simp add: headers_clean_def hm_wf_def)

lemma reason_clean: "CR \<notin> set (status_to_reason c)"
  by (cases c) simp_all

lemma make_error_sel [simp]:
  "status (make_error c d) = c"
  "resp_headers (make_error c d) = hm_set ''content-type'' ''text/plain'' []"
  "sendfile_fd (make_error c d) = -1"
  "resp_body (make_error c d) = to_string (status_code c) @ SP # status_to_reason c @
     (if d = [] then [] else LF # d)"
  by (simp_all add: http_defs Let_def)

lemma make_error_clean [simp]: "headers_clean (resp_headers (make_error c d))"
  by simp

section \<open>Properties\<close>

text \<open>
  C33 Serialization loses nothing: a client that cuts the serialized response at CRLF reads the
  status line, one line per header, the automatic \<open>content-length\<close> line where the code adds
  it, and after the blank line exactly the body (nothing when a file follows).
\<close>

theorem serialize_readable:
  assumes "iteration_order ord" and "headers_clean (resp_headers r)"
  shows "read_head (serialize ord r) =
    Some (status_line (status r) # map header_line (ord (resp_headers r)) @ auto_length r,
          if has_sendfile r then [] else resp_body r)"
  by (rule read_head_serialize [OF assms])

theorem serialize_readable_witness:
  "read_head (serialize rev (set_header ''X-A'' ''1'' (set_body ''hi'' ''text/plain'' new_response))) =
    Some ([''HTTP/1.1 200 OK'', ''x-a: 1'', ''content-type: text/plain'', ''content-length: 2''], ''hi'')"
proof -
  let ?r = "set_header ''X-A'' ''1'' (set_body ''hi'' ''text/plain'' new_response)"
  have 1: "iteration_order rev" by simp
  have 2: "headers_clean (resp_headers ?r)" by code_simp
  have 3: "status_line (status ?r) # map header_line (rev (resp_headers ?r)) @ auto_length ?r =
      [''HTTP/1.1 200 OK'', ''x-a: 1'', ''content-type: text/plain'', ''content-length: 2'']" by code_simp
  have 4: "\<not> has_sendfile ?r" "resp_body ?r = ''hi''" by code_simp+
  show ?thesis unfolding serialize_readable [OF 1 2] 3 using 4 by simp
qed

text \<open>
  C34 Message framing: when the body is sent inline, is not empty and the handler set no length
  of its own, the one \<open>content-length\<close> line of the head declares exactly the number of bytes
  after the blank line.
\<close>

theorem serialize_framing:
  assumes "iteration_order ord" and "headers_clean (resp_headers r)"
    and "\<not> has_sendfile r" and "resp_body r \<noteq> []"
    and "hm_get (resp_headers r) ''content-length'' = None"
  shows "\<exists>ls b. read_head (serialize ord r) = Some (ls, b) \<and> b = resp_body r \<and>
    declared_length ls = Some (length b)"
  using read_head_serialize [OF assms(1,2)] declared_length_serialize [OF assms(1,2)] assms(3-5)
  by simp

theorem serialize_framing_witness:
  "\<exists>ls b. read_head (serialize rev (set_body ''hello'' ''text/plain'' new_response)) = Some (ls, b) \<and>
    b = ''hello'' \<and> declared_length ls = Some (length b)"
proof -
  let ?r = "set_body ''hello'' ''text/plain'' new_response"
  have h: "iteration_order rev" "headers_clean (resp_headers ?r)" "\<not> has_sendfile ?r"
    "hm_get (resp_headers ?r) ''content-length'' = None" "resp_body ?r = ''hello''"
    by (simp, code_simp+)
  then show ?thesis using serialize_framing [of rev ?r] by simp
qed

text \<open>
  Every error page is framed and readable, whatever its code and its detail text: status
  line, content type, the length of the page, and the page with the code, the reason and the
  detail.
\<close>

lemma error_page_framed:
  assumes "iteration_order ord"
  shows "\<exists>ls. read_head (serialize ord (make_error code detail)) =
      Some (status_line code # ls,
            to_string (status_code code) @ SP # status_to_reason code @
            (if detail = [] then [] else LF # detail)) \<and>
    declared_length (status_line code # ls) = Some (length (resp_body (make_error code detail)))"
  using read_head_serialize [OF assms make_error_clean, of code detail]
    declared_length_serialize [OF assms make_error_clean, of code detail]
  by (simp add: has_sendfile_def hm_simps)

lemma error_page_framed_witness:
  "\<exists>ls. read_head (serialize (\<lambda>m. m) (make_error NotFound ''gone'')) =
      Some (status_line NotFound # ls, ''404 Not Found'' @ LF # ''gone'') \<and>
    declared_length (status_line NotFound # ls) =
      Some (length (''404 Not Found'' @ LF # ''gone''))"
proof -
  have 1: "to_string 404 = ''404''" by code_simp
  show ?thesis using error_page_framed [OF iteration_order_id, of NotFound "''gone''"]
    by (simp add: 1)
qed

text \<open>
  A redirect declares no length: its head has no \<open>content-length\<close> line and no body follows,
  so on a connection that stays open nothing tells the client where the message ends.
\<close>

lemma redirect_declares_no_length:
  assumes "iteration_order ord" and "CR \<notin> set location"
  shows "\<exists>ls. read_head (serialize ord (make_redirect location)) = Some (ls, []) \<and>
    declared_length ls = None"
proof -
  have c: "headers_clean (resp_headers (make_redirect location))"
    using assms(2) by (simp add: http_defs)
  show ?thesis
    using read_head_serialize [OF assms(1) c] declared_length_serialize [OF assms(1) c]
    by (simp add: http_defs hm_simps)
qed

lemma redirect_declares_no_length_witness:
  "\<exists>ls. read_head (serialize rev (make_redirect ''/new'')) = Some (ls, []) \<and>
    declared_length ls = None"
  by (rule redirect_declares_no_length) simp_all

text \<open>
  Ownership of the file descriptor is handed out once: \<open>take_sendfile_fd\<close> returns the
  descriptor, the response then owns none, a second call returns -1, and the declared size
  stays. The response then counts as one with an inline body, and \<open>serialize\<close> appends it.
\<close>

lemma sendfile_fd_taken_once:
  "let (fd, r1) = take_sendfile_fd (set_sendfile f n ct r)
   in fd = f \<and> \<not> has_sendfile r1 \<and> sendfile_size r1 = n \<and> fst (take_sendfile_fd r1) = -1 \<and>
      hm_get (resp_headers r1) ''content-length'' = Some (to_string n) \<and>
      (\<exists>head. serialize ord r1 = head @ CRLF @ resp_body r)"
  unfolding Let_def serialize_lines by (simp add: http_defs hm_simps)

end
