(* ===== verification/Static_Handler_Spec.thy ===== *)
theory Static_Handler_Spec
  imports Static_Handler Http_Response_Spec
begin

text \<open>
  The static file handler: every file it opens lies below the root directory, every error
  branch answers with its page, the file descriptors it opens are closed or handed to the
  response. The calls of the operating system are arbitrary; \<open>demo_fs\<close> is a concrete one
  for the witnesses.
\<close>

section \<open>Path operations on examples\<close>

lemma path_examples:
  "path_of ''/a//b/'' = Path True [''a'', ''b'', []]"
  "lexically_normal (path_append (path_of ''/var/www'') (path_of ''../../etc/passwd'')) =
     path_of ''/etc/passwd''"
  "lexically_normal (path_of ''a/./b/..'') = path_of ''a/''"
  "lexically_normal (path_of ''../a/..'') = path_of ''..''"
  "extension (path_of ''/x/a.tar.gz'') = ''.gz''"
  "extension (path_of ''/x/.bashrc'') = []"
  by code_simp+

section \<open>Confinement\<close>

lemma resolve_within: "resolve fs h u w \<noteq> empty_path \<Longrightarrow> within_root (root_dir h) (resolve fs h u w)"
  by (auto simp: resolve_def Let_def split: option.splits if_splits)

lemma take_prefix_butlast:
  assumes "take n xs = ys" and "length ys = n" and "[] \<notin> set ys"
  shows "take n (drop_trailing xs @ zs) = ys"
proof (cases "xs \<noteq> [] \<and> last xs = []")
  case True
  then obtain us where xs: "xs = us @ [[]]" by (metis append_butlast_last_id)
  have "n \<noteq> length xs" using assms xs by auto
  with assms(1,2) xs have "n \<le> length us" by auto
  with assms(1) xs show ?thesis by (simp add: drop_trailing_def)
next
  case False
  with assms show ?thesis by (auto simp: drop_trailing_def)
qed

lemma elements_append:
  "\<not> absolute q \<Longrightarrow> names q \<noteq> [] \<Longrightarrow>
   elements (path_append p q) = drop_trailing (elements p) @ names q"
  by (auto simp: path_append_def elements_def drop_trailing_def)

lemma within_root_append:
  assumes "within_root root p" and "[] \<notin> set (names root)" and "\<not> absolute q" and "names q \<noteq> []"
  shows "within_root root (path_append p q)"
proof -
  have "[] \<notin> set (elements root)" using assms(2) by (auto simp: elements_def)
  with assms(1) have "take (length (elements root)) (drop_trailing (elements p) @ names q) = elements root"
    unfolding within_root_def by (intro take_prefix_butlast) simp_all
  then show ?thesis by (simp only: within_root_def elements_append [OF assms(3,4)])
qed


lemma index_html_path: "path_of ''index.html'' = Path False [''index.html'']"
  by code_simp

text \<open>
  Every answer of the handler is an error page with the system unchanged, or what
  \<open>serve_file\<close> makes of a path within the root.
\<close>

lemma handle_cases:
  assumes "handle fs h req resp w = (Ret r, w')"
  shows "(\<exists>c d. r = make_error c d) \<and> w' = w \<or>
    (\<exists>p. ([] \<notin> set (names (root_dir h)) \<longrightarrow> within_root (root_dir h) p) \<and>
         serve_file fs p resp w = (r, w'))"
proof -
  let ?p = "resolve fs h (req_path req) w"
  show ?thesis
  proof (cases "?p = empty_path")
    case True
    with assms show ?thesis by (auto simp: handle_def Let_def)
  next
    case False
    have "within_root (root_dir h) ?p" by (rule resolve_within [OF False])
    moreover have "within_root (root_dir h) (path_append ?p (path_of ''index.html''))"
      if "[] \<notin> set (names (root_dir h))"
      unfolding index_html_path by (rule within_root_append [OF calculation that]) simp_all
    ultimately show ?thesis
      using assms False
      by (auto simp: handle_def Let_def split: res.splits if_splits prod.splits)
  qed
qed

lemma handle_Throw: "handle fs h req resp w = (Throw e, w') \<Longrightarrow> w' = w"
  by (auto simp: handle_def Let_def split: res.splits if_splits prod.splits)

section \<open>File descriptors\<close>

text \<open>
  What POSIX documents of \<open>open\<close> and \<open>close\<close>, for a set \<open>fds w\<close> of open descriptors: a
  successful \<open>open\<close> adds a descriptor that was not open, a failed one changes nothing, and
  \<open>close\<close> removes the descriptor.
\<close>

definition fd_laws :: "'w file_system \<Rightarrow> ('w \<Rightarrow> int set) \<Rightarrow> bool" where
  "fd_laws fs fds \<longleftrightarrow>
     (\<forall>p w f w1. fs_open fs p w = (f, w1) \<longrightarrow>
        (if f < 0 then fds w1 = fds w else f \<notin> fds w \<and> fds w1 = insert f (fds w))) \<and>
     (\<forall>f w. fds (fs_close fs f w) = fds w - {f})"

lemma set_sendfile_sel [simp]:
  "sendfile_fd (set_sendfile f n ct r) = f" "sendfile_size (set_sendfile f n ct r) = n"
  "status (set_sendfile f n ct r) = status r"
  by (simp_all add: http_defs)

lemma serve_file_fds:
  assumes "fd_laws fs fds" and "serve_file fs p resp w = (r, w')"
  shows "fds w' = fds w \<union> (if has_sendfile r then {sendfile_fd r} else {}) \<and>
    (has_sendfile r \<longrightarrow> sendfile_fd r \<notin> fds w)"
proof -
  obtain f w1 where o: "fs_open fs p w = (f, w1)" by force
  show ?thesis
  proof (cases "f < 0")
    case True
    with assms o show ?thesis by (auto simp: serve_file_def fd_laws_def has_sendfile_def)
  next
    case False
    with assms(1) o have n: "f \<notin> fds w" "fds w1 = insert f (fds w)" by (auto simp: fd_laws_def)
    show ?thesis
    proof (cases "fs_fstat fs f w1")
      case None
      with assms False o have "r = make_error InternalServerError []" "w' = fs_close fs f w1"
        by (auto simp: serve_file_def)
      with assms(1) n show ?thesis by (auto simp: fd_laws_def has_sendfile_def)
    next
      case (Some sz)
      with assms False o have "sendfile_fd r = f" "w' = w1"
        by (auto simp: serve_file_def)
      with n False show ?thesis by (simp add: has_sendfile_def)
    qed
  qed
qed

section \<open>A concrete system for the witnesses\<close>

text \<open>
  A system state lists the open descriptors with their paths; names with an extension are
  regular files of five bytes, the others directories; \<open>canon\<close> resolves symbolic links.
\<close>

definition demo_fs :: "(path \<Rightarrow> path option) \<Rightarrow> (int \<times> path) list file_system" where
  "demo_fs canon =
     \<lparr>canonical = (\<lambda>p w. Ret p), weakly_canonical = (\<lambda>p w. canon p),
      fs_exists = (\<lambda>p w. Ret True),
      is_directory = (\<lambda>p w. Ret (extension p = [])),
      is_regular_file = (\<lambda>p w. Ret (extension p \<noteq> [])),
      fs_open = (\<lambda>p w. let f = 1 + foldr max (map fst w) 2 in (f, (f, p) # w)),
      fs_fstat = (\<lambda>f w. Some 5),
      fs_close = (\<lambda>f w. filter (\<lambda>e. fst e \<noteq> f) w)\<rparr>"

definition demo_handler :: StaticFileHandler where
  "demo_handler = \<lparr>root_dir = path_of ''/www'', strip_prefix = ''/''\<rparr>"

definition demo_get :: "string \<Rightarrow> HttpRequest" where
  "demo_get p = empty_request\<lparr>req_method := GET, req_path := p\<rparr>"

lemma foldr_max_bound: "\<forall>x \<in> set xs. x < 1 + foldr max xs (c::int)"
  by (induction xs) auto

lemma demo_fd_laws: "fd_laws (demo_fs canon) (\<lambda>w. fst ` set w)"
proof -
  have new: "\<forall>e \<in> set w. fst e < 1 + foldr max (map fst w) 2" for w :: "(int \<times> path) list"
    using foldr_max_bound [of "map fst w" 2] by auto
  have pos: "0 \<le> foldr max xs (2::int)" for xs by (induction xs) auto
  have "1 + foldr max (map fst w) 2 \<notin> fst ` set w" for w :: "(int \<times> path) list"
    using new [of w] by (metis imageE less_irrefl)
  moreover have "\<not> 1 + foldr max (map fst w) 2 < 0" for w :: "(int \<times> path) list"
    using pos [of "map fst w"] by simp
  ultimately show ?thesis by (auto simp: fd_laws_def demo_fs_def Let_def)
qed

section \<open>Properties\<close>

text \<open>
  C24 Confinement: whatever the request path, every answer of the handler is an error page with
  the system untouched, or comes from opening one path whose components begin with those of
  the root directory (canonical, so without empty components).
\<close>

theorem static_files_within_root:
  assumes "handle fs h req resp w = (Ret r, w')" and "[] \<notin> set (names (root_dir h))"
  shows "(\<exists>code detail. r = make_error code detail) \<and> w' = w \<or>
    (\<exists>p. within_root (root_dir h) p \<and> serve_file fs p resp w = (r, w'))"
  using handle_cases [OF assms(1)] assms(2) by blast

theorem static_files_within_root_witness:
  "\<exists>p. within_root (path_of ''/www'') p \<and>
     serve_file (demo_fs Some) p new_response [] =
       (fst (serve_file (demo_fs Some) (path_of ''/www/a.css'') new_response []), [(3, path_of ''/www/a.css'')])"
proof -
  let ?r = "fst (serve_file (demo_fs Some) (path_of ''/www/a.css'') new_response [])"
  have 1: "handle (demo_fs Some) demo_handler (demo_get ''/a.css'') new_response [] =
      (Ret ?r, [(3, path_of ''/www/a.css'')])" by code_simp
  have 2: "[] \<notin> set (names (root_dir demo_handler))" by code_simp
  have "root_dir demo_handler = path_of ''/www''" by (simp add: demo_handler_def)
  with static_files_within_root [OF 1 2] show ?thesis by auto
qed

text \<open>
  Traversal is refused: when the operating system resolves the normalised candidate to a path
  outside the root, or cannot resolve it, the answer is the 403 page and no file is opened.
\<close>

lemma traversal_forbidden:
  assumes "starts_with (req_path req) (strip_prefix h)"
    and "\<forall>real. weakly_canonical fs
           (lexically_normal (path_append (root_dir h)
              (path_of (drop (length (strip_prefix h)) (req_path req))))) w = Some real \<longrightarrow>
           \<not> within_root (root_dir h) real"
  shows "handle fs h req resp w = (Ret (make_error Forbidden ''access denied''), w)"
  using assms by (auto simp: handle_def resolve_def Let_def split: option.splits)

lemma traversal_forbidden_witness:
  "handle (demo_fs Some) demo_handler (demo_get ''/../../etc/passwd'') new_response [] =
     (Ret (make_error Forbidden ''access denied''), [])"
proof (rule traversal_forbidden)
  show "starts_with (req_path (demo_get ''/../../etc/passwd'')) (strip_prefix demo_handler)"
    by code_simp
  have "lexically_normal (path_append (root_dir demo_handler)
      (path_of (drop (length (strip_prefix demo_handler)) (req_path (demo_get ''/../../etc/passwd''))))) =
      path_of ''/etc/passwd''" by code_simp
  moreover have "\<not> within_root (root_dir demo_handler) (path_of ''/etc/passwd'')" by code_simp
  ultimately show "\<forall>real. weakly_canonical (demo_fs Some)
      (lexically_normal (path_append (root_dir demo_handler)
        (path_of (drop (length (strip_prefix demo_handler)) (req_path (demo_get ''/../../etc/passwd'')))))) []
      = Some real \<longrightarrow> \<not> within_root (root_dir demo_handler) real"
    by (simp add: demo_fs_def)
qed

text \<open>
  A regular file is served whole: status 200, the type of its extension, its size as the
  declared length, and its open descriptor for the transfer.
\<close>

lemma regular_file_served:
  assumes "resolve fs h (req_path req) w = p" and "p \<noteq> empty_path"
    and "fs_exists fs p w = Ret True" and "is_directory fs p w = Ret False"
    and "is_regular_file fs p w = Ret True"
    and "fs_open fs p w = (f, w1)" and "0 \<le> f"
    and "fs_fstat fs f w1 = Some n" and "0 \<le> n" and "n < 2 ^ 63"
  shows "\<exists>r. handle fs h req new_response w = (Ret r, w1) \<and> status r = Ok \<and>
    sendfile_fd r = f \<and> sendfile_size r = nat n \<and>
    hm_get (resp_headers r) ''content-type'' = Some (mime_type (extension p)) \<and>
    hm_get (resp_headers r) ''content-length'' = Some (to_string (nat n))"
  using assms
  by (simp add: handle_def Let_def serve_file_def to_size_t_def http_defs hm_simps)

lemma regular_file_served_witness:
  "\<exists>r. handle (demo_fs Some) demo_handler (demo_get ''/a.css'') new_response [] =
      (Ret r, [(3, path_of ''/www/a.css'')]) \<and> status r = Ok \<and>
    sendfile_fd r = 3 \<and> sendfile_size r = nat 5 \<and>
    hm_get (resp_headers r) ''content-type'' = Some (mime_type (extension (path_of ''/www/a.css''))) \<and>
    hm_get (resp_headers r) ''content-length'' = Some (to_string (nat 5))"
proof (rule regular_file_served)
  show "resolve (demo_fs Some) demo_handler (req_path (demo_get ''/a.css'')) [] = path_of ''/www/a.css''"
    by code_simp
  show "fs_open (demo_fs Some) (path_of ''/www/a.css'') [] = (3, [(3, path_of ''/www/a.css'')])"
    by code_simp
qed (code_simp+)

text \<open>
  No descriptor is lost: after the handler has answered, the descriptors open are those that
  were open before, and the one the response owns, which is new; after an exception of a
  file query they are unchanged.
\<close>

lemma static_handler_fds:
  assumes "fd_laws fs fds" and "\<not> has_sendfile resp"
    and "handle fs h req resp w = (res, w')"
  shows "case res of
      Ret r \<Rightarrow> fds w' = fds w \<union> (if has_sendfile r then {sendfile_fd r} else {}) \<and>
               (has_sendfile r \<longrightarrow> sendfile_fd r \<notin> fds w)
    | _ \<Rightarrow> fds w' = fds w"
proof (cases res)
  case (Ret r)
  with handle_cases [of fs h req resp w r w'] assms serve_file_fds [OF assms(1)]
  show ?thesis by (auto simp: has_sendfile_def)
next
  case (Throw e)
  with assms(3) show ?thesis by (auto dest: handle_Throw)
next
  case Blocked
  with assms(3) have "w' = w"
    by (auto simp: handle_def Let_def split: res.splits if_splits prod.splits)
  with Blocked show ?thesis by simp
qed

lemma static_handler_fds_witness:
  "fst ` set [(3::int, path_of ''/www/a.css'')] = fst ` set [] \<union> {3}"
proof -
  let ?r = "fst (serve_file (demo_fs Some) (path_of ''/www/a.css'') new_response [])"
  have 1: "handle (demo_fs Some) demo_handler (demo_get ''/a.css'') new_response [] =
      (Ret ?r, [(3, path_of ''/www/a.css'')])" by code_simp
  have 2: "\<not> has_sendfile new_response" by code_simp
  have 3: "has_sendfile ?r" "sendfile_fd ?r = 3" by code_simp+
  show ?thesis using static_handler_fds [OF demo_fd_laws [of Some] 2 1] 3 by simp
qed

text \<open>
  The check against the root is not repeated for the directory index: when the resolved path
  is a directory, its \<open>index.html\<close> is served whatever \<open>weakly_canonical\<close> says of that path.
  In the witness it is a symbolic link to a file outside the root, which is opened.
\<close>

lemma index_html_not_rechecked:
  assumes "resolve fs h (req_path req) w = p" and "p \<noteq> empty_path"
    and "fs_exists fs p w = Ret True" and "is_directory fs p w = Ret True"
    and "fs_exists fs (path_append p (path_of ''index.html'')) w = Ret True"
    and "is_regular_file fs (path_append p (path_of ''index.html'')) w = Ret True"
  shows "handle fs h req resp w =
    (case serve_file fs (path_append p (path_of ''index.html'')) resp w of (r, w1) \<Rightarrow> (Ret r, w1))"
  using assms by (simp add: handle_def Let_def)

lemma index_html_not_rechecked_witness:
  "let canon = (\<lambda>p. if p = path_of ''/www/d/index.html'' then Some (path_of ''/etc/passwd'') else Some p)
   in snd (handle (demo_fs canon) demo_handler (demo_get ''/d'') new_response []) =
        [(3, path_of ''/www/d/index.html'')] \<and>
      canon (path_of ''/www/d/index.html'') = Some (path_of ''/etc/passwd'') \<and>
      \<not> within_root (root_dir demo_handler) (path_of ''/etc/passwd'')"
proof -
  let ?canon = "\<lambda>p. if p = path_of ''/www/d/index.html'' then Some (path_of ''/etc/passwd'') else Some p"
  have "handle (demo_fs ?canon) demo_handler (demo_get ''/d'') new_response [] =
    (case serve_file (demo_fs ?canon) (path_append (path_of ''/www/d'') (path_of ''index.html''))
       new_response [] of (r, w1) \<Rightarrow> (Ret r, w1))"
  proof (rule index_html_not_rechecked)
    show "resolve (demo_fs ?canon) demo_handler (req_path (demo_get ''/d'')) [] = path_of ''/www/d''"
      by code_simp
  qed (code_simp+)
  moreover have "snd (case serve_file (demo_fs ?canon)
      (path_append (path_of ''/www/d'') (path_of ''index.html'')) new_response [] of (r, w1) \<Rightarrow> (Ret r, w1)) =
      [(3, path_of ''/www/d/index.html'')]" by code_simp
  moreover have "\<not> within_root (root_dir demo_handler) (path_of ''/etc/passwd'')" by code_simp
  ultimately show ?thesis by (simp add: Let_def)
qed

end
