(* ===== verification/Server_Spec.thy ===== *)
theory Server_Spec
  imports Main_App Event_Loop_Spec Http_Parser_Spec Http_Response_Spec Static_Handler_Spec
begin

text \<open>
  The whole server: what a connection makes of the bytes it receives (\<open>session\<close>, the
  abstract view of the read callback), what a worker makes of a request, and the way of a
  request from the socket and back.
\<close>

section \<open>The abstract session\<close>

text \<open>What the pieces of input that a connection receives cause, in order.\<close>

datatype reaction = Bad_request string | Request HttpRequest

fun session :: "HttpParser \<Rightarrow> string list \<Rightarrow> reaction list \<times> HttpParser" where
  "session ps [] = ([], ps)"
| "session ps (xs # cs) =
     (case feed xs ps of
        (Error, ps1) \<Rightarrow> (case session ps1 cs of (rs, ps2) \<Rightarrow> (Bad_request (p_error ps1) # rs, ps2))
      | (Complete, ps1) \<Rightarrow> (case session (reset ps1) cs of (rs, ps2) \<Rightarrow> (Request (p_request ps1) # rs, ps2))
      | (Incomplete, ps1) \<Rightarrow> session ps1 cs)"

lemma session_append:
  "session ps (cs @ ds) =
     (case session ps cs of (rs, ps1) \<Rightarrow> case session ps1 ds of (qs, ps2) \<Rightarrow> (rs @ qs, ps2))"
  by (induction ps cs rule: session.induct) (auto split: prod.split Result.split)

text \<open>The tasks and the error pages the reactions stand for.\<close>

definition session_tasks :: "ConnectionPtr \<Rightarrow> reaction list \<Rightarrow> Task list" where
  "session_tasks p rs = concat (map (\<lambda>r. case r of
     Request req \<Rightarrow> [Handle_request req p (wants_keep_alive req)] | Bad_request _ \<Rightarrow> []) rs)"

definition session_errors :: "header_order \<Rightarrow> ConnectionPtr \<Rightarrow> reaction list \<Rightarrow> PendingWrite list" where
  "session_errors ord p rs = concat (map (\<lambda>r. case r of
     Bad_request msg \<Rightarrow> [\<lparr>pw_conn = Some p, pw_data = serialize ord (make_error BadRequest msg),
                        pw_file_fd = -1, pw_file_size = 0\<rparr>] | Request _ \<Rightarrow> []) rs)"

section \<open>The read callback implements the session\<close>

text \<open>The callback changes only the read buffer and the keep-alive flag of its connection.\<close>

definition same_io :: "Connection \<Rightarrow> Connection \<Rightarrow> bool" where
  "same_io c c' \<longleftrightarrow> state c = state c' \<and> write_buf c = write_buf c' \<and> sendfile_op c = sendfile_op c' \<and>
     socket c = socket c' \<and> conn_id c = conn_id c'"

definition web_J ::
  "header_order \<Rightarrow> ConnectionPtr \<Rightarrow> web_server \<Rightarrow> string list \<Rightarrow> Connection \<Rightarrow> web_server \<Rightarrow> bool" where
  "web_J ord p s0 cs c s \<longleftrightarrow> same_io c (heap s0 ! p) \<and>
     parser_of s p = snd (session (parser_of s0 p) cs) \<and>
     (\<forall>q. q \<noteq> p \<longrightarrow> parser_of s q = parser_of s0 q) \<and>
     (\<exists>q. thread_pool s = (thread_pool s0)\<lparr>pool_queue := q,
        accepted := accepted (thread_pool s0) @ session_tasks p (fst (session (parser_of s0 p) cs))\<rparr> \<and>
        \<not> tq_closed q \<and> tq_capacity q = tq_capacity (pool_queue (thread_pool s0)) \<and>
        tq_queue q = tq_queue (pool_queue (thread_pool s0)) @ session_tasks p (fst (session (parser_of s0 p) cs))) \<and>
     \<not> tq_closed (pending_writes s) \<and>
     tq_queue (pending_writes s) =
       tq_queue (pending_writes s0) @ session_errors ord p (fst (session (parser_of s0 p) cs)) \<and>
     heap s = heap s0 \<and> connections s = connections s0 \<and> listen_socket s = listen_socket s0 \<and>
     wakeup_fd s = wakeup_fd s0 \<and> sent s = sent s0 \<and> open_fds s = open_fds s0 \<and> interest s = interest s0 \<and>
     tx s = tx s0 \<and> file_data s = file_data s0"

lemma submit_task_open:
  assumes "\<not> tq_closed (pool_queue (thread_pool s))"
  shows "submit_task t s = (Blocked, s) \<or>
    (\<exists>q. submit_task t s = (Ret (), s\<lparr>thread_pool := (thread_pool s)\<lparr>pool_queue := q,
         accepted := accepted (thread_pool s) @ [t]\<rparr>\<rparr>) \<and> \<not> tq_closed q \<and>
       tq_capacity q = tq_capacity (pool_queue (thread_pool s)) \<and>
       tq_queue q = tq_queue (pool_queue (thread_pool s)) @ [t])"
proof (cases rule: tq.put_cases [of t "pool_queue (thread_pool s)"])
  case 1
  then show ?thesis by (simp add: submit_task_def submit_def)
next
  case (2 q)
  then have "submit_task t s = (Ret (), s\<lparr>thread_pool := (thread_pool s)\<lparr>pool_queue := q,
      accepted := accepted (thread_pool s) @ [t]\<rparr>\<rparr>)" by (simp add: submit_task_def submit_def)
  with 2 show ?thesis by blast
next
  case (3 q)
  with assms show ?thesis by simp
qed

lemma post_response_open:
  assumes "\<not> tq_closed (pending_writes s)"
  shows "post_response conn data f sz s = (Blocked, s) \<or>
    (\<exists>q. post_response conn data f sz s = (Ret (), sys_eventfd_write (s\<lparr>pending_writes := q\<rparr>)) \<and>
       \<not> tq_closed q \<and> tq_capacity q = tq_capacity (pending_writes s) \<and>
       tq_queue q = tq_queue (pending_writes s) @
         [\<lparr>pw_conn = conn, pw_data = data, pw_file_fd = f, pw_file_size = sz\<rparr>])"
proof (cases rule: tq.put_cases [of "\<lparr>pw_conn = conn, pw_data = data, pw_file_fd = f, pw_file_size = sz\<rparr>"
      "pending_writes s"])
  case 1
  then show ?thesis by (simp add: post_response_def)
next
  case (2 q)
  then have "post_response conn data f sz s = (Ret (), sys_eventfd_write (s\<lparr>pending_writes := q\<rparr>))"
    by (simp add: post_response_def)
  with 2 show ?thesis by blast
next
  case (3 q)
  with assms show ?thesis by simp
qed

lemma set_parser_sel [simp]:
  "thread_pool (set_parser p x s) = thread_pool s" "pending_writes (set_parser p x s) = pending_writes s"
  "heap (set_parser p x s) = heap s" "connections (set_parser p x s) = connections s"
  "listen_socket (set_parser p x s) = listen_socket s" "wakeup_fd (set_parser p x s) = wakeup_fd s"
  "sent (set_parser p x s) = sent s" "open_fds (set_parser p x s) = open_fds s"
  "interest (set_parser p x s) = interest s" "tx (set_parser p x s) = tx s"
  "file_data (set_parser p x s) = file_data s"
  "parser_of (set_parser p x s) q = (if q = p then x else parser_of s q)"
  by (simp_all add: set_parser_def parser_of_def)

lemma parser_of_frame [simp]:
  "parser_of (s\<lparr>thread_pool := tp\<rparr>) = parser_of s" "parser_of (s\<lparr>pending_writes := q\<rparr>) = parser_of s"
  "parser_of (sys_eventfd_write s) = parser_of s"
  by (simp_all add: parser_of_def fun_eq_iff sys_eventfd_write_def)

lemma eventfd_write_sel [simp]:
  "thread_pool (sys_eventfd_write s) = thread_pool s" "pending_writes (sys_eventfd_write s) = pending_writes s"
  "heap (sys_eventfd_write s) = heap s" "connections (sys_eventfd_write s) = connections s"
  "listen_socket (sys_eventfd_write s) = listen_socket s" "wakeup_fd (sys_eventfd_write s) = wakeup_fd s"
  "sent (sys_eventfd_write s) = sent s" "open_fds (sys_eventfd_write s) = open_fds s"
  "interest (sys_eventfd_write s) = interest s" "tx (sys_eventfd_write s) = tx s"
  "file_data (sys_eventfd_write s) = file_data s"
  for s :: "('t, 'b) server_scheme"
  by (simp_all add: sys_eventfd_write_def)

lemma reset_take: "reset (p\<lparr>p_request := r\<rparr>) = reset p"
  by (simp add: reset_def)

lemma set_parser_twice: "set_parser p y (set_parser p x s) = set_parser p y s"
  by (simp add: set_parser_def)

text \<open>The callback on one piece, by the result of the parser.\<close>

lemma read_callback_eq:
  assumes "feed (readable (read_buf c)) (parser_of s p) = (res, ps)"
  shows "read_callback ord mv p c s =
    (case res of
       Incomplete \<Rightarrow> (Ret (c\<lparr>read_buf := consume_all (read_buf c)\<rparr>), set_parser p ps s)
     | Error \<Rightarrow> bind_st (post_response (Some p) (serialize ord (make_error BadRequest (p_error ps))) (-1) 0 (set_parser p ps s))
         (\<lambda>_ s2. (Ret (c\<lparr>read_buf := consume_all (read_buf c), keep_alive := False\<rparr>), s2))
     | Complete \<Rightarrow> bind_st (submit_task (Handle_request (p_request ps) p (wants_keep_alive (p_request ps)))
           (set_parser p (reset ps) s))
         (\<lambda>_ s3. (Ret (c\<lparr>read_buf := consume_all (read_buf c), keep_alive := wants_keep_alive (p_request ps)\<rparr>), s3)))"
  using assms
  by (cases res) (simp_all add: read_callback_def take_result_def set_keep_alive_def reset_take set_parser_twice Let_def)

lemma web_deliver:
  assumes J: "web_J ord p s0 cs c s" and fd: "conn_fd c \<in> open_fds s"
  shows "(\<exists>s'. read_callback ord mv p c s = (Blocked, s')) \<or>
    (\<exists>c' s'. read_callback ord mv p c s = (Ret c', s') \<and>
      web_J ord p s0 (cs @ [readable (read_buf c)]) c' s' \<and>
      conn_fd c' = conn_fd c \<and> conn_fd c \<in> open_fds s' \<and> read_buf c' = consume_all (read_buf c))"
proof -
  obtain rs ps0 where ses: "session (parser_of s0 p) cs = (rs, ps0)" by force
  obtain res ps where f: "feed (readable (read_buf c)) (parser_of s p) = (res, ps)" by force
  have p0: "parser_of s p = ps0" using J ses by (simp add: web_J_def)
  note cb = read_callback_eq [OF f, of ord mv]
  show ?thesis
  proof (cases res)
    case Incomplete
    with cb J fd f ses p0 show ?thesis
      by (simp add: web_J_def same_io_def session_append conn_fd_def)
  next
    case Complete
    let ?t = "Handle_request (p_request ps) p (wants_keep_alive (p_request ps))"
    let ?s1 = "set_parser p (reset ps) s"
    have "\<not> tq_closed (pool_queue (thread_pool ?s1))" using J by (auto simp: web_J_def)
    from submit_task_open [OF this, of ?t] show ?thesis
    proof (elim disjE exE conjE)
      assume "submit_task ?t ?s1 = (Blocked, ?s1)"
      with cb Complete show ?thesis by simp
    next
      fix q assume q: "submit_task ?t ?s1 = (Ret (), ?s1\<lparr>thread_pool := (thread_pool ?s1)\<lparr>pool_queue := q,
          accepted := accepted (thread_pool ?s1) @ [?t]\<rparr>\<rparr>)" "\<not> tq_closed q"
        "tq_capacity q = tq_capacity (pool_queue (thread_pool ?s1))"
        "tq_queue q = tq_queue (pool_queue (thread_pool ?s1)) @ [?t]"
      from J q f ses p0 Complete
      have "web_J ord p s0 (cs @ [readable (read_buf c)]) c' (?s1\<lparr>thread_pool := (thread_pool ?s1)\<lparr>pool_queue := q,
          accepted := accepted (thread_pool ?s1) @ [?t]\<rparr>\<rparr>)" if "same_io c' (heap s0 ! p)" for c'
        using that by (auto simp: web_J_def same_io_def session_append session_tasks_def session_errors_def)
      with cb Complete q(1) fd J show ?thesis by (simp add: conn_fd_def web_J_def same_io_def)
    qed
  next
    case Error
    let ?r = "serialize ord (make_error BadRequest (p_error ps))"
    let ?s1 = "set_parser p ps s"
    have "\<not> tq_closed (pending_writes ?s1)" using J by (auto simp: web_J_def)
    from post_response_open [OF this, of "Some p" ?r "-1" 0] show ?thesis
    proof (elim disjE exE conjE)
      assume "post_response (Some p) ?r (- 1) 0 ?s1 = (Blocked, ?s1)"
      with cb Error show ?thesis by simp
    next
      fix q assume q: "post_response (Some p) ?r (- 1) 0 ?s1 = (Ret (), sys_eventfd_write (?s1\<lparr>pending_writes := q\<rparr>))"
        "\<not> tq_closed q" "tq_capacity q = tq_capacity (pending_writes ?s1)"
        "tq_queue q = tq_queue (pending_writes ?s1) @ [\<lparr>pw_conn = Some p, pw_data = ?r, pw_file_fd = -1, pw_file_size = 0\<rparr>]"
      from J q f ses p0 Error
      have "web_J ord p s0 (cs @ [readable (read_buf c)]) c' (sys_eventfd_write (?s1\<lparr>pending_writes := q\<rparr>))" if "same_io c' (heap s0 ! p)" for c'
        using that by (auto simp: web_J_def same_io_def session_append session_tasks_def session_errors_def)
      with cb Error q(1) fd J show ?thesis by (simp add: conn_fd_def web_J_def same_io_def)
    qed
  qed
qed

interpretation web: read_client "read_callback ord mv p" "web_J ord p s0"
  by unfold_locales (simp add: web_J_def same_io_def, rule web_deliver)

lemma web_J_start:
  assumes "\<not> tq_closed (pool_queue (thread_pool s))" and "\<not> tq_closed (pending_writes s)"
    and "same_io c (heap s ! p)"
  shows "web_J ord p s [] c s"
proof -
  have "thread_pool s = (thread_pool s)\<lparr>pool_queue := pool_queue (thread_pool s),
      accepted := accepted (thread_pool s) @ session_tasks p []\<rparr>" by (simp add: session_tasks_def)
  moreover have "tq_queue (pool_queue (thread_pool s)) =
      tq_queue (pool_queue (thread_pool s)) @ session_tasks p []" by (simp add: session_tasks_def)
  moreover have "tq_queue (pending_writes s) = tq_queue (pending_writes s) @ session_errors ord p []"
    by (simp add: session_errors_def)
  ultimately show ?thesis using assms unfolding web_J_def session.simps(1) fst_conv snd_conv by blast
qed

lemma web_J_effect:
  assumes "web_J ord p s0 cs c s"
  shows "parser_of s p = snd (session (parser_of s0 p) cs)"
    "tq_queue (pool_queue (thread_pool s)) =
       tq_queue (pool_queue (thread_pool s0)) @ session_tasks p (fst (session (parser_of s0 p) cs))"
    "tq_queue (pending_writes s) =
       tq_queue (pending_writes s0) @ session_errors ord p (fst (session (parser_of s0 p) cs))"
  using assms unfolding web_J_def by (elim conjE exE, simp)+

section \<open>Input\<close>

text \<open>The queues of the server are open, and connection \<open>p\<close> is entered under \<open>f\<close> and reads.\<close>

definition serving :: "web_server \<Rightarrow> int \<Rightarrow> ConnectionPtr \<Rightarrow> bool" where
  "serving s f p \<longleftrightarrow> f \<noteq> sock_fd (listen_socket s) \<and> f \<noteq> wakeup_fd s \<and>
     map_of (connections s) f = Some p \<and> p < length (heap s) \<and> conn_fd (heap s ! p) = f \<and>
     f \<in> open_fds s \<and> state (heap s ! p) \<noteq> Closed \<and> buf_wf (read_buf (heap s ! p)) \<and>
     readable (read_buf (heap s ! p)) = [] \<and> 0 < capacity (read_buf (heap s ! p)) \<and>
     writable_bytes (read_buf (heap s ! p)) = capacity (read_buf (heap s ! p)) \<and>
     \<not> tq_closed (pool_queue (thread_pool s)) \<and> \<not> tq_closed (pending_writes s)"

lemma serving_event:
  assumes "serving s f p" and "e = \<lparr>ev_events = EPOLLIN, ev_fd = f\<rparr>"
  shows "handle_event (web_app ord mv) e s =
    bind_st (call_conn (on_readable (Some (read_callback ord mv p)) (Some close_cb)) p s) (\<lambda>go_on s1. (Ret (), s1))"
proof -
  have "\<not> Epoll.is_closed e" "is_readable e" "\<not> is_writable e"
    using assms(2) by (simp_all add: event_defs event_masks)
  moreover have "ev_fd e = f" "f \<noteq> sock_fd (listen_socket s)" "f \<noteq> wakeup_fd s"
    "map_of (connections s) f = Some p" using assms by (simp_all add: serving_def)
  ultimately show ?thesis by (simp add: handle_event_def conn_event_def web_app_def cong: if_cong)
qed

text \<open>Closing after a read leaves the queues and the parsers alone.\<close>

lemma closed_after_read:
  assumes "state c \<noteq> Closed"
  shows "\<exists>c' k'. close_return False (Some close_cb) c k = (Ret (False, c'), k') \<and> state c' = Closed \<and>
    heap k' = heap k \<and> thread_pool k' = thread_pool k \<and> pending_writes k' = pending_writes k \<and>
    server.more k' = server.more k"
proof -
  from on_closed_eq [OF close_cb_quiet assms, of k] obtain i where
    "on_closed (Some close_cb) c k = (Ret (c\<lparr>state := Closed, sendfile_op := None, socket := no_socket\<rparr>),
      snd (socket_close (socket c) ((sendfile_reset (sendfile_op c) k)\<lparr>interest := i\<rparr>)))" (is "_ = (Ret ?c', ?k')") by blast
  then have c: "close_return False (Some close_cb) c k = (Ret (False, ?c'), ?k')" by (simp add: close_return_def)
  then have "kernel.more ?k' = kernel.more k" using close_return_more [of False c k] by simp
  then have "heap ?k' = heap k" "thread_pool ?k' = thread_pool k" "pending_writes ?k' = pending_writes k"
    "server.more ?k' = server.more k" by (simp_all only: server_more_eq)
  with c show ?thesis by (intro exI [of _ ?c'] exI [of _ ?k']) simp
qed

section \<open>A concrete server for the witnesses\<close>

text \<open>A server with one idle connection on descriptor 5; the client asks for \<open>/health\<close>.\<close>

definition demo_request :: string where
  "demo_request = render_request GET ''/health'' ''HTTP/1.1'' [(''Host'', ''a'')] []"

definition demo_http_request :: HttpRequest where
  "demo_http_request = \<lparr>req_method = GET, req_path = ''/health'', req_version = ''HTTP/1.1'',
     req_headers = stored_headers [(''Host'', ''a'')] [], req_body = []\<rparr>"

definition demo_web :: "string \<Rightarrow> web_server" where
  "demo_web xs = server.extend
     (demo_server [(demo_conn Reading True (new_buffer 8))\<lparr>read_buf := new_buffer 100\<rparr>] [(5, 0)]
        ((demo_kernel [Tx_ok 20, Tx_err EINTR, Tx_ok 200])\<lparr>rx := (\<lambda>_. [])(5 := [Rx_bytes xs])\<rparr>))
     (\<lambda>_. new_parser)"

lemma demo_web_sel [simp]:
  "open_fds (demo_web xs) = {3, 4, 5, 6, 9}" "interest (demo_web xs) = (\<lambda>_. None)(5 := Some 1)"
  "sent (demo_web xs) = (\<lambda>_. [])" "rx (demo_web xs) = (\<lambda>_. [])(5 := [Rx_bytes xs])"
  "listen_socket (demo_web xs) = \<lparr>sock_fd = 3\<rparr>" "wakeup_fd (demo_web xs) = 6"
  "heap (demo_web xs) = [(demo_conn Reading True (new_buffer 8))\<lparr>read_buf := new_buffer 100\<rparr>]"
  "connections (demo_web xs) = [(5, 0)]" "pending_writes (demo_web xs) = new_queue 4096"
  "thread_pool (demo_web xs) = new_pool 2 0" "parser_of (demo_web xs) p = new_parser"
  by (simp_all add: demo_web_def server.defs demo_server_def kernel.defs demo_kernel_def idle_kernel_def parser_of_def)

lemma demo_web_serving: "serving (demo_web xs) 5 0"
  by (simp add: serving_def demo_conn_def conn_fd_def new_queue_def new_pool_def)



section \<open>The way of a request\<close>

lemma read_loop_single:
  assumes "buf_wf (read_buf c)" and "readable (read_buf c) = []" and "writable_bytes (read_buf c) = capacity (read_buf c)"
    and "0 < capacity (read_buf c)" and "xs \<noteq> []" and "length xs \<le> capacity (read_buf c)"
    and "conn_fd c \<in> open_fds k"
    and "\<And>b. buf_wf b \<Longrightarrow> readable b = xs \<Longrightarrow> cb (c\<lparr>read_buf := b\<rparr>) k = (Ret (g b), k2)"
    and "\<And>b. conn_fd (g b) = conn_fd c \<and> read_buf (g b) = consume_all b" and "conn_fd c \<in> open_fds k2"
  shows "\<exists>b. buf_wf b \<and> readable b = xs \<and> read_loop (Some cb) on_close [Rx_bytes xs] c k = (Ret (True, g b), k2)"
proof -
  have "length xs \<le> writable_bytes (read_buf c)" using assms(3,6) by simp
  from bq.put_ok [OF assms(1) this] assms(2) obtain b where
    b: "append_bytes xs (read_buf c) = Ret b" "buf_wf b" "readable b = xs" "capacity b = capacity (read_buf c)"
    by auto
  note cb = assms(8) [OF b(2,3)]
  have room: "make_read_room c = (False, c)" using assms(3,4) by (simp add: make_read_room_def)
  have "writable_bytes (read_buf (g b)) = capacity (read_buf c)"
    using assms(9) consume_all_ok [of b] b(4) by simp
  then have room2: "make_read_room (g b) = (False, g b)" using assms(4) by (simp add: make_read_room_def)
  have fin: "read_loop (Some cb) on_close [] (g b) k2 = (Ret (True, g b), k2)"
    using room2 assms(9,10) by (simp add: read_loop.simps [of _ _ "[]"])
  have "read_loop (Some cb) on_close [Rx_bytes xs] c k = (Ret (True, g b), k2)"
    unfolding read_loop.simps [of _ _ "[Rx_bytes xs]"] call_back_simps(1)
    using room assms(3,5-7) b cb fin by simp
  with b show ?thesis by blast
qed

text \<open>A request that arrives in one piece becomes one task.\<close>

lemma request_in:
  assumes "serving s f p" and "parser_of s p = new_parser"
    and "rx s f = [Rx_bytes xs]" and "xs \<noteq> []" and "length xs \<le> capacity (read_buf (heap s ! p))"
    and "feed xs new_parser = (Complete, pr)" and "r = p_request pr" and "t = Handle_request r p (wants_keep_alive r)"
    and "length (tq_queue (pool_queue (thread_pool s))) < tq_capacity (pool_queue (thread_pool s))"
  shows "\<exists>s1 q b. handle_event (web_app ord mv) \<lparr>ev_events = EPOLLIN, ev_fd = f\<rparr> s = (Ret (), s1) \<and>
    tq_queue q = tq_queue (pool_queue (thread_pool s)) @ [t] \<and> \<not> tq_closed q \<and>
    thread_pool s1 = (thread_pool s)\<lparr>pool_queue := q, accepted := accepted (thread_pool s) @ [t]\<rparr> \<and>
    heap s1 = (heap s)[p := (heap s ! p)\<lparr>last_active := clock s, read_buf := b,
        keep_alive := wants_keep_alive r\<rparr>] \<and> buf_wf b \<and>
    readable b = [] \<and> writable_bytes b = capacity b \<and> 0 < capacity b \<and> parser_of s1 p = reset pr \<and>
    sent s1 = sent s \<and> tx s1 = tx s \<and> open_fds s1 = open_fds s \<and> interest s1 = interest s \<and>
    file_data s1 = file_data s \<and> connections s1 = connections s \<and> pending_writes s1 = pending_writes s \<and>
    listen_socket s1 = listen_socket s \<and> wakeup_fd s1 = wakeup_fd s"
proof -
  let ?c = "touch s (heap s ! p)"
  let ?s0 = "s\<lparr>rx := (rx s)(f := [])\<rparr>"
  let ?s1 = "set_parser p (reset pr) ?s0"
  have sv: "conn_fd (heap s ! p) = f" "f \<in> open_fds s" "p < length (heap s)"
    "\<not> tq_closed (pool_queue (thread_pool s))" using assms(1) by (simp_all add: serving_def)
  have par: "parser_of ?s0 p = new_parser" using assms(2) by (simp add: parser_of_def)
  obtain q where q: "push t (pool_queue (thread_pool s)) = Ret (True, q)"
      "tq_queue q = tq_queue (pool_queue (thread_pool s)) @ [t]" "\<not> tq_closed q"
    using sv(4) assms(9) by (cases rule: tq.put_cases [of t "pool_queue (thread_pool s)"]) auto
  let ?s2 = "?s1\<lparr>thread_pool := (thread_pool s)\<lparr>pool_queue := q, accepted := accepted (thread_pool s) @ [t]\<rparr>\<rparr>"
  let ?g = "\<lambda>b. ?c\<lparr>read_buf := consume_all b, keep_alive := wants_keep_alive r\<rparr>"
  have sub: "submit_task t ?s1 = (Ret (), ?s2)" using q(1) by (simp add: submit_task_def submit_def)
  have cb: "read_callback ord mv p (?c\<lparr>read_buf := b\<rparr>) ?s0 = (Ret (?g b), ?s2)"
    if "readable b = xs" for b
  proof -
    have "feed (readable (read_buf (?c\<lparr>read_buf := b\<rparr>))) (parser_of ?s0 p) = (Complete, pr)"
      using that par assms(6) by simp
    from read_callback_eq [OF this, of ord mv] sub show ?thesis unfolding assms(8) assms(7) by simp
  qed
  have "\<exists>b. buf_wf b \<and> readable b = xs \<and>
      read_loop (Some (read_callback ord mv p)) (Some close_cb) [Rx_bytes xs] ?c ?s0 = (Ret (True, ?g b), ?s2)"
    using assms(1,4,5) sv(1,2)
    by (intro read_loop_single cb) (simp_all add: serving_def touch_def conn_fd_def)
  then obtain b where b0: "readable b = xs" and b: "buf_wf b"
    "read_loop (Some (read_callback ord mv p)) (Some close_cb) [Rx_bytes xs] ?c ?s0 = (Ret (True, ?g b), ?s2)" by blast
  have "on_readable (Some (read_callback ord mv p)) (Some close_cb) (heap s ! p) s = (Ret (True, ?g b), ?s2)"
    using b(2) sv(1) assms(3) by (simp add: on_readable_def rx_now_def rx_later_def)
  then have "handle_event (web_app ord mv) \<lparr>ev_events = EPOLLIN, ev_fd = f\<rparr> s =
      (Ret (), ?s2\<lparr>heap := (heap s)[p := ?g b]\<rparr>)"
    using serving_event [OF assms(1) refl] by (simp add: call_conn_def)
  moreover have "buf_wf (consume_all b)" "readable (consume_all b) = []" "writable_bytes (consume_all b) = capacity (consume_all b)"
    using consume_all_ok by simp_all
  moreover have "0 < capacity (consume_all b)"
    using b(1) b0 assms(4) consume_all_ok [of b] by (cases "capacity b") (simp_all add: buf_wf_def buffer_defs)
  moreover have "?g b = (heap s ! p)\<lparr>last_active := clock s, read_buf := consume_all b,
      keep_alive := wants_keep_alive r\<rparr>" by (simp add: touch_def)
  ultimately show ?thesis
    using q by (intro exI [of _ "?s2\<lparr>heap := (heap s)[p := ?g b]\<rparr>"] exI [of _ q] exI [of _ "consume_all b"])
      (simp add: parser_of_def set_parser_def)
qed

section \<open>Requests that arrive together\<close>

text \<open>
  C40 Pipelined input is lost: when a read brings a whole request and more, the read callback
  submits the one task, empties the buffer and starts with a new parser. What followed the
  request, a second request for example, is not parsed and leaves no trace.
\<close>

theorem pipelined_input_lost:
  assumes "request_ok m path v hs" and "length body \<le> MAX_BODY_SIZE"
    and "content_length (empty_request\<lparr>req_headers := stored_headers hs []\<rparr>) = length body"
    and "r = \<lparr>req_method = m, req_path = path, req_version = v, req_headers = stored_headers hs [], req_body = body\<rparr>"
    and "parser_of s p = new_parser" and "readable (read_buf c) = render_request m path v hs body @ rest"
  shows "read_callback ord mv p c s =
    bind_st (submit_task (Handle_request r p (wants_keep_alive r)) (set_parser p new_parser s))
      (\<lambda>_ s1. (Ret (c\<lparr>read_buf := consume_all (read_buf c), keep_alive := wants_keep_alive r\<rparr>), s1)) \<and>
    readable (consume_all (read_buf c)) = []"
proof -
  let ?pr = "new_parser\<lparr>p_request := r, body_remaining := 0, p_state := Completed\<rparr>"
  have "feed (readable (read_buf c)) (parser_of s p) = (Complete, ?pr)"
    using feed_render_request [OF assms(1), of new_parser body rest] assms(2-6) by (simp add: new_parser_def)
  from read_callback_eq [OF this, of ord mv] consume_all_ok [of "read_buf c"] show ?thesis
    by (simp add: reset_def new_parser_def)
qed

theorem pipelined_input_lost_witness:
  "\<exists>b c' s'. readable b = demo_request @ demo_request \<and>
     read_callback id empty_request 0 ((heap (demo_web []) ! 0)\<lparr>read_buf := b\<rparr>) (demo_web []) = (Ret c', s') \<and>
     tq_queue (pool_queue (thread_pool s')) = [Handle_request demo_http_request 0 True] \<and> readable (read_buf c') = []"
proof -
  let ?hs = "[(''Host'', ''a'')]"
  have ok: "request_ok GET ''/health'' ''HTTP/1.1'' ?hs" by code_simp
  have cl: "content_length (empty_request\<lparr>req_headers := stored_headers ?hs []\<rparr>) = length ([] :: string)" by code_simp
  have ka: "wants_keep_alive demo_http_request = True" by code_simp
  have "length (demo_request @ demo_request) \<le> writable_bytes (new_buffer 100)"
  proof -
    have "length (demo_request @ demo_request) \<le> 100" by code_simp
    then show ?thesis by simp
  qed
  from bq.put_ok [OF _ this] obtain b where b: "readable b = demo_request @ demo_request" by auto
  let ?c = "(heap (demo_web []) ! 0)\<lparr>read_buf := b\<rparr>"
  let ?t = "Handle_request demo_http_request 0 True"
  let ?s = "set_parser 0 new_parser (demo_web [])"
  have "readable (read_buf ?c) = render_request GET ''/health'' ''HTTP/1.1'' ?hs [] @ demo_request"
    using b by (simp add: demo_request_def)
  note p = pipelined_input_lost [OF ok _ cl demo_http_request_def _ this, of "demo_web []" 0 id empty_request, unfolded ka]
  have "\<not> tq_closed (pool_queue (thread_pool ?s))" by (simp add: new_pool_def new_queue_def)
  from submit_task_open [OF this, of ?t] obtain s' where
    "submit_task ?t ?s = (Ret (), s')" "tq_queue (pool_queue (thread_pool s')) = [?t]"
  proof
    assume "submit_task ?t ?s = (Blocked, ?s)"
    then show ?thesis
      by (simp add: submit_task_def submit_def push_def new_pool_def new_queue_def TQ_DEFAULT_CAPACITY_def)
  qed (auto simp: new_pool_def new_queue_def)
  with p b show ?thesis by (intro exI [of _ b]) simp
qed

end
