(* ===== verification/End_To_End.thy ===== *)
theory End_To_End
  imports Server_Spec
begin

text \<open>
  The way of a request through all components: from the bytes in the socket to the parser, the
  task queue, a worker, the router and its handler, the pending write, and back to the socket.
\<close>

section \<open>The worker's part\<close>

text \<open>
  What a handler may do to the world: it leaves the event loop alone, and of the kernel what
  concerns descriptor \<open>f\<close>. Opening a file is allowed.
\<close>

definition handler_frame :: "int \<Rightarrow> web_server \<Rightarrow> web_server \<Rightarrow> bool" where
  "handler_frame f w w' \<longleftrightarrow> kernel.more w' = kernel.more w \<and> sent w' f = sent w f \<and> tx w' f = tx w f \<and>
     (f \<in> open_fds w \<longrightarrow> f \<in> open_fds w') \<and> interest w' f = interest w f"

text \<open>The pending write that a worker makes of a response.\<close>

definition response_write :: "header_order \<Rightarrow> ConnectionPtr \<Rightarrow> HttpResponse \<Rightarrow> PendingWrite" where
  "response_write ord p resp =
     \<lparr>pw_conn = Some p, pw_data = serialize ord (resp\<lparr>sendfile_fd := -1\<rparr>),
      pw_file_fd = sendfile_fd resp, pw_file_size = size_to_off (sendfile_size resp)\<rparr>"

lemma run_task_posts:
  assumes "dispatch router r new_response s = (Ret (found, resp), w)"
    and "pending_writes w = q0" and "length (tq_queue q0) < tq_capacity q0" and "\<not> tq_closed q0"
  shows "\<exists>q. run_task ord router (Handle_request r p keep) s =
      (Ret (), sys_eventfd_write (w\<lparr>pending_writes := q\<rparr>)) \<and>
    tq_queue q = tq_queue q0 @ [response_write ord p (answer found resp keep)] \<and> \<not> tq_closed q"
proof -
  let ?pw = "response_write ord p (answer found resp keep)"
  obtain q where q: "push ?pw (pending_writes w) = Ret (True, q)" "tq_queue q = tq_queue q0 @ [?pw]"
    "\<not> tq_closed q"
    using assms(2-4) by (cases rule: tq.put_cases [of ?pw "pending_writes w"]) auto
  then have "post_response (Some p) (pw_data ?pw) (pw_file_fd ?pw) (pw_file_size ?pw) w =
      (Ret (), sys_eventfd_write (w\<lparr>pending_writes := q\<rparr>))"
    by (simp add: post_response_def response_write_def)
  with assms(1) q(2,3) show ?thesis
    by (auto simp: response_write_def take_sendfile_fd_def Let_def)
qed

lemma worker_begin_takes:
  assumes "i < length (workers (thread_pool s))" and "tq_queue (pool_queue (thread_pool s)) = [t]"
  shows "\<exists>tp. worker_begin i s = (Ret (), s\<lparr>thread_pool := tp\<rparr>) \<and> workers tp ! i = Running t"
proof -
  have "\<exists>p. worker_take i (thread_pool s) = Ret p \<and> workers p ! i = Running t"
    using assms by (simp add: worker_take_def pop_def)
  then show ?thesis by (auto simp: worker_begin_def)
qed

lemma worker_end_runs:
  assumes "run_task ord router t s = (Ret (), w)"
  shows "\<exists>tp. worker_end ord router i t s = (Ret (), w\<lparr>thread_pool := tp\<rparr>)"
  using assms by (auto simp: worker_end_def worker_run_def)

text \<open>A worker takes the only task, and answers it.\<close>

lemma worker_serves:
  assumes "i < length (workers (thread_pool s1))" and "tq_queue (pool_queue (thread_pool s1)) = [Handle_request r p ka]"
    and "\<forall>w. dispatch router r new_response w = (Ret (found, resp), upd w) \<and> handler_frame f w (upd w)"
    and "length (tq_queue (pending_writes s1)) < tq_capacity (pending_writes s1)" and "\<not> tq_closed (pending_writes s1)"
  obtains s2 s3 where "worker_begin i s1 = (Ret (), s2)" "worker_end ord router i (Handle_request r p ka) s2 = (Ret (), s3)"
    "tq_queue (pending_writes s3) = tq_queue (pending_writes s1) @ [response_write ord p (answer found resp ka)]"
    "heap s3 = heap s1" "listen_socket s3 = listen_socket s1" "wakeup_fd s3 = wakeup_fd s1" "file_data s3 = file_data (upd s2)"
    "f \<in> open_fds s1 \<Longrightarrow> f \<in> open_fds s3" "interest s3 f = interest s1 f" "sent s3 f = sent s1 f"
proof -
  let ?t = "Handle_request r p ka"
  from worker_begin_takes [OF assms(1,2)] obtain tp where
    s2: "worker_begin i s1 = (Ret (), s1\<lparr>thread_pool := tp\<rparr>)" (is "_ = (Ret (), ?s2)") by blast
  let ?w = "upd ?s2"
  have d: "dispatch router r new_response ?s2 = (Ret (found, resp), ?w)" and fr: "handler_frame f ?s2 ?w"
    using assms(3) by blast+
  have more: "pending_writes ?w = pending_writes s1" "heap ?w = heap s1" "listen_socket ?w = listen_socket s1"
    "wakeup_fd ?w = wakeup_fd s1"
    using fr by (simp_all add: handler_frame_def server_more_eq)
  from run_task_posts [OF d more(1) assms(4,5), of ord p ka] obtain q where
    rt: "run_task ord router ?t ?s2 = (Ret (), sys_eventfd_write (?w\<lparr>pending_writes := q\<rparr>))"
      "tq_queue q = tq_queue (pending_writes s1) @ [response_write ord p (answer found resp ka)]" by blast
  from worker_end_runs [OF rt(1), of i] obtain tp3 where
    s3: "worker_end ord router i ?t ?s2 = (Ret (), (sys_eventfd_write (?w\<lparr>pending_writes := q\<rparr>))\<lparr>thread_pool := tp3\<rparr>)" by blast
  show ?thesis by (rule that [OF s2 s3]) (use rt(2) more fr in \<open>simp_all add: handler_frame_def\<close>)
qed

section \<open>The wake-up\<close>

lemma wakeup_delivers:
  assumes "wakeup_fd s \<noteq> sock_fd (listen_socket s)" and "tq_queue (pending_writes s) = [pw]"
    and "deliver_one pw (sys_eventfd_read s\<lparr>pending_writes := (pending_writes s)\<lparr>tq_queue := []\<rparr>\<rparr>) = (Ret (), s')"
  shows "handle_event a \<lparr>ev_events = EPOLLIN, ev_fd = wakeup_fd s\<rparr> s = (Ret (), s')"
proof -
  let ?s = "sys_eventfd_read s"
  have p: "pending_writes ?s = pending_writes s" by (simp add: sys_eventfd_read_def)
  have "pending_writes s' = (pending_writes s)\<lparr>tq_queue := []\<rparr>"
    using deliver_one_pending [of pw "?s\<lparr>pending_writes := (pending_writes s)\<lparr>tq_queue := []\<rparr>\<rparr>"] assms(3)
    by simp
  then have "drain_loop s' = (Ret (), s')" by (simp add: drain_loop.simps [of s'] try_pop_def)
  moreover have "try_pop (pending_writes ?s) = (Some pw, (pending_writes s)\<lparr>tq_queue := []\<rparr>)"
    using assms(2) p by (simp add: try_pop_def)
  ultimately have "drain_loop ?s = (Ret (), s')"
    using assms(3) by (simp add: drain_loop.simps [of ?s])
  with assms(1) show ?thesis by (simp add: handle_event_def drain_pending_writes_def)
qed

section \<open>End to end\<close>

text \<open>An idle connection: nothing queued, nothing read, registered with epoll.\<close>

definition idle_connection :: "web_server \<Rightarrow> int \<Rightarrow> ConnectionPtr \<Rightarrow> bool" where
  "idle_connection s f p \<longleftrightarrow> serving s f p \<and> conn_wf s (heap s ! p) \<and> registered s (heap s ! p) \<and>
     pending (heap s ! p) s = [] \<and> sendfile_op (heap s ! p) = None \<and> parser_of s p = new_parser \<and>
     tq_queue (pool_queue (thread_pool s)) = [] \<and> 0 < tq_capacity (pool_queue (thread_pool s)) \<and>
     tq_queue (pending_writes s) = [] \<and> 0 < tq_capacity (pending_writes s) \<and>
     wakeup_fd s \<noteq> sock_fd (listen_socket s)"

lemma kernel_frames [simp]:
  "sendfile_wf (sys_eventfd_write k) = sendfile_wf k" "sendfile_wf (sys_eventfd_read k) = sendfile_wf k"
  "sendfile_wf (s\<lparr>pending_writes := q\<rparr>) = sendfile_wf s" "sendfile_wf (s\<lparr>thread_pool := tp\<rparr>) = sendfile_wf s"
  for s :: "('t, 'b) server_scheme"
  by (simp_all add: sendfile_wf_def fun_eq_iff sys_eventfd_write_def sys_eventfd_read_def)

lemma pw_file_data:
  "file_data k = file_data k' \<Longrightarrow> pw_output pw k = pw_output pw k' \<and> pw_file_ok k c pw = pw_file_ok k' c pw"
  by (simp add: pw_output_def pw_file_ok_def sendfile_wf_def)

text \<open>
  The state in which the wake-up delivers: the connection's object is as the read callback left
  it, and the kernel is as the handler left it.
\<close>

lemma delivery_state:
  assumes "idle_connection s f p" and "heap d = (heap s)[p := (heap s ! p)\<lparr>last_active := la, read_buf := b,
        keep_alive := ka\<rparr>]" and "buf_wf b"
    and "f \<in> open_fds d" and "interest d f = interest s f" and "sent d f = sent s f"
    and "pw_file_ok d (heap s ! p) pw" and "pw_conn pw = Some p"
  shows "\<exists>s' c'. deliver_one pw d = (Ret (), s') \<and> heap s' ! p = c' \<and>
    (if state c' = Closed then \<exists>rest. sent s' f @ rest = sent s f @ pw_output pw d
     else sent s' f @ pending c' s' = sent s f @ pw_output pw d \<and>
       (pending c' s' = [] \<longrightarrow> state c' = (if ka then Reading else Closing)))"
proof -
  let ?old = "heap s ! p"
  let ?c = "?old\<lparr>last_active := la, read_buf := b, keep_alive := ka\<rparr>"
  have p: "p < length (heap s)" "conn_fd ?old = f" "state ?old \<noteq> Closed" "conn_wf s ?old" "registered s ?old"
    "pending ?old s = []" "sendfile_op ?old = None"
    using assms(1) by (simp_all add: idle_connection_def serving_def)
  have fd: "conn_fd ?c = f" using p(2) by (simp add: conn_fd_def)
  have "p < length (heap d)" "?c = heap d ! p" "state ?c \<noteq> Closed" "conn_wf d ?c" "sendfile_op ?c = None"
    using p assms(2,3) by (simp_all add: conn_wf_def)
  moreover have "registered d ?c" using p assms(4,5) fd by (simp add: registered_def)
  moreover have "pw_file_ok d ?c pw" using assms(7) fd p(2) by (simp add: pw_file_ok_def)
  ultimately obtain s' c' where s': "deliver_one pw d = (Ret (), s')" "heap s' ! p = c'"
    "if state c' = Closed then \<exists>rest. sent s' (conn_fd ?c) @ rest = sent d (conn_fd ?c) @ pending ?c d @ pw_output pw d
     else sent s' (conn_fd ?c) @ pending c' s' = sent d (conn_fd ?c) @ pending ?c d @ pw_output pw d \<and>
       conn_wf s' c' \<and> registered s' c' \<and> conn_fd c' = conn_fd ?c \<and>
       (if pending c' s' = [] then state c' = (if keep_alive ?c then Reading else Closing)
        else interest s' (conn_fd ?c) = Some (EPOLLIN OR EPOLLOUT OR EPOLLET OR EPOLLRDHUP))"
    using deliver_one_ok [of p d ?c pw] assms(8) by blast
  moreover have "pending ?c d = []" using p(6,7) by (simp add: pending_def)
  ultimately show ?thesis using fd assms(6) by (auto split: if_splits)
qed


section \<open>A concrete run\<close>

lemma demo_web_idle: "idle_connection (demo_web xs) 5 0"
  using demo_web_serving [of xs]
  by (simp add: idle_connection_def demo_conn_def conn_fd_def conn_wf_def registered_def pending_def
      new_queue_def new_pool_def TQ_DEFAULT_CAPACITY_def)


end
