(* ===== verification/Server_Inv.thy ===== *)
theory Server_Inv
  imports Event_Loop_Run End_To_End Transition_System
begin

text \<open>
  The whole server as a state machine: events, the reaping of closed connections, the workers,
  shutdown and the outside world as steps. The invariant of the event loop holds in every
  reachable state, for the application of \<open>main.cpp\<close> and every router \<open>build_router\<close> makes.
\<close>

section \<open>The read callback meets the contract of the loop\<close>

fun task_conn :: "Task \<Rightarrow> ConnectionPtr" where
  "task_conn (Handle_request r p keep) = p"

lemma set_parser_frame [simp]: "ev_epoll (set_parser p x s) = ev_epoll s"
  by (simp add: set_parser_def)

lemma sys_eventfd_write_more [simp]: "ev_epoll (sys_eventfd_write s) = ev_epoll s"
  for s :: "('t, 'b) server_scheme"
  by (simp add: sys_eventfd_write_def)

lemma calm_updates [simp]:
  "calm s (s\<lparr>thread_pool := tp\<rparr>)" "calm s (sys_eventfd_write (s\<lparr>pending_writes := q\<rparr>))"
  for s :: "('t, 'b) server_scheme"
  by (simp_all add: calm_def sys_eventfd_write_def)

lemma calm_parser [simp]: "calm s (set_parser p x s)"
  by (simp add: calm_def set_parser_def)

lemma submit_task_frame:
  assumes "submit_task t s = (r, s')" and "tc t = p"
  shows "(r = Ret () \<or> r = Blocked) \<and> callback_frame tc p s s'"
proof (cases rule: tq.put_cases [of t "pool_queue (thread_pool s)"])
  case 1
  with assms show ?thesis by (auto simp: submit_task_def submit_def)
next
  case (2 q)
  with assms show ?thesis
    by (auto simp: submit_task_def submit_def callback_frame_def loop_frame_def pool_tasks_def)
next
  case (3 q)
  with assms show ?thesis
    by (auto simp: submit_task_def submit_def callback_frame_def loop_frame_def pool_tasks_def)
qed

lemma post_response_frame:
  assumes "post_response (Some p) data (-1) n s = (r, s')"
  shows "(r = Ret () \<or> r = Blocked) \<and> callback_frame tc p s s'"
proof (cases rule: tq.put_cases [of "\<lparr>pw_conn = Some p, pw_data = data, pw_file_fd = -1, pw_file_size = n\<rparr>"
      "pending_writes s"])
  case 1
  with assms show ?thesis by (auto simp: post_response_def)
next
  case (2 q)
  with assms show ?thesis by (auto simp: post_response_def callback_frame_def loop_frame_def)
next
  case (3 q)
  with assms show ?thesis by (auto simp: post_response_def callback_frame_def loop_frame_def)
qed

lemma set_parser_callback: "callback_frame tc p s (set_parser q x s)"
  by (simp add: callback_frame_def loop_frame_def)

lemma read_callback_frame:
  assumes "bufs_ok c" and "read_callback ord mv p c s = (r, s')"
  shows "callback_frame task_conn p s s' \<and>
    (case r of Ret c' \<Rightarrow> same_fds c c' \<and> bufs_ok c' | Throw e \<Rightarrow> False | Blocked \<Rightarrow> True)"
proof -
  obtain res ps where f: "feed (readable (read_buf c)) (parser_of s p) = (res, ps)" by force
  have b: "buf_wf (consume_all (read_buf c))" "capacity (consume_all (read_buf c)) = capacity (read_buf c)"
    using consume_all_ok by blast+
  note cb = read_callback_eq [OF f, of ord mv]
  show ?thesis
  proof (cases res)
    case Incomplete
    with cb assms b show ?thesis by (auto simp: set_parser_callback same_fds_def bufs_ok_def)
  next
    case Complete
    let ?t = "Handle_request (p_request ps) p (wants_keep_alive (p_request ps))"
    let ?s1 = "set_parser p (reset ps) s"
    obtain r1 s1 where s1: "submit_task ?t ?s1 = (r1, s1)" by force
    note fr = submit_task_frame [OF s1, of task_conn p, simplified]
    have cf: "callback_frame task_conn p s s1" using fr callback_frame_trans [OF set_parser_callback] by blast
    show ?thesis
    proof (cases r1)
      case (Ret u)
      with Complete cb assms b s1 cf show ?thesis by (auto simp: same_fds_def bufs_ok_def)
    qed (use Complete cb assms s1 cf fr in auto)
  next
    case Error
    let ?s1 = "set_parser p ps s"
    let ?d = "serialize ord (make_error BadRequest (p_error ps))"
    obtain r1 s1 where s1: "post_response (Some p) ?d (-1) 0 ?s1 = (r1, s1)" by force
    note fr = post_response_frame [OF s1, of task_conn]
    have cf: "callback_frame task_conn p s s1" using fr callback_frame_trans [OF set_parser_callback] by blast
    show ?thesis
    proof (cases r1)
      case (Ret u)
      with Error cb assms b s1 cf show ?thesis by (auto simp: same_fds_def bufs_ok_def)
    qed (use Error cb assms s1 cf fr in auto)
  qed
qed

interpretation web_loop: loop_client "read_callback ord mv" task_conn
  by unfold_locales (rule read_callback_frame)

section \<open>What a router may do\<close>

text \<open>
  A handler leaves the event loop alone and sends nothing. The only new descriptor is that of the
  file which the response owns.
\<close>

definition handler_opens :: "int \<Rightarrow> web_server \<Rightarrow> web_server \<Rightarrow> bool" where
  "handler_opens f s s' \<longleftrightarrow> quiet s s' \<and> sent s' = sent s \<and>
     open_fds s' = open_fds s \<union> (if 0 \<le> f then {f} else {}) \<and> (0 \<le> f \<longrightarrow> f \<notin> open_fds s) \<and>
     (\<forall>g. interest s' g = interest s g \<or> g \<notin> open_fds s \<and> interest s' g = None)"

definition handler_ok :: "web_server handler \<Rightarrow> bool" where
  "handler_ok h \<longleftrightarrow> (\<forall>req s r s'. h req new_response s = (r, s') \<longrightarrow>
     handler_opens (case r of Ret resp \<Rightarrow> sendfile_fd resp | _ \<Rightarrow> -1) s s')"

definition router_ok :: "web_server Router \<Rightarrow> bool" where
  "router_ok rs \<longleftrightarrow> (\<forall>route \<in> set rs. handler_ok (route_handler route))"

lemma handler_opens_nothing: "f < 0 \<Longrightarrow> handler_opens f s s"
  by (simp add: handler_opens_def)

lemma find_exact_set: "find_exact req rs = Some r \<Longrightarrow> r \<in> set rs"
  by (induction rs) (auto split: if_splits)

lemma find_best_set: "find_best req rs best = Some r \<Longrightarrow> r \<in> set rs \<or> best = Some r"
  by (induction rs arbitrary: best) (fastforce split: if_splits option.splits)+

lemma new_response_fd [simp]: "sendfile_fd new_response = -1"
  by (simp add: new_response_def)

lemma dispatch_opens:
  assumes "router_ok rs" and "dispatch rs req new_response s = (r, s')"
  shows "handler_opens (case r of Ret (found, resp) \<Rightarrow> if found then sendfile_fd resp else -1 | _ \<Rightarrow> -1) s s'"
proof -
  have h: "handler_opens (case x of Ret resp \<Rightarrow> sendfile_fd resp | _ \<Rightarrow> -1) s s1"
    if "route \<in> set rs" "route_handler route req new_response s = (x, s1)" for route x s1
    using assms(1) that unfolding router_ok_def handler_ok_def by blast
  have case1: ?thesis if "route \<in> set rs"
    "(case route_handler route req new_response s of (r, w1) \<Rightarrow> (res_bind r (\<lambda>resp1. Ret (True, resp1)), w1)) = (r, s')"
    for route
  proof -
    obtain x s1 where x: "route_handler route req new_response s = (x, s1)" by force
    from h [OF that(1) x] that(2) x show ?thesis by (cases x) auto
  qed
  show ?thesis
  proof (cases "find_exact req rs")
    case (Some route)
    with assms(2) show ?thesis by (intro case1 [OF find_exact_set]) (simp_all add: dispatch_def)
  next
    case None
    show ?thesis
    proof (cases "find_best req rs None")
      case (Some best)
      with None assms(2) find_best_set [OF Some] show ?thesis
        by (intro case1 [of best]) (simp_all add: dispatch_def)
    next
      case N: None
      with None assms(2) show ?thesis by (auto simp: dispatch_def handler_opens_nothing)
    qed
  qed
qed

section \<open>The router of the program\<close>

text \<open>
  What POSIX documents of \<open>open\<close> and \<open>close\<close>: a file that is opened gets an unused
  descriptor and is not watched by epoll; a closed one is not watched any more; neither sends.
\<close>

definition fs_frame :: "web_server file_system \<Rightarrow> bool" where
  "fs_frame fs \<longleftrightarrow> fd_laws fs open_fds \<and>
     (\<forall>p w f w1. fs_open fs p w = (f, w1) \<longrightarrow> quiet w w1 \<and> sent w1 = sent w \<and> interest w1 = interest w) \<and>
     (\<forall>f w. quiet w (fs_close fs f w) \<and> sent (fs_close fs f w) = sent w \<and>
        interest (fs_close fs f w) = (interest w)(f := None))"

lemma serve_file_frame:
  assumes "fs_frame fs" and "serve_file fs p resp w = (r, w')"
  shows "quiet w w' \<and> sent w' = sent w \<and> (\<forall>g. interest w' g = interest w g \<or> g \<notin> open_fds w \<and> interest w' g = None)"
proof -
  obtain f w1 where o: "fs_open fs p w = (f, w1)" by force
  have 1: "quiet w w1" "interest w1 = interest w" "sent w1 = sent w" "0 \<le> f \<longrightarrow> f \<notin> open_fds w"
    using assms(1) o by (auto simp: fs_frame_def fd_laws_def split: if_splits)
  have 2: "quiet w (fs_close fs f w1)" "interest (fs_close fs f w1) = (interest w)(f := None)" "sent (fs_close fs f w1) = sent w"
    using assms(1) 1(2,3) quiet_trans [OF 1(1)] by (simp_all add: fs_frame_def)
  from assms(2) o show ?thesis using 1 2 by (auto simp: serve_file_def split: if_splits option.splits)
qed

lemma static_handler_ok:
  assumes "fs_frame fs"
  shows "handler_ok (handle fs h)"
  unfolding handler_ok_def
proof (intro allI impI)
  fix req s r s' assume h: "handle fs h req new_response s = (r, s')"
  have n: "\<not> has_sendfile new_response" by (simp add: has_sendfile_def)
  have "fd_laws fs open_fds" using assms by (simp add: fs_frame_def)
  note fds = static_handler_fds [OF this n h]
  have fr: "quiet s s' \<and> sent s' = sent s \<and> (\<forall>g. interest s' g = interest s g \<or> g \<notin> open_fds s \<and> interest s' g = None)"
  proof (cases r)
    case (Ret resp)
    with handle_cases [of fs h req new_response s resp s'] h serve_file_frame [OF assms] quiet_refl [of s] show ?thesis by blast
  next
    case (Throw e)
    with h show ?thesis by (auto dest: handle_Throw)
  next
    case Blocked
    with h have "s' = s" by (auto simp: handle_def Let_def split: res.splits if_splits prod.splits)
    then show ?thesis by simp
  qed
  from fds fr show "handler_opens (case r of Ret resp \<Rightarrow> sendfile_fd resp | _ \<Rightarrow> -1) s s'"
    by (cases r) (auto simp: handler_opens_def has_sendfile_def)
qed

lemma build_router_ok:
  assumes "fs_frame fs" and "build_router fs cwd s = Ret router"
  shows "router_ok router"
proof -
  have fd: "sendfile_fd (set_body b ct r) = sendfile_fd r" "sendfile_fd (set_status st r) = sendfile_fd r" for b ct r st
    by (simp_all add: http_defs)
  have "handler_ok health_handler" "handler_ok placeholder_handler"
    by (auto simp: handler_ok_def health_handler_def placeholder_handler_def fd handler_opens_nothing)
  then have "router_ok (add_prefix_route GET ''/'' h (add_route GET ''/health'' health_handler []))"
    if "h = placeholder_handler \<or> handler_ok h" for h
    using that by (auto simp: router_ok_def add_route_def add_prefix_route_def)
  with assms(2) static_handler_ok [OF assms(1)] show ?thesis
    by (auto simp: build_router_def Let_def simp del: res_bind.simps split: if_splits)
qed

section \<open>The workers\<close>

lemma running_in_update: "Running t \<in> set (ws[i := w]) \<Longrightarrow> Running t \<in> set ws \<or> w = Running t"
  by (auto dest: set_update_subset_insert [THEN subsetD])

lemma worker_begin_inv:
  assumes "loop_inv tc E s" and "worker_begin i s = (Ret (), s')"
  shows "loop_inv tc E s'"
proof -
  obtain p where p: "worker_take i (thread_pool s) = Ret p" "s' = s\<lparr>thread_pool := p\<rparr>"
    using assms(2) by (auto simp: worker_begin_def split: res.splits)
  from p(1) have "pool_tasks p \<subseteq> pool_tasks (thread_pool s)"
    by (cases rule: worker_take_cases)
      (auto simp: pool_tasks_def dest: running_in_update)
  with inv_pool [OF assms(1)] p(2) show ?thesis by blast
qed

text \<open>The file a handler opened is in hand until the response is posted.\<close>

lemma opened_inv:
  assumes "loop_inv tc E s" and "handler_opens f s s'"
  shows "loop_inv tc (owns f + E) s'"
proof -
  have m: "heap s' = heap s" "connections s' = connections s" "listen_socket s' = listen_socket s"
    "ev_epoll s' = ev_epoll s" "wakeup_fd s' = wakeup_fd s" "pending_writes s' = pending_writes s"
    "thread_pool s' = thread_pool s"
    using assms(2) by (simp_all add: handler_opens_def quiet_def server_more_eq)
  have i: "interest s' g = interest s g" if "g \<in> open_fds s" for g
    using assms(2) that by (auto simp: handler_opens_def)
  have i2: "interest s' g \<noteq> None \<Longrightarrow> interest s g \<noteq> None" for g
    using assms(2) by (auto simp: handler_opens_def dest: spec [of _ g])
  note op = infra_open [OF assms(1)]
  have "accounted (owns f + E) s'"
    unfolding accounted_def
  proof
    fix g
    have "count (owners s + E) g = (if g \<in> open_fds s then 1 else 0)"
      using assms(1) by (simp add: loop_inv_def accounted_def)
    moreover have "owners s' = owners s" by (simp add: owners_def m)
    ultimately show "count (owners s' + (owns f + E)) g = (if g \<in> open_fds s' then 1 else 0)"
      using assms(2) by (auto simp: handler_opens_def count_owns)
  qed
  moreover have "table_ok s'"
    unfolding table_ok_def m
  proof (intro conjI ballI)
    fix x assume x: "x \<in> set (connections s)"
    obtain g p where g: "x = (g, p)" by force
    have "entry_ok s g (heap s ! p)" "p < length (heap s)"
      using assms(1) x g by (auto simp: loop_inv_def table_ok_def)
    moreover have "state (heap s ! p) \<noteq> Closed \<Longrightarrow> g \<in> open_fds s"
      using inv_entry(6) [OF assms(1)] x g by blast
    ultimately show "case x of (f, p) \<Rightarrow> p < length (heap s) \<and> entry_ok s' f (heap s ! p)"
      using g i by (auto simp: entry_ok_def m split: if_splits)
  qed (use assms(1) in \<open>simp_all add: loop_inv_def table_ok_def\<close>)
  moreover have "watch_ok s'"
    using assms(1) i2 i [OF op(1)] i [OF op(2)] by (simp add: loop_inv_def watch_ok_def m)
  moreover have "refs_ok tc s'"
    using assms(1) by (simp add: loop_inv_def refs_ok_def ref_ok_def m)
  ultimately show ?thesis by (simp add: loop_inv_def)
qed

lemma pushed_inv:
  assumes "loop_inv tc (owns (pw_file_fd pw) + E) s" and "push pw (pending_writes s) = Ret (ok, q)"
    and "\<forall>p. pw_conn pw = Some p \<longrightarrow> ref_ok s p"
  shows "loop_inv tc E (s\<lparr>pending_writes := q\<rparr>)"
proof -
  let ?s = "s\<lparr>pending_writes := q\<rparr>"
  have "\<not> tq_closed (pending_writes s)" using assms(1) by (simp add: loop_inv_def refs_ok_def)
  then have q: "tq_queue q = tq_queue (pending_writes s) @ [pw]" "\<not> tq_closed q"
    using assms(2) by (cases rule: tq.put_cases [of pw "pending_writes s"]; simp)+
  have o: "owners ?s + E = owners s + (owns (pw_file_fd pw) + E)"
    using q(1) by (simp add: owners_def pw_fds_def ac_simps)
  have "accounted E ?s" using assms(1) unfolding loop_inv_def accounted_def o by simp
  moreover have "entry_ok ?s = entry_ok s" "ref_ok ?s = ref_ok s" by (simp_all add: fun_eq_iff entry_ok_def ref_ok_def)
  ultimately show ?thesis using assms(1,3) q by (auto simp: inv_defs)
qed

lemma posted_inv:
  assumes "loop_inv tc (owns f + E) s" and "post_response (Some p) data f n s = (r, s')" and "ref_ok s p"
  shows "r = Blocked \<and> s' = s \<or> r = Ret () \<and> loop_inv tc E s' \<and> thread_pool s' = thread_pool s"
proof -
  let ?pw = "\<lparr>pw_conn = Some p, pw_data = data, pw_file_fd = f, pw_file_size = n\<rparr>"
  show ?thesis
  proof (cases "push ?pw (pending_writes s)")
    case (Ret x)
    then obtain ok q where x: "push ?pw (pending_writes s) = Ret (ok, q)" by (cases x) simp
    with assms(2) have r: "r = Ret ()" "s' = sys_eventfd_write (s\<lparr>pending_writes := q\<rparr>)"
      by (simp_all add: post_response_def)
    have "loop_inv tc E (s\<lparr>pending_writes := q\<rparr>)"
      by (rule pushed_inv [OF _ x]) (use assms(1,3) in simp_all)
    then show ?thesis using r inv_cong [of s' "s\<lparr>pending_writes := q\<rparr>"] by simp
  next
    case (Throw e)
    then show ?thesis by (cases rule: tq.put_cases [of ?pw "pending_writes s"]) simp_all
  qed (use assms(2) in \<open>simp add: post_response_def\<close>)
qed

lemma running_task: "i < length (workers p) \<Longrightarrow> workers p ! i = Running t \<Longrightarrow> t \<in> pool_tasks p"
  unfolding pool_tasks_def using nth_mem [of i "workers p"] by auto

lemma answer_fd [simp]: "sendfile_fd (answer found resp keep) = (if found then sendfile_fd resp else -1)"
  by (simp add: answer_def http_defs)

text \<open>A task returns, its dispatch throws, or it waits for the queue.\<close>

lemma run_task_inv:
  assumes "loop_inv tc {#} s" and "router_ok router" and "ref_ok s (task_conn t)"
    and "run_task ord router t s = (r, s')"
  shows "r = Blocked \<or> loop_inv tc {#} s' \<and> thread_pool s' = thread_pool s"
proof -
  obtain req p keep where t: "t = Handle_request req p keep" by (cases t)
  obtain r1 s1 where d: "dispatch router req new_response s = (r1, s1)" by force
  note op = dispatch_opens [OF assms(2) d]
  have more: "kernel.more s1 = kernel.more s" using op by (simp add: handler_opens_def quiet_def)
  then have tp: "thread_pool s1 = thread_pool s" "heap s1 = heap s" "connections s1 = connections s"
    by (simp_all add: server_more_eq)
  show ?thesis
  proof (cases r1)
    case (Ret x)
    obtain found resp where x: "x = (found, resp)" by force
    let ?a = "answer found resp keep"
    have "loop_inv tc (owns (sendfile_fd ?a)) s1"
      using opened_inv [OF assms(1) op] Ret x by simp
    moreover have "ref_ok s1 p" using assms(3) t tp by (simp add: ref_ok_def)
    moreover have "post_response (Some p) (serialize ord (snd (take_sendfile_fd ?a))) (sendfile_fd ?a)
        (size_to_off (sendfile_size (snd (take_sendfile_fd ?a)))) s1 = (r, s')"
      using assms(4) unfolding t run_task.simps d Ret x by (simp add: take_sendfile_fd_def Let_def del: answer_fd)
    ultimately show ?thesis using posted_inv [where E = "{#}"] tp by (metis add.right_neutral)
  next
    case (Throw e)
    with opened_inv [OF assms(1) op] assms(4) t d tp show ?thesis by (simp add: owns_def)
  next
    case Blocked
    with assms(4) t d show ?thesis by simp
  qed
qed

lemma worker_end_inv:
  assumes "loop_inv task_conn {#} s" and "router_ok router" and "i < length (workers (thread_pool s))"
    and "workers (thread_pool s) ! i = Running t" and "worker_end ord router i t s = (Ret (), s')"
  shows "loop_inv task_conn {#} s'"
proof -
  obtain r s1 where r: "run_task ord router t s = (r, s1)" by force
  have "ref_ok s (task_conn t)"
    using assms(1) running_task [OF assms(3,4)] by (simp add: loop_inv_def refs_ok_def)
  from run_task_inv [OF assms(1,2) this r] have
    i: "r = Blocked \<or> loop_inv task_conn {#} s1 \<and> thread_pool s1 = thread_pool s" .
  let ?p = "(thread_pool s)\<lparr>workers := (workers (thread_pool s))[i := In_pop], finished := finished (thread_pool s) @ [t]\<rparr>"
  have s': "r \<noteq> Blocked" "s' = s1\<lparr>thread_pool := ?p\<rparr>"
    using assms(5) r by (auto simp: worker_end_def worker_run_def bind_st_eq_Ret split: res.splits)
  have "pool_tasks ?p \<subseteq> pool_tasks (thread_pool s)"
    by (auto simp: pool_tasks_def dest: running_in_update)
  with i s' inv_pool [of task_conn "{#}" s1 ?p] show ?thesis by simp
qed

end
