(* ===== verification/Server_Boot.thy ===== *)
theory Server_Boot
  imports Server_Inv
begin

text \<open>
  The constructor of the event loop: what it has made when it returns, or when its body throws.
\<close>

section \<open>Descriptors are fresh\<close>

text \<open>
  What POSIX documents of \<open>socket\<close>, \<open>epoll_create1\<close> and \<open>eventfd\<close>: each returns an
  unused descriptor. The standard streams are left aside: the program has nothing open at first.
\<close>

definition fresh_start :: "errno + int \<Rightarrow> int \<Rightarrow> 'a kernel_scheme \<Rightarrow> bool" where
  "fresh_start created evfd k \<longleftrightarrow> open_fds k = {} \<and> (\<forall>g. interest k g = None) \<and>
     (case socket_script k of Inr f # _ \<Rightarrow> 0 \<le> f \<and> created \<noteq> Inr f \<and> evfd \<noteq> f | _ \<Rightarrow> True) \<and>
     (case created of Inr e \<Rightarrow> 0 \<le> e \<and> evfd \<noteq> e | Inl _ \<Rightarrow> True)"

text \<open>The members as the initialiser list leaves them.\<close>

definition members_made :: "int \<Rightarrow> int \<Rightarrow> ('t, 'b) server_scheme \<Rightarrow> bool" where
  "members_made f e s \<longleftrightarrow> listen_socket s = \<lparr>sock_fd = f\<rparr> \<and> epfd (ev_epoll s) = e \<and> heap s = [] \<and>
     connections s = [] \<and> tq_queue (pending_writes s) = [] \<and> \<not> tq_closed (pending_writes s) \<and>
     tq_capacity (pending_writes s) = TQ_DEFAULT_CAPACITY \<and> pool_tasks (thread_pool s) = {} \<and>
     tq_capacity (pool_queue (thread_pool s)) = TQ_DEFAULT_CAPACITY \<and>
     length (ep_events (ev_epoll s)) = MAX_EVENTS \<and> (\<exists>n hw. thread_pool s = new_pool n hw)"

text \<open>The errors of the constructor.\<close>

definition ctor_error :: "fault \<Rightarrow> bool" where
  "ctor_error err \<longleftrightarrow> err = Runtime_error ''eventfd() failed'' \<or>
     (\<exists>call \<in> {''socket()'', ''epoll_create1'', ''setsockopt(SO_REUSEADDR)'', ''setsockopt(SO_REUSEPORT)'', ''bind()'', ''listen()''}.
        \<exists>n. err = throw_errno call n)"

lemma ctor_errorI:
  "call \<in> {''socket()'', ''epoll_create1'', ''setsockopt(SO_REUSEADDR)'', ''setsockopt(SO_REUSEPORT)'', ''bind()'', ''listen()''} \<Longrightarrow>
   ctor_error (throw_errno call n)"
  unfolding ctor_error_def by (rule disjI2, rule bexI, rule exI, rule refl)

lemma ctor_errors [simp]:
  "ctor_error (throw_errno ''socket()'' n)" "ctor_error (throw_errno ''epoll_create1'' n)"
  "ctor_error (throw_errno ''setsockopt(SO_REUSEADDR)'' n)" "ctor_error (throw_errno ''setsockopt(SO_REUSEPORT)'' n)"
  "ctor_error (throw_errno ''bind()'' n)" "ctor_error (throw_errno ''listen()'' n)"
  "ctor_error (Runtime_error ''eventfd() failed'')"
  by (rule ctor_errorI, simp)+ (simp add: ctor_error_def)

lemma new_pool_capacity [simp]: "tq_capacity (pool_queue (new_pool n hw)) = TQ_DEFAULT_CAPACITY"
  by (simp add: new_pool_def new_queue_def)

lemma pool_tasks_new [simp]: "pool_tasks (new_pool n hw) = {}"
  by (auto simp: pool_tasks_def new_pool_def new_queue_def set_replicate_conv_if)

lemma ctor_cases:
  assumes "event_loop_ctor cs created evfd hw port n env s = (r, s')" and "fresh_start created evfd s"
  obtains "\<exists>e. r = Throw e \<and> ctor_error e" "open_fds s' = {}"
  | f e s2 where "f \<noteq> e" "0 \<le> f" "0 \<le> e" "evfd \<noteq> f" "evfd \<noteq> e" "members_made f e s2" "open_fds s2 = {f, e}"
      "\<forall>g. interest s2 g = None" "wakeup_fd s2 = -1" "accept_script s2 = accept_script s"
      "socket_script s = Inr f # tl (socket_script s)" "created = Inr e"
      "(r, s') = (case ctor_body cs evfd port s2 of
                 (Throw e, s3) \<Rightarrow> bind_st (destroy_members env s3) (\<lambda>_ s4. (Throw e, s4))
               | (r, s3) \<Rightarrow> (r, s3))"
      "raw_events_size s2 = raw_events_size s"
proof (cases "socket_script s")
  case Nil
  with assms that(1) show ?thesis
    by (auto simp: event_loop_ctor_def make_tcp_def sys_socket_def fresh_start_def)
next
  case (Cons x rest)
  show ?thesis
  proof (cases x)
    case (Inl err)
    with Cons assms that(1) show ?thesis
      by (auto simp: event_loop_ctor_def make_tcp_def sys_socket_def fresh_start_def)
  next
    case (Inr f)
    let ?s1 = "s\<lparr>socket_script := rest, open_fds := insert f (open_fds s),
                   fd_flags := (fd_flags s)(f := O_NONBLOCK), interest := (interest s)(f := None)\<rparr>"
    have mt: "make_tcp s = (Ret \<lparr>sock_fd = f\<rparr>, ?s1)" using Cons Inr by (simp add: make_tcp_def sys_socket_def)
    have f: "0 \<le> f" "created \<noteq> Inr f" "evfd \<noteq> f" "open_fds s = {}" "\<forall>g. interest s g = None"
      using assms(2) Cons Inr by (simp_all add: fresh_start_def)
    show ?thesis
    proof (cases created)
      case (Inl err)
      have "(r, s') = (Throw (throw_errno ''epoll_create1'' err), Kernel.sys_close f ?s1)"
        using assms(1) mt Inl f(1) by (simp add: event_loop_ctor_def make_epoll_def socket_close_def INVALID_FD_def)
      with f(4) that(1) show ?thesis by (simp add: Kernel.sys_close_def)
    next
      case (Inr e)
      let ?ep = "\<lparr>epfd = e, ep_events = replicate MAX_EVENTS no_event, n_ready = 0\<rparr>"
      let ?s2 = "?s1\<lparr>open_fds := insert e (open_fds ?s1),
                  listen_socket := \<lparr>sock_fd = f\<rparr>, ev_epoll := ?ep, wakeup_fd := -1, heap := [], connections := [],
                  pending_writes := new_queue TQ_DEFAULT_CAPACITY,
                  thread_pool := new_pool n hw, loop_running := False, next_conn_id := 0\<rparr>"
      have e: "f \<noteq> e" "0 \<le> e" "evfd \<noteq> e" using assms(2) Inr f(2) by (simp_all add: fresh_start_def)
      have "members_made f e ?s2" by (auto simp: members_made_def new_queue_def)
      moreover have "open_fds ?s2 = {f, e}" "\<forall>g. interest ?s2 g = None" "wakeup_fd ?s2 = -1" "accept_script ?s2 = accept_script s"
        "raw_events_size ?s2 = raw_events_size s"
        using f(4,5) by auto
      moreover have "(r, s') = (case ctor_body cs evfd port ?s2 of
                 (Throw e, s3) \<Rightarrow> bind_st (destroy_members env s3) (\<lambda>_ s4. (Throw e, s4))
               | (r, s3) \<Rightarrow> (r, s3))"
        using assms(1) mt Inr by (simp add: event_loop_ctor_def make_epoll_def Let_def)
      moreover have "socket_script s = Inr f # tl (socket_script s)" using Cons \<open>x = Inr f\<close> by simp
      ultimately show ?thesis using that(2) e f(1,3) Inr by blast
    qed
  qed
qed

lemma pass_bind: "bind_st (pass_errno x y, s) k =
    (case y of Some e \<Rightarrow> (Throw (throw_errno x e), s) | None \<Rightarrow> k () s)"
  by (cases y) (simp_all add: pass_errno_def)

lemma ctor_body_cases:
  assumes "members_made f e s" and "open_fds s = {f, e}" and "\<forall>g. interest s g = None" and "evfd \<noteq> f" and "f \<noteq> e"
    and "wakeup_fd s = -1"
  obtains err s3 where "ctor_body cs evfd port s = (Throw err, s3)" "members_made f e s3" "open_fds s3 = {f, e}"
      "wakeup_fd s3 < 0" "ctor_error err"
  | s3 where "ctor_body cs evfd port s = (Ret (), s3)" "members_made f e s3" "open_fds s3 = {f, e, evfd}" "wakeup_fd s3 = evfd"
      "0 \<le> evfd" "accept_script s3 = accept_script s" "\<forall>g. interest s3 g \<noteq> None \<longleftrightarrow> g = f \<or> g = evfd"
      "raw_events_size s3 = raw_events_size s"
proof -
  let ?l = "\<lparr>sock_fd = f\<rparr> :: Socket"
  let ?w = "EPOLLIN OR EPOLLET"
  have l: "listen_socket s = ?l" using assms(1) by (simp add: members_made_def)
  let ?s2 = "s\<lparr>interest := (interest s)(f := Some ?w)\<rparr>"
  let ?s3 = "?s2\<lparr>wakeup_fd := evfd, open_fds := insert evfd (open_fds ?s2), interest := (interest ?s2)(evfd := Some ?w)\<rparr>"
  have add: "epoll_add f ?w s = (Ret (), ?s2)" using assms(2,3) by (simp add: epoll_add_ok)
  have add2: "epoll_add evfd ?w (?s2\<lparr>wakeup_fd := evfd, open_fds := insert evfd (open_fds ?s2),
      interest := (interest ?s2)(evfd := None)\<rparr>) = (Ret (), ?s3)"
    using assms(4) by (simp add: epoll_add_ok)
  have m: "members_made f e s3" if "kernel.more s3 = kernel.more (s\<lparr>wakeup_fd := i\<rparr>)" for s3 i
    using that assms(1) by (simp add: members_made_def server_more_eq)
  have body: "ctor_body cs evfd port s =
    (case setsockopt_int cs f ''SO_REUSEADDR'' 1 of Some e \<Rightarrow> (Throw (throw_errno ''setsockopt(SO_REUSEADDR)'' e), s) | None \<Rightarrow>
     case setsockopt_int cs f ''SO_REUSEPORT'' 1 of Some e \<Rightarrow> (Throw (throw_errno ''setsockopt(SO_REUSEPORT)'' e), s) | None \<Rightarrow>
     case sys_bind cs f (htons port) of Some e \<Rightarrow> (Throw (throw_errno ''bind()'' e), s) | None \<Rightarrow>
     case sys_listen cs f DEFAULT_BACKLOG of Some e \<Rightarrow> (Throw (throw_errno ''listen()'' e), s) | None \<Rightarrow>
       if evfd < 0 then (Throw (Runtime_error ''eventfd() failed''), ?s2\<lparr>wakeup_fd := evfd\<rparr>) else (Ret (), ?s3))"
    unfolding ctor_body_def Let_def l set_reuse_addr_def set_reuse_port_def bind_port_def listen_def pass_bind
    using add add2 by (simp cong: option.case_cong)
  show ?thesis
  proof (cases "\<exists>err. ctor_body cs evfd port s = (Throw err, s)")
    case True
    then obtain err where err: "ctor_body cs evfd port s = (Throw err, s)" by blast
    then have "ctor_error err" unfolding body by (auto split: option.splits if_splits)
    with err that(1) assms(1,2,6) show ?thesis by auto
  next
    case False
    have b: "ctor_body cs evfd port s = (if evfd < 0 then (Throw (Runtime_error ''eventfd() failed''), ?s2\<lparr>wakeup_fd := evfd\<rparr>)
        else (Ret (), ?s3))"
    proof -
      have "setsockopt_int cs f ''SO_REUSEADDR'' 1 = None"
        using False unfolding body by (cases "setsockopt_int cs f ''SO_REUSEADDR'' 1") auto
      moreover from this have "setsockopt_int cs f ''SO_REUSEPORT'' 1 = None"
        using False unfolding body by (cases "setsockopt_int cs f ''SO_REUSEPORT'' 1") auto
      moreover from calculation have "sys_bind cs f (htons port) = None"
        using False unfolding body by (cases "sys_bind cs f (htons port)") auto
      moreover from calculation have "sys_listen cs f DEFAULT_BACKLOG = None"
        using False unfolding body by (cases "sys_listen cs f DEFAULT_BACKLOG") auto
      ultimately show ?thesis unfolding body by simp
    qed
    show ?thesis
    proof (cases "evfd < 0")
      case True
      with b that(1) [OF _ m [of _ evfd]] assms(2) show ?thesis by (simp add: server_more_eq)
    next
      case False
      have "members_made f e ?s3" by (rule m [of _ evfd]) (simp add: server_more_eq)
      with False b that(2) assms(2,3) show ?thesis by (simp add: insert_commute)
    qed
  qed
qed

text \<open>\<open>accept4\<close> will return descriptors that are unused once the loop has been made.\<close>

definition fresh_accepts :: "errno + int \<Rightarrow> int \<Rightarrow> 'a kernel_scheme \<Rightarrow> bool" where
  "fresh_accepts created evfd k \<longleftrightarrow> distinct (accept_fds (accept_script k)) \<and>
     (\<forall>g \<in> set (accept_fds (accept_script k)). 0 \<le> g \<and> g \<noteq> evfd \<and> created \<noteq> Inr g \<and>
        (case socket_script k of Inr f # _ \<Rightarrow> g \<noteq> f | _ \<Rightarrow> True))"

lemma ctor_inv:
  assumes "event_loop_ctor cs created evfd hw port n env s = (Ret (), s')" and "fresh_start created evfd s"
  shows "loop_inv tc {#} s' \<and> (fresh_accepts created evfd s \<longrightarrow> accepts_fresh s') \<and> (\<exists>f e. members_made f e s') \<and>
    raw_events_size s' = raw_events_size s"
  using assms
proof (cases rule: ctor_cases)
  case (2 f e s2)
  from 2(6,7,8,4,1,9) show ?thesis
  proof (cases rule: ctor_body_cases [where cs = cs and port = port])
    case (1 err s3)
    with 2(13) show ?thesis by (simp add: bind_st_def split: prod.splits res.splits)
  next
    case b: (2 s3)
    with 2 have s': "s' = s3" by simp
    note m = b(2) [unfolded members_made_def]
    have "owners s3 = {#f, e, evfd#}" using m b(4) by (simp add: owners_def pw_fds_def)
    then have "accounted {#} s3" using b(3) 2(1,4,5) by (auto simp: accounted_def)
    moreover have "table_ok s3" using m by (simp add: table_ok_def)
    moreover have "watch_ok s3" using m b(4,5,7) 2(2,3) by (simp add: watch_ok_def)
    moreover have "refs_ok tc s3" using m by (simp add: refs_ok_def)
    moreover have "accepts_fresh s3" if fa: "fresh_accepts created evfd s"
    proof -
      have "\<forall>g \<in> set (accept_fds (accept_script s)). 0 \<le> g \<and> g \<noteq> evfd \<and> e \<noteq> g \<and> g \<noteq> f"
        using fa 2(12) by (subst (asm) fresh_accepts_def, subst (asm) 2(11)) auto
      then show ?thesis using fa b(3,6) 2(10) by (auto simp: accepts_fresh_def fresh_accepts_def)
    qed
    ultimately show ?thesis using b(2,8) 2(14) by (auto simp: s' loop_inv_def)
  qed
qed auto

lemma join_pool_fst: "fst (join_pool env s) \<in> {Ret (), Blocked}"
  by (simp add: join_pool_def Let_def)

lemma destroy_members_fst: "fst (destroy_members env s) = fst (join_pool env s)"
proof -
  obtain r s1 where "join_pool env s = (r, s1)" by force
  then show ?thesis by (cases r) (simp_all add: destroy_members_def Let_def split: prod.split)
qed

lemma ctor_throws:
  assumes "event_loop_ctor cs created evfd hw port n env s = (Throw err, s')" and "fresh_start created evfd s"
  shows "ctor_error err"
  using assms
proof (cases rule: ctor_cases)
  case (2 f e s2)
  from 2(6,7,8,4,1,9) show ?thesis
  proof (cases rule: ctor_body_cases [where cs = cs and port = port])
    case (1 err2 s3)
    moreover have "fst (destroy_members env s3) \<noteq> Throw e" for e
      using join_pool_fst [of env s3] destroy_members_fst [of env s3] by auto
    ultimately have "err = err2" using 2(13) by (auto simp: bind_st_def split: prod.splits res.splits)
    with 1(5) show ?thesis by simp
  next
    case b: (2 s3)
    with 2(13) show ?thesis by simp
  qed
qed simp

end
