(* ===== verification/Event_Loop_Shared.thy ===== *)
theory Event_Loop_Shared
  imports Event_Loop
begin

text \<open>
  What the loop thread does to the state it shares with the worker threads: the queue of pending
  writes, the pool, the counter of the eventfd and the application's part. A guarantee is a
  transitive relation that holds of steps which leave all that alone and of the callbacks of the
  application; then it holds of the handling of every event, in every state and whatever the
  outcome. Only the wake-up of the eventfd is left out.
\<close>

section \<open>Steps that leave the shared state alone\<close>

definition steady :: "('t, 'b) server_scheme \<Rightarrow> ('t, 'b) server_scheme \<Rightarrow> bool" where
  "steady s s' \<longleftrightarrow> listen_socket s' = listen_socket s \<and> wakeup_fd s' = wakeup_fd s \<and>
     pending_writes s' = pending_writes s \<and> thread_pool s' = thread_pool s \<and>
     eventfd_count s' = eventfd_count s \<and> server.more s' = server.more s \<and>
     ev_epoll s' = ev_epoll s \<and> raw_events_size s' = raw_events_size s"

text \<open>\<open>wait\<close> changes the array of events, which is the loop's own, but not what is shared.\<close>

definition shared_same :: "('t, 'b) server_scheme \<Rightarrow> ('t, 'b) server_scheme \<Rightarrow> bool" where
  "shared_same s s' \<longleftrightarrow> pending_writes s' = pending_writes s \<and> thread_pool s' = thread_pool s \<and>
     eventfd_count s' = eventfd_count s \<and> server.more s' = server.more s"

lemma steady_shared: "steady s s' \<Longrightarrow> shared_same s s'"
  by (simp add: steady_def shared_same_def)

lemma steady_refl [simp]: "steady s s"
  by (simp add: steady_def)

lemma steady_trans: "steady s s1 \<Longrightarrow> steady s1 s2 \<Longrightarrow> steady s s2"
  by (simp add: steady_def)

lemma steady_updates [simp]:
  "steady s (s'\<lparr>heap := h\<rparr>) = steady s s'" "steady s (s'\<lparr>connections := cs\<rparr>) = steady s s'"
  "steady s (s'\<lparr>next_conn_id := i\<rparr>) = steady s s'"
  "steady s (s'\<lparr>rx := r\<rparr>) = steady s s'" "steady s (s'\<lparr>loop_running := b\<rparr>) = steady s s'"
  by (simp_all add: steady_def)

lemma quiet_steady: "quiet s s' \<Longrightarrow> steady s s'"
  by (simp add: quiet_def steady_def server_more_eq)

lemma steady_bind:
  assumes "steady s (snd m)" and "\<And>x s1. m = (Ret x, s1) \<Longrightarrow> steady s1 (snd (f x s1))"
  shows "steady s (snd (bind_st m f))"
proof -
  obtain r s1 where m: "m = (r, s1)" by force
  with assms steady_trans [of s s1] show ?thesis by (cases r) auto
qed

lemma call_conn_steady:
  assumes "quiet s (snd (f (heap s ! p) s))"
  shows "steady s (snd (call_conn f p s))"
  unfolding call_conn_def
  by (rule steady_bind [OF quiet_steady [OF assms]]) (auto split: prod.split)

lemma flush_conn_steady [simp]: "steady s (snd (flush_conn p s))"
  unfolding flush_conn_def by (rule call_conn_steady) (rule flush_write_quiet)

lemma destroy_conn_steady [simp]: "steady s (destroy_conn p s)"
  using quiet_steady [OF quiet_calls(7) [of s "heap s ! p"]] by (simp add: destroy_conn_def Let_def)

lemma epoll_modify_steady [simp]: "steady s (snd (epoll_modify f w s))"
  by (rule quiet_steady) simp

lemma hand_over_steady: "steady s (snd (hand_over pw p s))"
  using quiet_steady [OF quiet_calls(2) [of s]] by (simp add: hand_over_def begin_sendfile_def split: res.split)

text \<open>Delivering a pending write changes nothing that is shared.\<close>

lemma deliver_one_steady: "steady s (snd (deliver_one pw s))"
  using quiet_steady [OF quiet_calls(1) [of s]]
  by (auto simp: deliver_one_def Let_def intro!: steady_bind [OF hand_over_steady] steady_bind [OF flush_conn_steady])

lemma remove_connection_steady: "steady s (remove_connection f s)"
  using quiet_steady [OF quiet_calls(4) [of s f]] by (simp add: remove_connection_def Let_def)

lemma reap_steady: "steady s (reap s)"
proof -
  have "steady s (fold remove_connection fs s)" for fs
  proof (induction fs arbitrary: s)
    case (Cons f fs)
    from steady_trans [OF remove_connection_steady Cons] show ?case by simp
  qed simp
  then show ?thesis by (simp add: reap_def)
qed

lemma epoll_wait_shared:
  assumes "epoll_wait t ep s = (r, s')"
  shows "shared_same s (s'\<lparr>ev_epoll := ep'\<rparr>)"
proof -
  have "kernel.more s' = kernel.more s \<and> eventfd_count s' = eventfd_count s"
    using assms by (auto simp: epoll_wait_def sys_epoll_wait_def Let_def bind_st_def
      split: list.splits ready_event.splits sum.splits res.splits if_splits prod.splits)
  then show ?thesis by (simp add: shared_same_def server_more_eq)
qed

lemma socket_accept_steady: "socket_accept l s = (r, s') \<Longrightarrow> steady s s'"
  by (rule quiet_steady)
    (auto simp: quiet_def socket_accept_def sys_accept4_def split: if_splits list.splits accept_event.splits)

section \<open>Guarantees of the loop\<close>

locale loop_guarantee =
  fixes R :: "('t, 'b) server_scheme \<Rightarrow> ('t, 'b) server_scheme \<Rightarrow> bool" and a :: "('t, 'b) app"
  assumes R_trans: "R s s1 \<Longrightarrow> R s1 s2 \<Longrightarrow> R s s2"
    and R_steady: "steady s s' \<Longrightarrow> R s s'"
    and R_read: "read_cb a p = Some cb \<Longrightarrow> cb c s = (r, s') \<Longrightarrow> R s s'"
    and R_conn: "conn_handler a = Some h \<Longrightarrow> R s (s\<lparr>server.more := h p (server.more s)\<rparr>)"
begin

lemma R_bind:
  assumes "R s (snd m)" and "\<And>x s1. m = (Ret x, s1) \<Longrightarrow> R s1 (snd (f x s1))"
  shows "R s (snd (bind_st m f))"
proof -
  obtain r s1 where m: "m = (r, s1)" by force
  with assms R_trans [of s s1] show ?thesis by (cases r) auto
qed

lemma R_refl: "R s s"
  by (rule R_steady) simp

lemma R_quiet: "quiet s s' \<Longrightarrow> R s s'"
  by (rule R_steady [OF quiet_steady])

lemma call_back_R: "R s (snd (call_back (read_cb a p) c s))"
proof (cases "read_cb a p")
  case (Some cb)
  then show ?thesis using R_read [of p cb c s] by (cases "cb c s") simp
qed (simp add: R_refl)

lemma read_loop_R: "R s (snd (read_loop (read_cb a p) (Some close_cb) script c s))"
proof (induction "rx_size script" arbitrary: script c s rule: less_induct)
  case less
  obtain full c1 where m: "make_read_room c = (full, c1)" by force
  obtain x script1 where x: "(if conn_fd c1 \<in> open_fds s then sys_recv (writable_bytes (read_buf c1)) script
      else (Inl EBADF, [])) = (x, script1)" by force
  note step = read_loop.simps [of _ _ script c s, unfolded m prod.case x]
  have close: "R s (snd (close_return False (Some close_cb) c1 s))"
    by (rule R_quiet) (rule close_return_quiet)
  show ?case
  proof (cases x)
    case (Inl e)
    have "rx_size script1 < rx_size script" if "e = EINTR"
      using x Inl that by (auto split: if_splits intro: sys_recv_progress(2) [OF sym])
    from less [OF this] Inl close show ?thesis by (simp add: step R_refl)
  next
    case (Inr xs)
    have lt: "rx_size script1 < rx_size script" if "xs \<noteq> []"
      using x Inr that by (auto split: if_splits intro: sys_recv_progress(1) [OF sym])
    show ?thesis
      using Inr close less [OF lt] by (auto simp: step R_refl split: res.split intro!: R_bind [OF call_back_R])
  qed
qed

lemma on_readable_R: "R s (snd (call_conn (on_readable (read_cb a p) (Some close_cb)) p s))"
proof -
  let ?s = "s\<lparr>rx := (rx s)(conn_fd (heap s ! p) := rx_later (rx s (conn_fd (heap s ! p))))\<rparr>"
  have 1: "R s ?s" by (rule R_steady) simp
  have 2: "R s (snd (on_readable (read_cb a p) (Some close_cb) (heap s ! p) s))"
    using R_trans [OF 1 read_loop_R] by (simp add: on_readable_def Let_def)
  show ?thesis
    unfolding call_conn_def by (rule R_bind [OF 2]) (auto intro: R_steady split: prod.split)
qed

lemma conn_event_R: "R s (snd (conn_event a e p s))"
proof -
  have c: "R s (snd (call_conn (\<lambda>c k. close_return () (Some close_cb) c k) p s))"
    by (rule R_steady [OF call_conn_steady]) (rule close_return_quiet)
  have w: "R s1 (snd (bind_st (flush_conn p s1) (\<lambda>left s2.
      if left = 0 then epoll_modify (ev_fd e) w s2 else (Ret (), s2))))" for s1 w
    by (rule R_bind [OF R_steady [OF flush_conn_steady]]) (simp add: R_refl R_steady)
  have r: "R s (snd (if is_readable e then call_conn (on_readable (read_cb a p) (Some close_cb)) p s else (Ret True, s)))"
    by (simp add: on_readable_R R_refl)
  show ?thesis
  proof (cases "Epoll.is_closed e")
    case False
    show ?thesis
      unfolding conn_event_def if_not_P [OF False] by (rule R_bind [OF r]) (simp add: w R_refl)
  qed (use c in \<open>simp add: conn_event_def\<close>)
qed

lemma accept_one_R: "R s (snd (accept_one a client s))"
proof -
  let ?p = "length (heap s)"
  let ?s1 = "s\<lparr>next_conn_id := next_conn_id s + 1, heap := heap s @ [new_connection client (next_conn_id s) s],
      connections := (if map_of (connections s) (sock_fd client) = None then connections s @ [(sock_fd client, ?p)] else connections s)\<rparr>"
  have 1: "R s (snd (epoll_add (sock_fd client) w ?s1))" for w
    by (rule R_trans [OF R_steady [of s ?s1] R_quiet]) simp_all
  have h: "R s2 (case conn_handler a of None \<Rightarrow> s2 | Some h \<Rightarrow> s2\<lparr>server.more := h ?p (server.more s2)\<rparr>)" for s2
    by (cases "conn_handler a") (simp_all add: R_refl R_conn)
  show ?thesis
    unfolding accept_one_def Let_def
    by (rule R_bind [OF 1]) (auto intro: h R_trans [OF h R_steady [OF destroy_conn_steady]])
qed

lemma accept_new_connections_R: "R s (snd (accept_new_connections a s))"
proof -
  have "a' = a \<Longrightarrow> R s (snd (accept_new_connections a' s))" for a'
  proof (induction a' s rule: accept_new_connections.induct)
    case (1 a' s)
    obtain r s1 where c: "socket_accept (listen_socket s) s = (r, s1)" by force
    note 2 = R_steady [OF socket_accept_steady [OF c]]
    show ?case
    proof (cases r)
      case (Ret client)
      obtain r2 s2 where o: "accept_one a' client s1 = (r2, s2)" by force
      have 3: "R s s2" using R_trans [OF 2 accept_one_R [of s1 client]] o 1(2) by simp
      have "R s2 (snd (accept_new_connections a' s2))" if "is_valid client" "r2 = Ret u" for u
        using 1(1) [OF c [symmetric] Ret _ o [symmetric] that(2) 1(2)] that(1) by simp
      with Ret c o 2 3 show ?thesis
        by (cases r2) (auto simp: accept_new_connections.simps [of _ s] intro: R_trans)
    qed (use c 2 in \<open>simp_all add: accept_new_connections.simps [of _ s]\<close>)
  qed
  then show ?thesis by simp
qed

lemma handle_event_R:
  "ev_fd e = sock_fd (listen_socket s) \<or> ev_fd e \<noteq> wakeup_fd s \<Longrightarrow> R s (snd (handle_event a e s))"
  by (auto simp: handle_event_def accept_new_connections_R R_refl conn_event_R split: option.split)

end

end
