(* ===== verification/Server_Threads.thy ===== *)
theory Server_Threads
  imports Server_Boot Event_Loop_Shared
begin

text \<open>
  The threads of the server, one action on shared state at a time: a worker runs the handler,
  pushes the response, writes the eventfd and returns to its loop in separate steps, and the loop
  reads the eventfd and then takes the pending writes one by one, so that all the orders in which
  workers and loop can act on the queue of pending writes are runs.
\<close>

section \<open>State\<close>

text \<open>
  Where a worker is in its task: before the handler, with the response built, with the response
  pushed and the loop not yet woken, and at the end.
\<close>

datatype phase = Starting | Posting PendingWrite | Notifying | Returned

record machine =
  shared :: web_server
  phases :: "phase list"
  draining :: bool

text \<open>The arguments of \<open>post_response\<close> in the task that \<open>main.cpp\<close> submits.\<close>

fun task_write :: "header_order \<Rightarrow> Task \<Rightarrow> bool \<Rightarrow> HttpResponse \<Rightarrow> PendingWrite" where
  "task_write ord (Handle_request req conn_ptr keep) found resp =
     (let (file_fd, resp2) = take_sendfile_fd (answer found resp keep)
      in \<lparr>pw_conn = Some conn_ptr, pw_data = serialize ord resp2, pw_file_fd = file_fd,
          pw_file_size = size_to_off (sendfile_size resp2)\<rparr>)"

fun task_request :: "Task \<Rightarrow> HttpRequest" where
  "task_request (Handle_request req p keep) = req"

text \<open>The end of the loop body of worker \<open>i\<close>, whether the task returned or threw.\<close>

definition task_done :: "nat \<Rightarrow> Task \<Rightarrow> web_server \<Rightarrow> web_server" where
  "task_done i t s = s\<lparr>thread_pool := (thread_pool s)
     \<lparr>workers := (workers (thread_pool s))[i := In_pop], finished := finished (thread_pool s) @ [t]\<rparr>\<rparr>"

definition in_phase :: "machine \<Rightarrow> nat \<Rightarrow> Task \<Rightarrow> phase \<Rightarrow> bool" where
  "in_phase m i t ph \<longleftrightarrow> i < length (phases m) \<and> phases m ! i = ph \<and>
     i < length (workers (thread_pool (shared m))) \<and> workers (thread_pool (shared m)) ! i = Running t"

section \<open>Steps\<close>

text \<open>
  The loop waits, handles an event or reaps while it is not draining. An event of a connection is
  one step: what it does to a connection no other thread sees, and what it shares it changes by
  one push. The outside world changes what is to be received and accepted and how
  sending is answered, but no descriptor and nothing that has been sent. \<open>accept4\<close> returns unused descriptors.
\<close>

inductive thread_step ::
  "header_order \<Rightarrow> HttpRequest \<Rightarrow> web_server Router \<Rightarrow> machine \<Rightarrow> machine \<Rightarrow> bool"
  for ord :: header_order and mv :: HttpRequest and router :: "web_server Router" where
  t_wait: "\<not> draining m \<Longrightarrow> epoll_wait EPOLL_TIMEOUT_MS (ev_epoll (shared m)) (shared m) = (Ret (evs, ep), s1) \<Longrightarrow>
    thread_step ord mv router m (m\<lparr>shared := s1\<lparr>ev_epoll := ep\<rparr>\<rparr>)"
| t_event: "\<not> draining m \<Longrightarrow> ev_fd e = sock_fd (listen_socket (shared m)) \<or> ev_fd e \<noteq> wakeup_fd (shared m) \<Longrightarrow>
    accepts_fresh (shared m) \<Longrightarrow> handle_event (web_app ord mv) e (shared m) = (Ret (), s1) \<Longrightarrow>
    thread_step ord mv router m (m\<lparr>shared := s1\<rparr>)"
| t_reap: "\<not> draining m \<Longrightarrow> thread_step ord mv router m (m\<lparr>shared := reap (shared m)\<rparr>)"
| t_wake: "\<not> draining m \<Longrightarrow>
    thread_step ord mv router m (m\<lparr>shared := sys_eventfd_read (shared m), draining := True\<rparr>)"
| t_drain: "draining m \<Longrightarrow> try_pop (pending_writes (shared m)) = (Some pw, q) \<Longrightarrow>
    deliver_one pw ((shared m)\<lparr>pending_writes := q\<rparr>) = (Ret (), s1) \<Longrightarrow>
    thread_step ord mv router m (m\<lparr>shared := s1\<rparr>)"
| t_drained: "draining m \<Longrightarrow> try_pop (pending_writes (shared m)) = (None, q) \<Longrightarrow>
    thread_step ord mv router m (m\<lparr>draining := False\<rparr>)"
| t_take: "i < length (phases m) \<Longrightarrow> phases m ! i = Starting \<Longrightarrow>
    workers (thread_pool (shared m)) ! i = In_pop \<Longrightarrow> worker_begin i (shared m) = (Ret (), s1) \<Longrightarrow>
    thread_step ord mv router m (m\<lparr>shared := s1\<rparr>)"
| t_dispatch: "in_phase m i t Starting \<Longrightarrow>
    dispatch router (task_request t) new_response (shared m) = (Ret (found, resp), s1) \<Longrightarrow>
    thread_step ord mv router m (m\<lparr>shared := s1, phases := (phases m)[i := Posting (task_write ord t found resp)]\<rparr>)"
| t_throw: "in_phase m i t Starting \<Longrightarrow>
    dispatch router (task_request t) new_response (shared m) = (Throw err, s1) \<Longrightarrow>
    thread_step ord mv router m (m\<lparr>shared := s1, phases := (phases m)[i := Returned]\<rparr>)"
| t_push: "in_phase m i t (Posting pw) \<Longrightarrow> push pw (pending_writes (shared m)) = Ret (ok, q) \<Longrightarrow>
    thread_step ord mv router m (m\<lparr>shared := (shared m)\<lparr>pending_writes := q\<rparr>, phases := (phases m)[i := Notifying]\<rparr>)"
| t_notify: "in_phase m i t Notifying \<Longrightarrow>
    thread_step ord mv router m (m\<lparr>shared := sys_eventfd_write (shared m), phases := (phases m)[i := Returned]\<rparr>)"
| t_return: "in_phase m i t Returned \<Longrightarrow>
    thread_step ord mv router m (m\<lparr>shared := task_done i t (shared m), phases := (phases m)[i := Starting]\<rparr>)"
| t_signal: "thread_step ord mv router m (m\<lparr>shared := signal_handler True (shared m)\<rparr>)"
| t_shutdown: "thread_step ord mv router m
    (m\<lparr>shared := (shared m)\<lparr>thread_pool := shutdown_begin (thread_pool (shared m))\<rparr>\<rparr>)"
| t_outside: "quiet (shared m) s1 \<Longrightarrow> open_fds s1 = open_fds (shared m) \<Longrightarrow> interest s1 = interest (shared m) \<Longrightarrow>
    sent s1 = sent (shared m) \<Longrightarrow> thread_step ord mv router m (m\<lparr>shared := s1\<rparr>)"

text \<open>
  The server after its constructor; the parser of a connection is new before the connection
  exists.
\<close>

definition server_start :: "web_server \<Rightarrow> bool" where
  "server_start s \<longleftrightarrow> (\<exists>cs created evfd hw port n env s0. fresh_start created evfd s0 \<and>
     event_loop_ctor cs created evfd hw port n env s0 = (Ret (), s)) \<and> server.more s = (\<lambda>_. new_parser)"

definition machine_start :: "machine \<Rightarrow> bool" where
  "machine_start m \<longleftrightarrow> server_start (shared m) \<and> \<not> draining m \<and>
     phases m = replicate (length (workers (thread_pool (shared m)))) Starting"

section \<open>Sizes\<close>

text \<open>What the server holds for its clients: requests that fit the limits of the parser, full queues at most.\<close>

definition request_fits :: "HttpRequest \<Rightarrow> bool" where
  "request_fits r \<longleftrightarrow> headers_ok (req_headers r) \<and> length (req_path r) \<le> MAX_HEADER_SIZE \<and>
     length (req_body r) \<le> MAX_BODY_SIZE"

definition queue_fits :: "'a TaskQueue \<Rightarrow> bool" where
  "queue_fits q \<longleftrightarrow> tq_capacity q = TQ_DEFAULT_CAPACITY \<and> length (tq_queue q) \<le> TQ_DEFAULT_CAPACITY"

definition sized :: "web_server \<Rightarrow> bool" where
  "sized s \<longleftrightarrow> (\<forall>p. parser_inv (parser_of s p) \<and> max_body_size (parser_of s p) = MAX_BODY_SIZE) \<and>
     (\<forall>t \<in> pool_tasks (thread_pool s). request_fits (task_request t)) \<and>
     queue_fits (pending_writes s) \<and> queue_fits (pool_queue (thread_pool s))"

lemma parser_inv_request: "parser_inv q \<Longrightarrow> max_body_size q = MAX_BODY_SIZE \<Longrightarrow> request_fits (p_request q)"
  using inv_body_bound [of q] by (simp add: request_fits_def parser_inv_def)

lemma queue_fits_push: "queue_fits q \<Longrightarrow> push x q = Ret (ok, q') \<Longrightarrow> queue_fits q'"
  using tq.put_bound [of x q ok q'] tq.put_Ret [of x q ok q'] by (auto simp: queue_fits_def)

lemma queue_fits_pop: "queue_fits q \<Longrightarrow> pop q = Ret (r, q') \<Longrightarrow> queue_fits q'"
  using tq.get_bound [of q r q'] tq.get_Ret [of q r q'] by (auto simp: queue_fits_def)

lemma queue_fits_try_pop: "queue_fits q \<Longrightarrow> try_pop q = (r, q') \<Longrightarrow> queue_fits q'"
  by (auto simp: queue_fits_def try_pop_def split: list.splits)

section \<open>The guarantee of the loop thread\<close>

definition loop_gives :: "web_server \<Rightarrow> web_server \<Rightarrow> bool" where
  "loop_gives s s' \<longleftrightarrow> workers (thread_pool s') = workers (thread_pool s) \<and> eventfd_count s \<le> eventfd_count s' \<and>
     (tq_queue (pending_writes s') \<noteq> [] \<longrightarrow> tq_queue (pending_writes s) \<noteq> [] \<or> 0 < eventfd_count s') \<and>
     (sized s \<longrightarrow> sized s')"

lemma loop_gives_trans: "loop_gives s s1 \<Longrightarrow> loop_gives s1 s2 \<Longrightarrow> loop_gives s s2"
  by (auto simp: loop_gives_def)

lemma loop_gives_same: "shared_same s s' \<Longrightarrow> loop_gives s s'"
  by (simp add: loop_gives_def shared_same_def sized_def parser_of_def)

lemma loop_gives_steady: "steady s s' \<Longrightarrow> loop_gives s s'"
  by (rule loop_gives_same [OF steady_shared])

lemma loop_gives_parser:
  assumes "sized s \<Longrightarrow> parser_inv x \<and> max_body_size x = MAX_BODY_SIZE"
  shows "loop_gives s (set_parser p x s)"
  using assms by (auto simp: loop_gives_def sized_def set_parser_def parser_of_def)

lemma loop_gives_submit:
  assumes "submit_task t s = (r, s')" and "loop_gives s0 s" and "sized s0 \<Longrightarrow> request_fits (task_request t)"
  shows "loop_gives s0 s'"
proof (cases "push t (pool_queue (thread_pool s))")
  case (Ret x)
  then obtain ok q where x: "push t (pool_queue (thread_pool s)) = Ret (ok, q)" by (cases x) simp
  have q: "set (tq_queue q) \<subseteq> insert t (set (tq_queue (pool_queue (thread_pool s))))"
    using tq.put_Ret [OF x] by auto
  have s': "s' = s\<lparr>thread_pool := (thread_pool s)\<lparr>pool_queue := q,
      accepted := accepted (thread_pool s) @ (if ok then [t] else [])\<rparr>\<rparr>"
    using assms(1) x by (simp add: submit_task_def submit_def)
  show ?thesis
    using assms(2,3) q queue_fits_push [OF _ x]
    by (auto simp: s' loop_gives_def sized_def pool_tasks_def parser_of_def)
qed (use assms in \<open>simp_all add: submit_task_def submit_def\<close>)

lemma loop_gives_post:
  assumes "post_response conn data f n s = (r, s')"
  shows "loop_gives s s'"
proof (cases "push \<lparr>pw_conn = conn, pw_data = data, pw_file_fd = f, pw_file_size = n\<rparr> (pending_writes s)")
  case (Ret x)
  then obtain ok q where x: "push \<lparr>pw_conn = conn, pw_data = data, pw_file_fd = f, pw_file_size = n\<rparr> (pending_writes s) =
      Ret (ok, q)" by (cases x) simp
  then show ?thesis
    using assms queue_fits_push [OF _ x]
    by (auto simp: post_response_def loop_gives_def sized_def parser_of_def sys_eventfd_write_def)
qed (use assms loop_gives_steady in \<open>simp_all add: post_response_def\<close>)

lemma loop_gives_read:
  assumes "read_callback ord mv p c s = (r, s')"
  shows "loop_gives s s'"
proof -
  obtain res ps where f: "feed (readable (read_buf c)) (parser_of s p) = (res, ps)" by force
  have ps: "parser_inv ps" "max_body_size ps = MAX_BODY_SIZE" if "sized s"
    using that feed_inv [of "parser_of s p"] feed_max_body_size [of _ "parser_of s p"] f
    by (auto simp: sized_def) (metis snd_conv)+
  have rs: "parser_inv (reset ps) \<and> max_body_size (reset ps) = MAX_BODY_SIZE" if "sized s"
    using ps(2) [OF that] reset_inv by (simp add: reset_def)
  note cb = read_callback_eq [OF f, of ord mv]
  show ?thesis
  proof (cases res)
    case Incomplete
    with cb assms loop_gives_parser [of s ps p] ps show ?thesis by simp
  next
    case Complete
    let ?t = "Handle_request (p_request ps) p (wants_keep_alive (p_request ps))"
    obtain r1 s1 where s1: "submit_task ?t (set_parser p (reset ps) s) = (r1, s1)" by force
    have "loop_gives s (set_parser p (reset ps) s)" by (rule loop_gives_parser) (rule rs)
    moreover have "request_fits (task_request ?t)" if "sized s"
      using parser_inv_request ps [OF that] by simp
    ultimately have "loop_gives s s1" by (rule loop_gives_submit [OF s1])
    moreover have "s' = s1" using cb Complete assms s1 by (cases r1) simp_all
    ultimately show ?thesis by simp
  next
    case Error
    let ?d = "serialize ord (make_error BadRequest (p_error ps))"
    obtain r1 s1 where s1: "post_response (Some p) ?d (-1) 0 (set_parser p ps s) = (r1, s1)" by force
    have "loop_gives s (set_parser p ps s)" by (rule loop_gives_parser) (simp add: ps)
    then have "loop_gives s s1" using loop_gives_post [OF s1] by (rule loop_gives_trans)
    moreover have "s' = s1" using cb Error assms s1 by (cases r1) simp_all
    ultimately show ?thesis by simp
  qed
qed

lemma new_parser_fits: "parser_inv new_parser" "max_body_size new_parser = MAX_BODY_SIZE"
  by (simp_all add: parser_inv_def new_parser_def empty_request_def)

interpretation web_guarantee: loop_guarantee loop_gives "web_app ord mv"
proof
  fix p cb c s r and s' :: web_server
  assume "read_cb (web_app ord mv) p = Some cb" "cb c s = (r, s')"
  then show "loop_gives s s'" using loop_gives_read by (auto simp: web_app_def)
next
  fix h p and s :: web_server
  assume "conn_handler (web_app ord mv) = Some h"
  then have "s\<lparr>server.more := h p (server.more s)\<rparr> = set_parser p new_parser s"
    by (auto simp: web_app_def on_connection_def set_parser_def)
  then show "loop_gives s (s\<lparr>server.more := h p (server.more s)\<rparr>)"
    using loop_gives_parser [of s new_parser p] new_parser_fits by simp
qed (use loop_gives_trans loop_gives_steady in blast)+

section \<open>The invariant\<close>

fun phase_fds :: "phase \<Rightarrow> int multiset" where
  "phase_fds (Posting pw) = owns (pw_file_fd pw)"
| "phase_fds _ = {#}"

text \<open>The files that workers hold.\<close>

definition hand_fds :: "machine \<Rightarrow> int multiset" where
  "hand_fds m = sum_list (map phase_fds (phases m))"

definition phases_ok :: "machine \<Rightarrow> bool" where
  "phases_ok m \<longleftrightarrow> length (phases m) = length (workers (thread_pool (shared m))) \<and>
     (\<forall>i < length (phases m). phases m ! i \<noteq> Starting \<longrightarrow>
        (\<exists>t. workers (thread_pool (shared m)) ! i = Running t \<and>
           (\<forall>pw. phases m ! i = Posting pw \<longrightarrow> pw_conn pw = Some (task_conn t))))"

text \<open>A queued response is known to the loop, or a worker is about to tell.\<close>

definition announced :: "machine \<Rightarrow> bool" where
  "announced m \<longleftrightarrow> (tq_queue (pending_writes (shared m)) \<noteq> [] \<longrightarrow>
     0 < eventfd_count (shared m) \<or> draining m \<or> Notifying \<in> set (phases m))"

definition machine_inv :: "machine \<Rightarrow> bool" where
  "machine_inv m \<longleftrightarrow> loop_inv task_conn (hand_fds m) (shared m) \<and> phases_ok m \<and> announced m \<and> sized (shared m)"

lemma hand_fds_update:
  assumes "i < length (phases m)"
  obtains E where "hand_fds m = phase_fds (phases m ! i) + E"
    and "\<And>ph s. hand_fds (m\<lparr>shared := s, phases := (phases m)[i := ph]\<rparr>) = phase_fds ph + E"
proof -
  let ?E = "sum_list (map phase_fds (take i (phases m) @ drop (Suc i) (phases m)))"
  have "hand_fds m = phase_fds (phases m ! i) + ?E"
    unfolding hand_fds_def by (subst id_take_nth_drop [OF assms]) (simp add: ac_simps)
  moreover have "hand_fds (m\<lparr>shared := s, phases := (phases m)[i := ph]\<rparr>) = phase_fds ph + ?E" for ph s
    using assms by (simp add: hand_fds_def upd_conv_take_nth_drop ac_simps)
  ultimately show ?thesis by (rule that)
qed

lemma hand_fds_nonneg: "\<forall>g \<in># hand_fds m. 0 \<le> g"
proof -
  have "0 \<le> g" if "g \<in># phase_fds ph" for g ph
    using that by (cases ph) (auto simp: owns_def split: if_splits)
  then show ?thesis by (auto simp: hand_fds_def in_sum_list)
qed

text \<open>A step of the loop thread or of the outside world.\<close>

lemma loop_thread_inv:
  assumes "machine_inv m" and "loop_inv task_conn (hand_fds m) s1" and "sized s1"
    and "workers (thread_pool s1) = workers (thread_pool (shared m))"
    and "tq_queue (pending_writes s1) \<noteq> [] \<longrightarrow> 0 < eventfd_count s1 \<or> d \<or> Notifying \<in> set (phases m)"
  shows "machine_inv (m\<lparr>shared := s1, draining := d\<rparr>)"
  using assms by (simp add: machine_inv_def hand_fds_def phases_ok_def announced_def)

lemma loop_gives_inv:
  assumes "machine_inv m" and "loop_inv task_conn (hand_fds m) s1" and "loop_gives (shared m) s1"
  shows "machine_inv (m\<lparr>shared := s1\<rparr>)"
proof -
  have "machine_inv (m\<lparr>shared := s1, draining := draining m\<rparr>)"
    by (rule loop_thread_inv [OF assms(1,2)]) (use assms in \<open>auto simp: loop_gives_def machine_inv_def announced_def\<close>)
  then show ?thesis by simp
qed

text \<open>A step of a worker inside a task.\<close>

lemma worker_thread_inv:
  assumes "machine_inv m" and "in_phase m i t ph"
    and "\<And>E. hand_fds m = phase_fds ph + E \<Longrightarrow> loop_inv task_conn (phase_fds ph1 + E) s1" and "sized s1"
    and "workers (thread_pool s1) = workers (thread_pool (shared m))"
    and "\<forall>pw. ph1 = Posting pw \<longrightarrow> pw_conn pw = Some (task_conn t)"
    and "tq_queue (pending_writes s1) = tq_queue (pending_writes (shared m)) \<or> ph1 = Notifying"
    and "eventfd_count (shared m) \<le> eventfd_count s1" and "ph = Notifying \<Longrightarrow> 0 < eventfd_count s1"
  shows "machine_inv (m\<lparr>shared := s1, phases := (phases m)[i := ph1]\<rparr>)"
proof -
  let ?m = "m\<lparr>shared := s1, phases := (phases m)[i := ph1]\<rparr>"
  have i: "i < length (phases m)" "phases m ! i = ph" "workers (thread_pool (shared m)) ! i = Running t"
    using assms(2) by (simp_all add: in_phase_def)
  obtain E where E: "hand_fds m = phase_fds ph + E" "hand_fds ?m = phase_fds ph1 + E"
    using hand_fds_update [OF i(1)] i(2) by metis
  have "loop_inv task_conn (hand_fds ?m) (shared ?m)" using assms(3) [OF E(1)] E(2) by simp
  moreover have "phases_ok ?m"
    using assms(1,5,6) i by (auto simp: machine_inv_def phases_ok_def nth_list_update)
  moreover have "announced ?m"
  proof -
    have "Notifying \<in> set ((phases m)[i := ph1])" if "Notifying \<in> set (phases m)" "ph \<noteq> Notifying"
      using that i by (metis in_set_conv_nth length_list_update nth_list_update_neq)
    moreover have "Notifying \<in> set ((phases m)[i := Notifying])" using i(1) by (simp add: set_update_memI)
    ultimately show ?thesis
      using assms(1,7,8,9) by (cases "ph = Notifying") (auto simp: machine_inv_def announced_def)
  qed
  ultimately show ?thesis using assms(4) by (simp add: machine_inv_def)
qed

text \<open>The handler has returned or thrown; what it opened is in the hand of the worker.\<close>

lemma dispatched_inv:
  assumes "machine_inv m" and "in_phase m i t Starting" and "handler_opens f (shared m) s1"
    and "phase_fds ph = owns f" and "\<forall>pw. ph = Posting pw \<longrightarrow> pw_conn pw = Some (task_conn t)" and "ph \<noteq> Notifying"
  shows "machine_inv (m\<lparr>shared := s1, phases := (phases m)[i := ph]\<rparr>)"
proof (rule worker_thread_inv [OF assms(1,2)])
  fix E assume "hand_fds m = phase_fds Starting + E"
  with assms(1) have "loop_inv task_conn E (shared m)" by (simp add: machine_inv_def)
  from opened_inv [OF this assms(3)] assms(4) show "loop_inv task_conn (phase_fds ph + E) s1" by simp
next
  have st: "steady (shared m) s1" using assms(3) by (intro quiet_steady) (simp add: handler_opens_def)
  then show "sized s1" using loop_gives_steady [OF st] assms(1) by (simp add: loop_gives_def machine_inv_def)
  show "workers (thread_pool s1) = workers (thread_pool (shared m))" "eventfd_count (shared m) \<le> eventfd_count s1"
    "tq_queue (pending_writes s1) = tq_queue (pending_writes (shared m)) \<or> ph = Notifying"
    using st by (simp_all add: steady_def)
qed (use assms(5) in simp_all)

lemma take_inv:
  assumes "machine_inv m" and "i < length (phases m)" and "phases m ! i = Starting"
    and "worker_begin i (shared m) = (Ret (), s1)"
  shows "machine_inv (m\<lparr>shared := s1\<rparr>)"
proof -
  obtain p where p: "worker_take i (thread_pool (shared m)) = Ret p" "s1 = (shared m)\<lparr>thread_pool := p\<rparr>"
    using assms(4) by (auto simp: worker_begin_def split: res.splits)
  have "length (workers p) = length (workers (thread_pool (shared m))) \<and> (\<forall>j. j \<noteq> i \<longrightarrow>
      workers p ! j = workers (thread_pool (shared m)) ! j) \<and> pool_tasks p \<subseteq> pool_tasks (thread_pool (shared m))"
    using p(1) by (cases rule: worker_take_cases) (auto simp: pool_tasks_def dest: running_in_update)
  moreover have "queue_fits (pool_queue p)"
    using p(1) assms(1) queue_fits_pop
    by (cases rule: worker_take_cases) (auto simp: machine_inv_def sized_def)
  moreover have "loop_inv task_conn (hand_fds m) s1"
    using assms(1) by (intro worker_begin_inv [OF _ assms(4)]) (simp add: machine_inv_def)
  ultimately show ?thesis
    using assms(1,3) p(2)
    by (auto simp: machine_inv_def phases_ok_def announced_def sized_def parser_of_def hand_fds_def)
qed

lemma return_inv:
  assumes "machine_inv m" and "in_phase m i t Returned"
  shows "machine_inv (m\<lparr>shared := task_done i t (shared m), phases := (phases m)[i := Starting]\<rparr>)"
proof -
  let ?s = "task_done i t (shared m)"
  let ?m = "m\<lparr>shared := ?s, phases := (phases m)[i := Starting]\<rparr>"
  have i: "i < length (phases m)" "phases m ! i = Returned" using assms(2) by (simp_all add: in_phase_def)
  have E: "hand_fds ?m = hand_fds m" using hand_fds_update [OF i(1)] i(2) by (metis phase_fds.simps(2,4))
  have t: "pool_tasks (thread_pool ?s) \<subseteq> pool_tasks (thread_pool (shared m))"
    by (auto simp: task_done_def pool_tasks_def dest: running_in_update)
  have "loop_inv task_conn (hand_fds m) ?s"
    using assms(1) t inv_pool unfolding task_done_def by (auto simp: machine_inv_def)
  moreover have "phases_ok ?m"
    using assms(1) i by (auto simp: machine_inv_def phases_ok_def task_done_def nth_list_update)
  moreover have "announced ?m"
  proof -
    have "Notifying \<in> set ((phases m)[i := Starting])" if "Notifying \<in> set (phases m)"
      using that i by (metis in_set_conv_nth length_list_update nth_list_update_neq phase.distinct(11))
    then show ?thesis using assms(1) by (auto simp: machine_inv_def announced_def task_done_def)
  qed
  moreover have "sized ?s"
    using assms(1) t by (auto simp: machine_inv_def sized_def task_done_def parser_of_def)
  ultimately show ?thesis using E by (simp add: machine_inv_def)
qed

lemma start_inv:
  assumes "machine_start m"
  shows "machine_inv m"
proof -
  let ?s = "shared m"
  have "sum_list (replicate n {#}) = {#}" for n :: nat by (induction n) simp_all
  then have "hand_fds m = {#}" using assms by (simp add: machine_start_def hand_fds_def)
  moreover obtain f e where i: "loop_inv task_conn {#} ?s" "members_made f e ?s"
    using assms ctor_inv [where tc = task_conn] unfolding machine_start_def server_start_def by blast
  moreover have "pool_tasks (thread_pool ?s) = {} \<Longrightarrow> tq_queue (pool_queue (thread_pool ?s)) = []"
    by (simp add: pool_tasks_def)
  then have "sized ?s"
    using i(2) assms new_parser_fits
    by (simp add: sized_def members_made_def queue_fits_def machine_start_def server_start_def parser_of_def)
  ultimately show ?thesis
    using assms by (simp add: machine_inv_def machine_start_def phases_ok_def announced_def members_made_def)
qed

lemma thread_step_inv:
  assumes "thread_step ord mv router m m'" and "machine_inv m" and "router_ok router"
  shows "machine_inv m'"
  using assms(1)
proof cases
  case (t_wait evs ep s1)
  have i: "loop_inv task_conn (hand_fds m) (shared m)" using assms(2) by (simp add: machine_inv_def)
  from loop_gives_inv [OF assms(2) inv_waited [OF i t_wait(3)] loop_gives_same [OF epoll_wait_shared [OF t_wait(3)]]] t_wait(1)
  show ?thesis by simp
next
  case (t_event e s1)
  have i: "loop_inv task_conn (hand_fds m) (shared m)" using assms(2) by (simp add: machine_inv_def)
  have cb: "\<forall>p. read_cb (web_app ord mv) p = Some (read_callback ord mv p)" by (simp add: web_app_def)
  from web_loop.handle_event_inv [OF i t_event(4) cb t_event(5) hand_fds_nonneg]
  have "loop_inv task_conn (hand_fds m) s1" by auto
  moreover have "loop_gives (shared m) s1"
    using web_guarantee.handle_event_R [OF t_event(3), of ord mv] t_event(5) by simp
  ultimately show ?thesis using loop_gives_inv [OF assms(2)] t_event(1) by simp
next
  case t_reap
  have "loop_inv task_conn (hand_fds m) (shared m)" using assms(2) by (simp add: machine_inv_def)
  from loop_gives_inv [OF assms(2) reap_inv [OF this] loop_gives_steady [OF reap_steady]] t_reap(1) show ?thesis by simp
next
  case t_wake
  have "loop_inv task_conn (hand_fds m) (sys_eventfd_read (shared m))"
    using assms(2) inv_cong [of "sys_eventfd_read (shared m)" "shared m"] by (simp add: sys_eventfd_read_def machine_inv_def)
  then show ?thesis
    unfolding t_wake(1)
    by (rule loop_thread_inv [OF assms(2)])
      (use assms(2) in \<open>simp_all add: machine_inv_def sys_eventfd_read_def sized_def parser_of_def\<close>)
next
  case (t_drain pw q s1)
  let ?s = "(shared m)\<lparr>pending_writes := q\<rparr>"
  have i: "loop_inv task_conn (hand_fds m) (shared m)" using assms(2) by (simp add: machine_inv_def)
  have l: "loop_inv task_conn (hand_fds m) s1" using deliver_one_inv [OF popped_inv [OF i t_drain(3)]] t_drain(4) by auto
  have st: "steady ?s s1" using deliver_one_steady [of ?s pw] t_drain(4) by simp
  have "sized ?s"
    using assms(2) queue_fits_try_pop [OF _ t_drain(3)] by (simp add: machine_inv_def sized_def parser_of_def)
  then have "sized s1" using loop_gives_steady [OF st] by (simp add: loop_gives_def)
  moreover have "workers (thread_pool s1) = workers (thread_pool (shared m))" using st by (simp add: steady_def)
  ultimately have "machine_inv (m\<lparr>shared := s1, draining := True\<rparr>)" by (intro loop_thread_inv [OF assms(2) l]) simp_all
  moreover have "m' = m\<lparr>shared := s1, draining := True\<rparr>" using t_drain(1,2) by simp
  ultimately show ?thesis by simp
next
  case (t_drained q)
  have "tq_queue (pending_writes (shared m)) = []" using t_drained(3) by (auto simp: try_pop_def split: list.splits)
  with assms(2) show ?thesis
    by (simp add: t_drained(1) machine_inv_def announced_def phases_ok_def hand_fds_def)
next
  case (t_take i s1)
  with take_inv [OF assms(2)] show ?thesis by simp
next
  case (t_dispatch i t found resp s1)
  obtain req p keep where t: "t = Handle_request req p keep" by (cases t)
  have pw: "pw_file_fd (task_write ord t found resp) = (if found then sendfile_fd resp else -1)"
    "pw_conn (task_write ord t found resp) = Some (task_conn t)"
    by (simp_all add: t take_sendfile_fd_def)
  have "handler_opens (pw_file_fd (task_write ord t found resp)) (shared m) s1"
    using dispatch_opens [OF assms(3) t_dispatch(3)] pw(1) by simp
  from dispatched_inv [OF assms(2) t_dispatch(2) this, of "Posting (task_write ord t found resp)"] pw(2)
  show ?thesis by (simp add: t_dispatch(1))
next
  case (t_throw i t err s1)
  have "handler_opens (-1) (shared m) s1" using dispatch_opens [OF assms(3) t_throw(3)] by simp
  from dispatched_inv [OF assms(2) t_throw(2) this, of Returned] show ?thesis by (simp add: t_throw(1) owns_def)
next
  case (t_push i t pw ok q)
  have c: "pw_conn pw = Some (task_conn t)" and r: "ref_ok (shared m) (task_conn t)"
    using assms(2) t_push(2) running_task [of i "thread_pool (shared m)" t]
    by (auto simp: machine_inv_def phases_ok_def in_phase_def loop_inv_def refs_ok_def)
  show ?thesis
    unfolding t_push(1)
  proof (rule worker_thread_inv [OF assms(2) t_push(2)])
    fix E assume "hand_fds m = phase_fds (Posting pw) + E"
    with assms(2) have "loop_inv task_conn (owns (pw_file_fd pw) + E) (shared m)" by (simp add: machine_inv_def)
    from pushed_inv [OF this t_push(3)] c r show "loop_inv task_conn (phase_fds Notifying + E) ((shared m)\<lparr>pending_writes := q\<rparr>)" by simp
  next
    show "sized ((shared m)\<lparr>pending_writes := q\<rparr>)"
      using assms(2) queue_fits_push [OF _ t_push(3)] by (simp add: machine_inv_def sized_def parser_of_def)
  qed simp_all
next
  case (t_notify i t)
  let ?s = "sys_eventfd_write (shared m)"
  show ?thesis
    unfolding t_notify(1)
  proof (rule worker_thread_inv [OF assms(2) t_notify(2)])
    fix E assume "hand_fds m = phase_fds Notifying + E"
    then show "loop_inv task_conn (phase_fds Returned + E) ?s"
      using assms(2) inv_cong [of ?s "shared m"] by (simp add: machine_inv_def sys_eventfd_write_def)
  next
    show "sized ?s" using assms(2) by (simp add: machine_inv_def sized_def parser_of_def sys_eventfd_write_def)
  qed (simp_all add: sys_eventfd_write_def)
next
  case (t_return i t)
  with return_inv [OF assms(2)] show ?thesis by simp
next
  case t_signal
  have "loop_inv task_conn (hand_fds m) (stop (shared m))"
    using assms(2) inv_cong [of "stop (shared m)" "shared m"] by (simp add: stop_def machine_inv_def)
  moreover have "steady (shared m) (stop (shared m))" by (simp add: stop_def)
  ultimately show ?thesis
    using loop_gives_inv [OF assms(2) _ loop_gives_steady] t_signal by (simp add: signal_handler_def)
next
  case t_shutdown
  have "loop_inv task_conn (hand_fds m) ((shared m)\<lparr>thread_pool := shutdown_begin (thread_pool (shared m))\<rparr>)"
    using assms(2) by (intro inv_pool) (simp_all add: machine_inv_def)
  then show ?thesis
    unfolding t_shutdown
    by (rule loop_gives_inv [OF assms(2)])
      (auto simp: loop_gives_def sized_def parser_of_def queue_fits_def shutdown_begin_def close_def pool_tasks_def)
next
  case (t_outside s1)
  have "kernel.more s1 = kernel.more (shared m)" using t_outside(2) by (simp add: quiet_def)
  then have "loop_inv task_conn (hand_fds m) s1"
    using assms(2) t_outside(3,4) inv_cong [of s1 "shared m"] by (simp add: machine_inv_def server_more_eq)
  from loop_gives_inv [OF assms(2) this loop_gives_steady [OF quiet_steady [OF t_outside(2)]]] t_outside(1) show ?thesis by simp
qed

interpretation threads: inductive_invariant machine_start "\<lambda>m m'. router_ok router \<and> thread_step ord mv router m m'" machine_inv
proof (unfold_locales, goal_cases)
  case (1 m)
  then show ?case by (rule start_inv)
next
  case (2 m m')
  then show ?case by (blast intro: thread_step_inv)
qed

lemma reachable_steps: "step\<^sup>*\<^sup>* s s' \<Longrightarrow> reachable init step s \<Longrightarrow> reachable init step s'"
  by (induction rule: rtranclp_induct) (blast intro: reachable.reach_step)+

lemma reachable_mono:
  assumes "reachable init step s" and "\<And>s s'. step s s' \<Longrightarrow> step' s s'"
  shows "reachable init step' s"
  using assms(1) by (induction rule: reachable.induct) (auto intro: reach_init reach_step assms(2))

lemma machine_reachable_inv:
  assumes "reachable machine_start (thread_step ord mv router) m" and "router_ok router"
  shows "machine_inv m"
proof -
  have "reachable machine_start (\<lambda>m m'. router_ok router \<and> thread_step ord mv router m m') m"
    by (rule reachable_mono [OF assms(1)]) (use assms(2) in blast)
  then show ?thesis by (rule threads.inv_reachable)
qed

end
