(* ===== verification/Server_Machine.thy ===== *)
theory Server_Machine
  imports Server_Threads
begin

text \<open>
  The server with whole tasks and events as steps: each of its runs is a run of the threads of
  \<open>Server_Threads\<close>. Then what the invariant says of the reachable states.
\<close>

section \<open>Atomic steps\<close>

text \<open>
  The loop waits, handles an event or reaps; a worker takes a task or runs one; a signal handler
  or the end of \<open>run\<close> stops the server; the outside world changes what the sockets
  have to receive, how much they take and which clients wait to be accepted.
\<close>

inductive server_step ::
  "header_order \<Rightarrow> HttpRequest \<Rightarrow> web_server Router \<Rightarrow> web_server \<Rightarrow> web_server \<Rightarrow> bool"
  for ord :: header_order and mv :: HttpRequest and router :: "web_server Router" where
  srv_wait: "epoll_wait EPOLL_TIMEOUT_MS (ev_epoll s) s = (Ret (evs, ep), s1) \<Longrightarrow>
    server_step ord mv router s (s1\<lparr>ev_epoll := ep\<rparr>)"
| srv_event: "accepts_fresh s \<Longrightarrow> handle_event (web_app ord mv) e s = (Ret (), s') \<Longrightarrow>
    server_step ord mv router s s'"
| srv_reap: "server_step ord mv router s (reap s)"
| srv_take: "i < length (workers (thread_pool s)) \<Longrightarrow> workers (thread_pool s) ! i = In_pop \<Longrightarrow>
    worker_begin i s = (Ret (), s') \<Longrightarrow> server_step ord mv router s s'"
| srv_task: "i < length (workers (thread_pool s)) \<Longrightarrow> workers (thread_pool s) ! i = Running t \<Longrightarrow>
    worker_end ord router i t s = (Ret (), s') \<Longrightarrow> server_step ord mv router s s'"
| srv_signal: "server_step ord mv router s (signal_handler True s)"
| srv_shutdown: "server_step ord mv router s (s\<lparr>thread_pool := shutdown_begin (thread_pool s)\<rparr>)"
| srv_outside: "quiet s s' \<Longrightarrow> open_fds s' = open_fds s \<Longrightarrow> interest s' = interest s \<Longrightarrow>
    sent s' = sent s \<Longrightarrow> server_step ord mv router s s'"

section \<open>An atomic step is a run of the threads\<close>

definition at_rest :: "web_server \<Rightarrow> machine" where
  "at_rest s = \<lparr>shared = s, phases = replicate (length (workers (thread_pool s))) Starting, draining = False\<rparr>"

lemma at_rest_sel [simp]: "shared (at_rest s) = s" "\<not> draining (at_rest s)" "hand_fds (at_rest s) = {#}"
proof -
  have "sum_list (replicate n {#}) = {#}" for n :: nat by (induction n) simp_all
  then show "shared (at_rest s) = s" "\<not> draining (at_rest s)" "hand_fds (at_rest s) = {#}"
    by (simp_all add: at_rest_def hand_fds_def)
qed

lemma at_rest_shared:
  "length (workers (thread_pool s')) = length (workers (thread_pool s)) \<Longrightarrow> (at_rest s)\<lparr>shared := s'\<rparr> = at_rest s'"
  by (simp add: at_rest_def)

lemma drain_threads:
  assumes "drain_loop s = (Ret (), s')"
  shows "(thread_step ord mv router)\<^sup>*\<^sup>* (m\<lparr>shared := s, draining := True\<rparr>) (m\<lparr>shared := s', draining := False\<rparr>)"
  using assms
proof (induction s rule: drain_loop.induct)
  case (1 s)
  let ?m = "m\<lparr>shared := s, draining := True\<rparr>"
  obtain x q where x: "try_pop (pending_writes s) = (x, q)" by force
  show ?case
  proof (cases x)
    case None
    with x 1(2) have "s' = s" by (simp add: drain_loop.simps [of s])
    with t_drained [of ?m q ord mv router] x None show ?thesis by simp
  next
    case (Some pw)
    obtain r s1 where d: "deliver_one pw (s\<lparr>pending_writes := q\<rparr>) = (r, s1)" by force
    with 1(2) x Some have r: "r = Ret ()" "drain_loop s1 = (Ret (), s')"
      by (auto simp: drain_loop.simps [of s] split: res.splits)
    have "thread_step ord mv router ?m (?m\<lparr>shared := s1\<rparr>)"
      by (rule t_drain) (use x d r(1) Some in simp_all)
    moreover have "?m\<lparr>shared := s1\<rparr> = m\<lparr>shared := s1, draining := True\<rparr>" by simp
    ultimately have "thread_step ord mv router ?m (m\<lparr>shared := s1, draining := True\<rparr>)" by metis
    then show ?thesis
      by (rule converse_rtranclp_into_rtranclp [OF _ 1(1) [OF x [symmetric] Some d [symmetric] r(1) r(2)]])
  qed
qed

lemma task_threads:
  assumes "i < length (workers (thread_pool s))" and "workers (thread_pool s) ! i = Running t"
    and "worker_end ord router i t s = (Ret (), s')" and "router_ok router"
  shows "(thread_step ord mv router)\<^sup>*\<^sup>* (at_rest s) (at_rest s')"
proof -
  obtain req p keep where t: "t = Handle_request req p keep" by (cases t)
  let ?step = "thread_step ord mv router"
  let ?at = "\<lambda>s ph. \<lparr>shared = s, phases = (replicate (length (workers (thread_pool s))) Starting)[i := ph], draining = False\<rparr>"
  have "(replicate n Starting)[i := Starting] = replicate n Starting" for n
    by (cases "i < n") (simp_all add: list_update_same_conv list_update_beyond)
  then have rest: "at_rest u = ?at u Starting" for u by (simp add: at_rest_def)
  have ip: "in_phase (?at u ph) i t ph" if "thread_pool u = thread_pool s" for u ph
    using assms(1,2) that by (simp add: in_phase_def)
  obtain r s1 where d: "dispatch router req new_response s = (r, s1)" by force
  have "quiet s s1" using dispatch_opens [OF assms(4) d] by (simp add: handler_opens_def)
  then have tp: "thread_pool s1 = thread_pool s" using quiet_steady [of s s1] by (simp add: steady_def)
  have return: "?step (?at u Returned) (at_rest (task_done i t u))" if "thread_pool u = thread_pool s" for u
    using t_return [OF ip [OF that], of ord mv router] by (simp add: rest task_done_def)
  show ?thesis
  proof (cases r)
    case (Ret x)
    obtain found resp where x: "x = (found, resp)" by force
    let ?pw = "task_write ord t found resp"
    have "run_task ord router t s = (case push ?pw (pending_writes s1) of
        Ret (ok, q) \<Rightarrow> (Ret (), sys_eventfd_write (s1\<lparr>pending_writes := q\<rparr>))
      | Throw e \<Rightarrow> (Throw e, s1) | Blocked \<Rightarrow> (Blocked, s1))"
      using d Ret x by (simp add: t post_response_def take_sendfile_fd_def Let_def)
    moreover obtain ok q where q: "push ?pw (pending_writes s1) = Ret (ok, q)"
    proof (cases rule: tq.put_cases [of ?pw "pending_writes s1"])
      case 1
      with calculation assms(3) show ?thesis by (simp add: worker_end_def worker_run_def)
    qed (use that in blast)+
    ultimately have s': "s' = task_done i t (sys_eventfd_write (s1\<lparr>pending_writes := q\<rparr>))"
      using assms(3) by (simp add: worker_end_def worker_run_def task_done_def tp sys_eventfd_write_def)
    have "?step (at_rest s) (?at s1 (Posting ?pw))"
      using t_dispatch [OF ip, of s router found resp s1 ord mv] d Ret x t tp by (simp add: rest)
    moreover have "?step (?at s1 (Posting ?pw)) (?at (s1\<lparr>pending_writes := q\<rparr>) Notifying)"
      using t_push [OF ip [OF tp], of ?pw ok q ord mv router] q by simp
    moreover have "?step (?at (s1\<lparr>pending_writes := q\<rparr>) Notifying) (?at (sys_eventfd_write (s1\<lparr>pending_writes := q\<rparr>)) Returned)"
      using t_notify [OF ip [of "s1\<lparr>pending_writes := q\<rparr>"], of ord mv router] tp by (simp add: sys_eventfd_write_def)
    moreover have "?step (?at (sys_eventfd_write (s1\<lparr>pending_writes := q\<rparr>)) Returned) (at_rest s')"
      unfolding s' by (rule return) (simp add: tp sys_eventfd_write_def)
    ultimately show ?thesis by (meson rtranclp.rtrancl_refl rtranclp.rtrancl_into_rtrancl)
  next
    case (Throw err)
    have s': "s' = task_done i t s1"
      using assms(3) d Throw by (simp add: t worker_end_def worker_run_def task_done_def tp)
    have "?step (at_rest s) (?at s1 Returned)"
      using t_throw [OF ip, of s router err s1 ord mv] d Throw t tp by (simp add: rest)
    moreover have "?step (?at s1 Returned) (at_rest s')" unfolding s' by (rule return) (rule tp)
    ultimately show ?thesis by (meson rtranclp.rtrancl_refl rtranclp.rtrancl_into_rtrancl)
  qed (use assms(3) d t in \<open>simp add: worker_end_def worker_run_def\<close>)
qed

lemma drain_loop_pool: "drain_loop s = (Ret (), s') \<Longrightarrow> thread_pool s' = thread_pool s"
proof (induction s rule: drain_loop.induct)
  case (1 s)
  obtain x q where x: "try_pop (pending_writes s) = (x, q)" by force
  show ?case
  proof (cases x)
    case (Some pw)
    obtain r s1 where d: "deliver_one pw (s\<lparr>pending_writes := q\<rparr>) = (r, s1)" by force
    with 1(2) x Some have r: "r = Ret ()" "drain_loop s1 = (Ret (), s')"
      by (auto simp: drain_loop.simps [of s] split: res.splits)
    from 1(1) [OF x [symmetric] Some d [symmetric] r(1) r(2)] deliver_one_steady [of "s\<lparr>pending_writes := q\<rparr>" pw] d
    show ?thesis by (simp add: steady_def)
  qed (use x 1(2) in \<open>simp add: drain_loop.simps [of s]\<close>)
qed

lemma event_threads:
  assumes "accepts_fresh s" and "handle_event (web_app ord mv) e s = (Ret (), s')"
  shows "(thread_step ord mv router)\<^sup>*\<^sup>* (at_rest s) (at_rest s')"
proof (cases "ev_fd e = sock_fd (listen_socket s) \<or> ev_fd e \<noteq> wakeup_fd s")
  case True
  have "workers (thread_pool s') = workers (thread_pool s)"
    using web_guarantee.handle_event_R [OF True, of ord mv] assms(2) by (simp add: loop_gives_def)
  then have "(at_rest s)\<lparr>shared := s'\<rparr> = at_rest s'" by (simp add: at_rest_shared)
  with t_event [of "at_rest s" e ord mv s' router] True assms show ?thesis by simp
next
  case False
  with assms(2) have d: "drain_loop (sys_eventfd_read s) = (Ret (), s')"
    by (simp add: handle_event_def drain_pending_writes_def)
  let ?r = "sys_eventfd_read s"
  have "thread_pool s' = thread_pool s" using drain_loop_pool [OF d] by (simp add: sys_eventfd_read_def)
  then have "at_rest s' = (at_rest s)\<lparr>shared := s', draining := False\<rparr>" by (simp add: at_rest_def)
  with t_wake [of "at_rest s" ord mv router] drain_threads [OF d, of ord mv router "at_rest s"] show ?thesis
    by (metis at_rest_sel(1,2) converse_rtranclp_into_rtranclp)
qed

lemma server_step_threads:
  assumes "server_step ord mv router s s'" and "router_ok router"
  shows "(thread_step ord mv router)\<^sup>*\<^sup>* (at_rest s) (at_rest s')"
  using assms(1)
proof cases
  have loop: "?thesis" if "thread_step ord mv router (at_rest s) ((at_rest s)\<lparr>shared := s'\<rparr>)"
    "length (workers (thread_pool s')) = length (workers (thread_pool s))"
    using that at_rest_shared by (metis r_into_rtranclp)
  {
    case (srv_wait evs ep s1)
    have "shared_same s s'" using epoll_wait_shared [OF srv_wait(2)] srv_wait(1) by simp
    then show ?thesis using t_wait [of "at_rest s" evs ep s1] srv_wait by (intro loop) (simp_all add: shared_same_def)
  next
    case (srv_event e)
    with event_threads show ?thesis by blast
  next
    case srv_reap
    then show ?thesis using t_reap [of "at_rest s"] reap_steady [of s] by (intro loop) (simp_all add: steady_def)
  next
    case (srv_take i)
    obtain p where p: "worker_take i (thread_pool s) = Ret p" "s' = s\<lparr>thread_pool := p\<rparr>"
      using srv_take(3) by (auto simp: worker_begin_def split: res.splits)
    then have "length (workers (thread_pool s')) = length (workers (thread_pool s))"
      by (auto elim: worker_take_cases)
    then show ?thesis using t_take [of i "at_rest s" s'] srv_take by (intro loop) (simp_all add: at_rest_def)
  next
    case (srv_task i t)
    with task_threads assms(2) show ?thesis by blast
  next
    case srv_signal
    then show ?thesis
      using t_signal [of ord mv router "at_rest s"] by (intro loop) (simp_all add: signal_handler_def stop_def)
  next
    case srv_shutdown
    then show ?thesis
      using t_shutdown [of ord mv router "at_rest s"] by (intro loop) (simp_all add: shutdown_begin_def)
  next
    case srv_outside
    then show ?thesis
      using t_outside [of "at_rest s" s'] quiet_steady [of s s'] by (intro loop) (simp_all add: steady_def)
  }
qed

lemma reachable_at_rest:
  assumes "reachable server_start (server_step ord mv router) s" and "router_ok router"
  shows "reachable machine_start (thread_step ord mv router) (at_rest s)"
  using assms(1)
proof (induction rule: reachable.induct)
  case (reach_init s)
  then show ?case by (intro reachable.reach_init) (simp add: machine_start_def at_rest_def)
next
  case (reach_step s s')
  from reachable_steps [OF server_step_threads [OF reach_step(2) assms(2)] reach_step(3)] show ?case .
qed

lemma server_reachable_inv:
  assumes "reachable server_start (server_step ord mv router) s" and "router_ok router"
  shows "loop_inv task_conn {#} s"
  using machine_reachable_inv [OF reachable_at_rest [OF assms] assms(2)] by (simp add: machine_inv_def)

section \<open>A concrete run for the witnesses\<close>

text \<open>A server that has accepted one client, on descriptor 7.\<close>

definition boot_web :: web_server where
  "boot_web = server.extend
     (demo_server [] [] (idle_kernel\<lparr>socket_script := [Inr 3], accept_script := [Acc_ok 7 [] []]\<rparr>)) (\<lambda>_. new_parser)"

definition all_calls_ok :: socket_calls where
  "all_calls_ok = \<lparr>setsockopt_int = (\<lambda>_ _ _. None), sys_bind = (\<lambda>_ _. None), sys_listen = (\<lambda>_ _. None)\<rparr>"

definition ready_web :: web_server where
  "ready_web = snd (event_loop_ctor all_calls_ok (Inr 4) 6 2 DEFAULT_PORT N_WORKERS [] boot_web)"

definition one_client :: web_server where
  "one_client = snd (handle_event (web_app id empty_request) \<lparr>ev_events = EPOLLIN, ev_fd = 3\<rparr> ready_web)"

definition health_router :: "web_server Router" where
  "health_router = add_route GET ''/health'' health_handler []"

lemma health_router_ok: "router_ok health_router"
proof -
  have fd: "sendfile_fd (set_body b ct r) = sendfile_fd r" "sendfile_fd (set_status st r) = sendfile_fd r" for b ct r st
    by (simp_all add: http_defs)
  show ?thesis
    by (auto simp: router_ok_def health_router_def add_route_def handler_ok_def health_handler_def fd handler_opens_nothing)
qed

lemma boot_web_sel:
  "open_fds boot_web = {}" "interest boot_web = (\<lambda>_. None)" "socket_script boot_web = [Inr 3]"
  "accept_script boot_web = [Acc_ok 7 [] []]" "ready_script boot_web = []"
  "server.more boot_web = (\<lambda>_. new_parser)"
  by (simp_all add: boot_web_def server.defs demo_server_def kernel.defs idle_kernel_def)

lemma ready_web_eq:
  "fst (event_loop_ctor all_calls_ok (Inr 4) 6 2 DEFAULT_PORT N_WORKERS [] boot_web) = Ret ()"
  "open_fds ready_web = {3, 4, 6}" "interest ready_web = (\<lambda>_. None)(3 := Some (EPOLLIN OR EPOLLET), 6 := Some (EPOLLIN OR EPOLLET))"
  "listen_socket ready_web = \<lparr>sock_fd = 3\<rparr>" "wakeup_fd ready_web = 6" "heap ready_web = []" "connections ready_web = []"
  "accept_script ready_web = [Acc_ok 7 [] []]" "pending_writes ready_web = new_queue TQ_DEFAULT_CAPACITY"
  "thread_pool ready_web = new_pool 0 2" "ready_script ready_web = []"
  "server.more ready_web = (\<lambda>_. new_parser)"
  by (simp_all add: ready_web_def event_loop_ctor_def make_tcp_def sys_socket_def boot_web_sel make_epoll_def Let_def
      ctor_body_def all_calls_ok_def set_reuse_addr_def set_reuse_port_def bind_port_def listen_def pass_errno_def
      epoll_add_ok fun_upd_twist insert_commute N_WORKERS_def)

lemma ready_web_start: "server_start ready_web"
proof -
  have "fresh_start (Inr 4) 6 boot_web" by (simp add: fresh_start_def boot_web_sel)
  moreover have "event_loop_ctor all_calls_ok (Inr 4) 6 2 DEFAULT_PORT N_WORKERS [] boot_web = (Ret (), ready_web)"
    using ready_web_eq(1) by (simp add: ready_web_def prod_eq_iff)
  moreover have "server.more ready_web = (\<lambda>_. new_parser)" by (rule ready_web_eq(12))
  ultimately show ?thesis unfolding server_start_def by blast
qed

lemma ready_web_reachable: "reachable server_start (server_step ord mv router) ready_web"
  by (rule reach_init) (rule ready_web_start)

lemma one_client_eq:
  "handle_event (web_app id empty_request) \<lparr>ev_events = EPOLLIN, ev_fd = 3\<rparr> ready_web = (Ret (), one_client)"
  "connections one_client = [(7, 0)]" "open_fds one_client = {3, 4, 6, 7}" "conn_fd (heap one_client ! 0) = 7" "state (heap one_client ! 0) \<noteq> Closed"
  "pending_writes one_client = new_queue TQ_DEFAULT_CAPACITY" "accept_script one_client = []"
  "listen_socket one_client = \<lparr>sock_fd = 3\<rparr>" "wakeup_fd one_client = 6"
  "length (heap one_client) = 1" "read_buf (heap one_client ! 0) = new_buffer DEFAULT_CAPACITY"
  "thread_pool one_client = new_pool 0 2" "parser_of one_client 0 = new_parser" "sendfile_op (heap one_client ! 0) = None"
proof -
  let ?s1 = "ready_web\<lparr>accept_script := [], open_fds := insert 7 {3, 4, 6}, fd_flags := (fd_flags ready_web)(7 := O_NONBLOCK),
     rx := (rx ready_web)(7 := []), tx := (tx ready_web)(7 := []), sent := (sent ready_web)(7 := []),
     interest := (interest ready_web)(7 := None)\<rparr>"
  let ?c = "new_connection \<lparr>sock_fd = 7\<rparr> (next_conn_id ready_web) ?s1"
  let ?s2 = "?s1\<lparr>next_conn_id := next_conn_id ready_web + 1, heap := [?c], connections := [(7, 0)],
     interest := (interest ready_web)(7 := Some (EPOLLIN OR EPOLLET OR EPOLLRDHUP)),
     server.more := on_connection 0 (server.more ready_web)\<rparr>"
  obtain s1 where s1: "s1 = ?s1" by blast
  obtain s2 where s2: "s2 = ?s2" by blast
  have 1: "socket_accept (listen_socket ready_web) ready_web = (Ret \<lparr>sock_fd = 7\<rparr>, s1)"
    by (simp add: socket_accept_def sys_accept4_def ready_web_eq s1)
  have 2: "accept_one (web_app id empty_request) \<lparr>sock_fd = 7\<rparr> s1 = (Ret (), s2)"
    by (simp add: accept_one_def Let_def ready_web_eq epoll_add_ok web_app_def s1 s2)
  have "accept_script s2 = []" "open_fds s2 = {3, 4, 6, 7}" "listen_socket s2 = \<lparr>sock_fd = 3\<rparr>"
    by (simp_all add: s2 ready_web_eq insert_commute)
  then have 3: "accept_new_connections (web_app id empty_request) s2 = (Ret (), s2)"
    by (simp add: accept_new_connections.simps [of _ s2] socket_accept_def sys_accept4_def is_valid_def no_socket_def)
  have "accept_new_connections (web_app id empty_request) ready_web = (Ret (), s2)"
    unfolding accept_new_connections.simps [of _ ready_web] 1 by (simp add: 2 3 is_valid_def INVALID_FD_def)
  then have h: "handle_event (web_app id empty_request) \<lparr>ev_events = EPOLLIN, ev_fd = 3\<rparr> ready_web = (Ret (), s2)"
    by (simp add: handle_event_def ready_web_eq)
  then have o: "one_client = s2" by (simp add: one_client_def)
  show "handle_event (web_app id empty_request) \<lparr>ev_events = EPOLLIN, ev_fd = 3\<rparr> ready_web = (Ret (), one_client)"
    using h o by simp
  show "connections one_client = [(7, 0)]" "open_fds one_client = {3, 4, 6, 7}" "conn_fd (heap one_client ! 0) = 7"
    "state (heap one_client ! 0) \<noteq> Closed"
    "pending_writes one_client = new_queue TQ_DEFAULT_CAPACITY" "accept_script one_client = []"
    "listen_socket one_client = \<lparr>sock_fd = 3\<rparr>" "wakeup_fd one_client = 6" "length (heap one_client) = 1"
    "read_buf (heap one_client ! 0) = new_buffer DEFAULT_CAPACITY" "thread_pool one_client = new_pool 0 2"
    "parser_of one_client 0 = new_parser" "sendfile_op (heap one_client ! 0) = None"
    unfolding o s2 by (simp_all add: ready_web_eq insert_commute new_connection_def conn_fd_def parser_of_def on_connection_def)
qed

lemma one_client_reachable: "reachable server_start (server_step id empty_request router) one_client"
proof (rule reach_step [OF ready_web_reachable])
  have "accepts_fresh ready_web" by (simp add: accepts_fresh_def ready_web_eq)
  then show "server_step id empty_request router ready_web one_client"
    by (rule srv_event) (rule one_client_eq)
qed

text \<open>A file system in which every path is a regular file of five bytes; one file can be open at a time.\<close>

definition web_fs :: "web_server file_system" where
  "web_fs = \<lparr>canonical = (\<lambda>p w. Ret p), weakly_canonical = (\<lambda>p w. Some p), fs_exists = (\<lambda>p w. Ret True),
     is_directory = (\<lambda>p w. Ret False), is_regular_file = (\<lambda>p w. Ret True),
     fs_open = (\<lambda>p w. if 9 \<in> open_fds w then (-1, w) else (9, w\<lparr>open_fds := insert 9 (open_fds w)\<rparr>)),
     fs_fstat = (\<lambda>f w. Some 5), fs_close = (\<lambda>f w. Kernel.sys_close f w)\<rparr>"

lemma web_fs_frame: "fs_frame web_fs"
  by (auto simp: fs_frame_def fd_laws_def web_fs_def Kernel.sys_close_def quiet_def split: if_splits)

definition web_router :: "web_server Router" where
  "web_router = add_prefix_route GET ''/'' (handle web_fs \<lparr>root_dir = path_append (path_of ''/srv'') (path_of ''public''), strip_prefix = ''/''\<rparr>)
     (add_route GET ''/health'' health_handler [])"

lemma web_router_built: "build_router web_fs (path_of ''/srv'') s = Ret web_router"
  by (simp add: build_router_def web_fs_def make_handler_def web_router_def)

text \<open>The process has no descriptor left for the next client.\<close>

definition no_fds_left :: web_server where
  "no_fds_left = ready_web\<lparr>accept_script := [Acc_err EMFILE]\<rparr>"

lemma no_fds_left_reachable: "reachable server_start (server_step ord mv router) no_fds_left"
  by (rule reach_step [OF ready_web_reachable], rule srv_outside) (simp_all add: no_fds_left_def quiet_def)

section \<open>Properties\<close>

text \<open>
  C8 Descriptors are owned: in every state the threads can reach each open descriptor has exactly
  one owner among the listening socket, the epoll instance, the eventfd, the sockets and files of
  the connections, the files of pending writes and those in the hands of workers, and nothing
  owns a descriptor that is not open. So none leaks while the server runs and none is closed twice.
\<close>

theorem descriptors_have_one_owner:
  assumes "reachable machine_start (thread_step ord mv router) m"
    and "fs_frame fs" and "build_router fs cwd s0 = Ret router"
  shows "count (owners (shared m) + hand_fds m) f = (if f \<in> open_fds (shared m) then 1 else 0)"
  using machine_reachable_inv [OF assms(1) build_router_ok [OF assms(2,3)]]
  by (simp add: machine_inv_def loop_inv_def accounted_def)

theorem descriptors_have_one_owner_witness:
  "count (owners one_client) 7 = 1 \<and> count (owners one_client) 9 = 0"
proof -
  note r = reachable_at_rest [OF one_client_reachable build_router_ok [OF web_fs_frame web_router_built]]
  from descriptors_have_one_owner [OF r web_fs_frame web_router_built, of 7]
    descriptors_have_one_owner [OF r web_fs_frame web_router_built, of 9]
  show ?thesis by (simp add: one_client_eq)
qed

text \<open>
  C9 The map of connections is right: in every state the threads can reach the entries have
  different descriptors and different connections, a connection that is not closed has its entry's
  descriptor, which is open and watched, and watched is nothing but the listening socket, the
  eventfd and those connections. Every queued or running task and every pending write refers
  to a connection that is entered or closed.
\<close>

theorem connection_table_consistent:
  assumes "reachable machine_start (thread_step ord mv router) m" and "router_ok router"
  shows "let s = shared m in distinct (map fst (connections s)) \<and> distinct (map snd (connections s)) \<and>
    (\<forall>(f, p) \<in> set (connections s). p < length (heap s) \<and>
       (state (heap s ! p) \<noteq> Closed \<longrightarrow> conn_fd (heap s ! p) = f \<and> f \<in> open_fds s \<and> interest s f \<noteq> None)) \<and>
    (\<forall>g. interest s g \<noteq> None \<longrightarrow> g = sock_fd (listen_socket s) \<or> g = wakeup_fd s \<or>
       (\<exists>p. (g, p) \<in> set (connections s) \<and> state (heap s ! p) \<noteq> Closed)) \<and>
    (\<forall>t \<in> pool_tasks (thread_pool s). ref_ok s (task_conn t)) \<and>
    (\<forall>pw \<in> set (tq_queue (pending_writes s)). \<forall>p. pw_conn pw = Some p \<longrightarrow> ref_ok s p)"
proof -
  have i: "loop_inv task_conn (hand_fds m) (shared m)"
    using machine_reachable_inv [OF assms] by (simp add: machine_inv_def)
  then show ?thesis
    using inv_entry(1,6) [OF i] unfolding loop_inv_def table_ok_def watch_ok_def refs_ok_def Let_def by blast
qed

theorem connection_table_consistent_witness:
  "0 < length (heap one_client) \<and> interest one_client 7 \<noteq> None \<and> (interest one_client 5 = None)"
proof -
  note c = connection_table_consistent [OF reachable_at_rest [OF one_client_reachable health_router_ok] health_router_ok]
  have "7 \<noteq> (5::int)" "connections one_client = [(7, 0)]" by (simp_all add: one_client_eq)
  with c one_client_eq(5) show ?thesis by (auto simp: one_client_eq)
qed

text \<open>
  C12 Everything is well formed and of bounded size: in every state the threads can reach each
  parser is in a legal state and holds a request within the limits, so do the tasks queued and
  running, both queues are within their capacity, the buffers of each entered connection are
  well formed, and a worker that has a response or has yet to wake the loop is running the task
  the response is for.
\<close>

theorem states_well_formed:
  assumes "reachable machine_start (thread_step ord mv router) m" and "router_ok router"
  shows "(\<forall>p. parser_inv (parser_of (shared m) p) \<and> request_fits (p_request (parser_of (shared m) p))) \<and>
    (\<forall>t \<in> pool_tasks (thread_pool (shared m)). request_fits (task_request t)) \<and>
    length (tq_queue (pending_writes (shared m))) \<le> 4096 \<and>
    length (tq_queue (pool_queue (thread_pool (shared m)))) \<le> 4096 \<and>
    (\<forall>(f, p) \<in> set (connections (shared m)). bufs_ok (heap (shared m) ! p)) \<and> phases_ok m"
proof -
  have i: "loop_inv task_conn (hand_fds m) (shared m)" "sized (shared m)" "phases_ok m"
    using machine_reachable_inv [OF assms] by (simp_all add: machine_inv_def)
  then show ?thesis
    using inv_entry(2) [OF i(1)] parser_inv_request
    by (auto simp: sized_def queue_fits_def TQ_DEFAULT_CAPACITY_def)
qed

theorem states_well_formed_witness:
  "request_fits (p_request (parser_of one_client 0)) \<and> bufs_ok (heap one_client ! 0)"
proof -
  have "(7, 0) \<in> set (connections one_client)" by (simp add: one_client_eq)
  with states_well_formed [OF reachable_at_rest [OF one_client_reachable health_router_ok] health_router_ok]
  show ?thesis unfolding at_rest_sel(1) by blast
qed



text \<open>
  C11 Responses are always delivered: on the wake-up of the eventfd the loop empties the queue of
  pending writes, whatever the connections, files and sockets are; it neither throws nor waits.
\<close>

theorem wakeup_drains:
  assumes "reachable machine_start (thread_step ord mv router) m" and "router_ok router" and "ev_fd e = wakeup_fd (shared m)"
  shows "\<exists>s'. handle_event (web_app ord mv) e (shared m) = (Ret (), s') \<and> tq_queue (pending_writes s') = []"
proof -
  let ?s = "shared m"
  have i: "loop_inv task_conn (hand_fds m) ?s"
    using machine_reachable_inv [OF assms(1,2)] by (simp add: machine_inv_def)
  have "wakeup_fd ?s \<noteq> sock_fd (listen_socket ?s)"
  proof
    assume "wakeup_fd ?s = sock_fd (listen_socket ?s)"
    then have "2 \<le> count (owners ?s + hand_fds m) (wakeup_fd ?s)" by (simp add: owners_def)
    with i show False by (auto simp: loop_inv_def accounted_def split: if_splits)
  qed
  moreover have "loop_inv task_conn (hand_fds m) (sys_eventfd_read ?s)"
    using i inv_cong [of "sys_eventfd_read ?s" ?s] by (simp add: sys_eventfd_read_def)
  from drain_loop_inv [OF this] obtain s' where "drain_loop (sys_eventfd_read ?s) = (Ret (), s')"
    "tq_queue (pending_writes s') = []" by blast
  ultimately show ?thesis using assms(3) by (simp add: handle_event_def drain_pending_writes_def)
qed

theorem wakeup_drains_witness:
  "\<exists>s'. handle_event (web_app id empty_request) \<lparr>ev_events = EPOLLIN, ev_fd = 6\<rparr> one_client = (Ret (), s') \<and>
     tq_queue (pending_writes s') = []"
  using wakeup_drains [OF reachable_at_rest [OF one_client_reachable health_router_ok] health_router_ok,
      of "\<lparr>ev_events = EPOLLIN, ev_fd = 6\<rparr>"] by (simp add: one_client_eq)

end
