(* ===== verification/Server_Shutdown.thy ===== *)
theory Server_Shutdown
  imports Server_Machine
begin

text \<open>
  The end of the server: the constructor when it fails, \<open>run\<close> after the loop, the
  destructor, and a task whose handler throws.
\<close>

section \<open>Destruction\<close>

text \<open>The open descriptors are those of the connections and those in \<open>R\<close>, each once.\<close>

definition held :: "int multiset \<Rightarrow> ('t, 'b) server_scheme \<Rightarrow> bool" where
  "held R s \<longleftrightarrow> (\<forall>f. count (R + sum_list (map conn_fds (heap s))) f = (if f \<in> open_fds s then 1 else 0)) \<and>
     (\<forall>f \<in># R. 0 \<le> f)"

lemma conn_fds_nonneg: "f \<in># conn_fds c \<Longrightarrow> 0 \<le> f"
  by (auto simp: conn_fds_def owns_def split: option.splits if_splits)

lemma held_nonneg:
  assumes "held R s" and "f \<in> open_fds s"
  shows "0 \<le> f"
proof -
  have "count (R + sum_list (map conn_fds (heap s))) f = 1" using assms by (simp add: held_def)
  then have "f \<in># R + sum_list (map conn_fds (heap s))" by (metis count_inI zero_neq_one)
  with assms(1) show ?thesis by (auto simp: held_def in_sum_list dest: conn_fds_nonneg)
qed

lemma pw_fds_nonneg: "f \<in># pw_fds pws \<Longrightarrow> 0 \<le> f"
  by (auto simp: pw_fds_def in_sum_list owns_def split: if_splits)

lemma inv_held:
  assumes "loop_inv tc {#} s"
  shows "held ({#sock_fd (listen_socket s), epfd (ev_epoll s), wakeup_fd s#} + pw_fds (tq_queue (pending_writes s))) s"
  using assms by (auto simp: held_def loop_inv_def accounted_def owners_def watch_ok_def ac_simps dest: pw_fds_nonneg)

lemma held_cong:
  assumes "heap s' = heap s" and "open_fds s' = open_fds s"
  shows "held R s' = held R s"
  by (simp add: held_def assms)

lemma held_close:
  assumes "held (R + {#f#}) s"
  shows "held R (Kernel.sys_close f s)"
  unfolding held_def
proof (intro conjI allI)
  fix g
  have "count (R + {#f#} + sum_list (map conn_fds (heap s))) g = (if g \<in> open_fds s then 1 else 0)"
    using assms by (simp add: held_def)
  then show "count (R + sum_list (map conn_fds (heap (Kernel.sys_close f s)))) g =
      (if g \<in> open_fds (Kernel.sys_close f s) then 1 else 0)"
    by (cases "g = f") (auto simp: Kernel.sys_close_def split: if_splits)
qed (use assms in \<open>simp add: held_def\<close>)

text \<open>A connection's destructor closes what it owns; the object left owns nothing.\<close>

lemma connection_destroy_open:
  assumes "\<forall>f \<in> open_fds k. 0 \<le> f"
  shows "open_fds (connection_destroy c k) = open_fds k - set_mset (conn_fds c)"
    "kernel.more (connection_destroy c k) = kernel.more k" "sent (connection_destroy c k) = sent k"
  using assms
  by (auto simp: connection_destroy_def sendfile_reset_def sendfile_destroy_def socket_close_def Kernel.sys_close_def
      conn_fds_def conn_fd_def owns_def INVALID_FD_def split: option.splits if_splits)

text \<open>What destruction of connections leaves alone.\<close>

definition loop_same :: "('t, 'b) server_scheme \<Rightarrow> ('t, 'b) server_scheme \<Rightarrow> bool" where
  "loop_same s s' \<longleftrightarrow> sent s' = sent s \<and> listen_socket s' = listen_socket s \<and> ev_epoll s' = ev_epoll s \<and>
     wakeup_fd s' = wakeup_fd s \<and> pending_writes s' = pending_writes s \<and> thread_pool s' = thread_pool s \<and>
     length (heap s') = length (heap s)"

lemma destroy_conn_held:
  assumes "held R s" and "p < length (heap s)" and "s' = destroy_conn p s"
  shows "held R s'" "loop_same s s'" "heap s' ! p = (heap s ! p)\<lparr>sendfile_op := None, socket := no_socket\<rparr>"
    "\<forall>q. q \<noteq> p \<longrightarrow> heap s' ! q = heap s ! q"
proof -
  let ?c = "heap s ! p"
  let ?d = "?c\<lparr>sendfile_op := None, socket := no_socket\<rparr>"
  let ?k = "connection_destroy ?c s"
  have nn: "\<forall>f \<in> open_fds s. 0 \<le> f" using held_nonneg [OF assms(1)] by blast
  note k = connection_destroy_open [OF nn, of ?c]
  from k(2) have m: "heap ?k = heap s" "listen_socket ?k = listen_socket s" "ev_epoll ?k = ev_epoll s"
    "wakeup_fd ?k = wakeup_fd s" "pending_writes ?k = pending_writes s" "thread_pool ?k = thread_pool s"
    by (simp_all only: server_more_eq)
  have s': "s' = ?k\<lparr>heap := (heap s)[p := ?d]\<rparr>" using assms(3) m(1) by (simp add: destroy_conn_def Let_def)
  have nil: "conn_fds ?d = {#}" by (simp add: conn_fds_def conn_fd_def no_socket_def INVALID_FD_def)
  have sum: "sum_list (map conn_fds (heap s)) = sum_list (map conn_fds ((heap s)[p := ?d])) + conn_fds ?c"
    using sum_list_update [OF assms(2), of conn_fds ?d] nil by simp
  show "held R s'"
    unfolding held_def
  proof (intro conjI allI)
    fix f
    let ?n = "count (R + sum_list (map conn_fds ((heap s)[p := ?d]))) f"
    have n: "?n + count (conn_fds ?c) f = (if f \<in> open_fds s then 1 else 0)"
      using assms(1) [unfolded held_def sum] by (simp add: add.assoc)
    have "f \<in> open_fds s' \<longleftrightarrow> f \<in> open_fds s \<and> count (conn_fds ?c) f = 0"
      by (simp add: s' k(1) not_in_iff)
    from one_less [OF n this] show "count (R + sum_list (map conn_fds (heap s'))) f = (if f \<in> open_fds s' then 1 else 0)"
      by (simp add: s')
  qed (use assms(1) in \<open>simp add: held_def\<close>)
  show "loop_same s s'" by (simp add: loop_same_def s' m k(3))
  show "heap s' ! p = ?d" "\<forall>q. q \<noteq> p \<longrightarrow> heap s' ! q = heap s ! q" using assms(2) by (simp_all add: s')
qed

lemma loop_same_trans: "loop_same s s1 \<Longrightarrow> loop_same s1 s2 \<Longrightarrow> loop_same s s2"
  by (simp add: loop_same_def)

lemma destroy_all_held:
  assumes "held R s" and "\<forall>p \<in> set ps. p < length (heap s)" and "s' = fold destroy_conn ps s"
  shows "held R s' \<and> loop_same s s' \<and> (\<forall>p \<in> set ps. conn_fds (heap s' ! p) = {#})"
  using assms
proof (induction ps arbitrary: s)
  case Nil
  then show ?case by (simp add: loop_same_def)
next
  case (Cons p ps)
  let ?s1 = "destroy_conn p s"
  have p: "p < length (heap s)" using Cons.prems(2) by simp
  note d = destroy_conn_held [OF Cons.prems(1) p refl]
  have "\<forall>q \<in> set ps. q < length (heap ?s1)" using Cons.prems(2) d(2) by (simp add: loop_same_def)
  from Cons.IH [OF d(1) this] Cons.prems(3) have
    i: "held R s'" "loop_same ?s1 s'" "\<forall>q \<in> set ps. conn_fds (heap s' ! q) = {#}" by simp_all
  have keep: "conn_fds (heap s' ! p) = {#}" if "p \<notin> set ps"
  proof -
    have "heap (fold destroy_conn qs t) ! p = heap t ! p" if "p \<notin> set qs" for qs and t :: "('a, 'b) server_scheme"
      using that
    proof (induction qs arbitrary: t)
      case (Cons q qs)
      have "heap (connection_destroy c t) = heap t" for c
        by (simp add: connection_destroy_def socket_close_def Kernel.sys_close_def)
      then have "heap (destroy_conn q t) ! p = heap t ! p"
        using Cons.prems by (simp add: destroy_conn_def Let_def)
      with Cons show ?case by simp
    qed simp
    from this [OF that, of ?s1] Cons.prems(3) d(3) show ?thesis
      by (simp add: conn_fds_def conn_fd_def no_socket_def INVALID_FD_def)
  qed
  from i keep loop_same_trans [OF d(2) i(2)] show ?case by auto
qed

lemma conn_fds_none: "\<forall>c \<in> set cs. conn_fds c = {#} \<Longrightarrow> sum_list (map conn_fds cs) = {#}"
  by (induction cs) simp_all

text \<open>With the pool joined, the members' destructors leave open what \<open>R\<close> holds besides them.\<close>

lemma destroy_members_held:
  assumes "held (R + {#sock_fd (listen_socket s1), epfd (ev_epoll s1)#}) s1" and "join_pool env s = (Ret (), s1)"
  shows "\<exists>s2. destroy_members env s = (Ret (), s2) \<and> open_fds s2 = set_mset R \<and> sent s2 = sent s1 \<and>
    pending_writes s2 = pending_writes s1"
proof -
  let ?f = "sock_fd (listen_socket s1)" and ?e = "epfd (ev_epoll s1)"
  obtain t where t: "t = fold destroy_conn [0..<length (heap s1)] s1" by blast
  have ps: "\<forall>p \<in> set [0..<length (heap s1)]. p < length (heap s1)" by simp
  from destroy_all_held [OF assms(1) ps t] have
    h: "held (R + {#?f, ?e#}) t" "loop_same s1 t" "\<forall>p < length (heap s1). conn_fds (heap t ! p) = {#}" by simp_all
  have pos: "0 \<le> ?f" "0 \<le> ?e" using assms(1) by (simp_all add: held_def)
  let ?t = "t\<lparr>connections := []\<rparr>"
  let ?t1 = "Kernel.sys_close ?e ?t"
  let ?t2 = "Kernel.sys_close ?f (?t1\<lparr>ev_epoll := (ev_epoll s1)\<lparr>epfd := -1\<rparr>\<rparr>)"
  have "held (R + {#?f#} + {#?e#}) ?t" using h(1) held_cong [of ?t t] by (simp add: ac_simps)
  from held_close [OF this] have "held (R + {#?f#}) (?t1\<lparr>ev_epoll := (ev_epoll s1)\<lparr>epfd := -1\<rparr>\<rparr>)"
    by (subst held_cong [of _ ?t1]) simp_all
  from held_close [OF this] have H: "held R ?t2" .
  have sel: "heap ?t2 = heap t" "sent ?t2 = sent s1" "pending_writes ?t2 = pending_writes s1"
    using h(2) by (simp_all add: Kernel.sys_close_def loop_same_def)
  have nil: "sum_list (map conn_fds (heap t)) = {#}"
  proof -
    have "\<forall>c \<in> set (heap t). conn_fds c = {#}"
      using h(2,3) by (auto simp: loop_same_def in_set_conv_nth)
    then show ?thesis by (rule conn_fds_none)
  qed
  have "open_fds ?t2 = set_mset R"
  proof (rule set_eqI)
    fix f
    have "count R f = (if f \<in> open_fds ?t2 then 1 else 0)" using H nil sel(1) by (simp add: held_def)
    then show "f \<in> open_fds ?t2 \<longleftrightarrow> f \<in># R" by (metis count_eq_zero_iff zero_neq_one)
  qed
  moreover have "destroy_members env s = (Ret (), ?t2\<lparr>listen_socket := (listen_socket s1)\<lparr>sock_fd := -1\<rparr>\<rparr>)"
    using assms(2) pos h(2)
    by (simp add: destroy_members_def Let_def t [symmetric] epoll_destroy_def socket_close_def INVALID_FD_def
        loop_same_def Kernel.sys_close_def)
  ultimately show ?thesis using sel by simp
qed

section \<open>The constructor fails\<close>

text \<open>What workers do to the state when no task was submitted: they leave their loops.\<close>

lemma join_only_pool:
  assumes "\<forall>other \<in> set env. \<forall>t. \<exists>p. other t = t\<lparr>thread_pool := p\<rparr>"
  shows "\<exists>p. snd (join_pool env s) = s\<lparr>thread_pool := p\<rparr> \<and> fst (join_pool env s) \<in> {Ret (), Blocked}"
proof -
  have f: "\<exists>p. fold (\<lambda>other. other) env t = t\<lparr>thread_pool := p\<rparr>" for t
    using assms
  proof (induction env arbitrary: t)
    case Nil
    have "t = t\<lparr>thread_pool := thread_pool t\<rparr>" by simp
    then show ?case by (metis fold_simps(1))
  next
    case (Cons other env)
    then have "\<exists>p. other t = t\<lparr>thread_pool := p\<rparr>" by simp
    then obtain p where "other t = t\<lparr>thread_pool := p\<rparr>" by blast
    moreover from Cons obtain q where "fold (\<lambda>other. other) env (t\<lparr>thread_pool := p\<rparr>) = (t\<lparr>thread_pool := p\<rparr>)\<lparr>thread_pool := q\<rparr>"
      by (meson list.set_intros(2))
    ultimately show ?case by (intro exI [of _ q]) simp
  qed
  obtain p where "fold (\<lambda>other. other) env (s\<lparr>thread_pool := shutdown_begin (thread_pool s)\<rparr>) =
      s\<lparr>thread_pool := p\<rparr>" using f [of "s\<lparr>thread_pool := shutdown_begin (thread_pool s)\<rparr>"] by auto
  then show ?thesis
    by (cases "shutdown_called (thread_pool s)")
      (simp_all add: join_pool_def Let_def exI [of _ "thread_pool s"] exI [of _ p])
qed

text \<open>
  A constructor that fails leaves nothing open: when \<open>socket\<close>, \<open>epoll_create1\<close>, an option,
  \<open>bind\<close>, \<open>listen\<close> or \<open>eventfd\<close> fails, the exception leaves the constructor after the
  members made so far have been destroyed and the workers joined, and no descriptor is open.
\<close>

lemma failed_constructor_releases:
  assumes "fresh_start created evfd s" and "event_loop_ctor cs created evfd hw port n env s = (Throw err, s')"
    and "\<forall>other \<in> set env. \<forall>t. \<exists>p. other t = t\<lparr>thread_pool := p\<rparr>"
  shows "open_fds s' = {}"
  using assms(2,1)
proof (cases rule: ctor_cases)
  case (2 f e s2)
  from 2(6,7,8,4,1,9) show ?thesis
  proof (cases rule: ctor_body_cases [where cs = cs and port = port])
    case (1 err2 s3)
    obtain r s4 where j: "join_pool env s3 = (r, s4)" by force
    with join_only_pool [OF assms(3), of s3] obtain p where s4: "s4 = s3\<lparr>thread_pool := p\<rparr>" by auto
    have "r = Ret ()"
      using 2(13) 1(1) j join_only_pool [OF assms(3), of s3] by (auto simp: destroy_members_def)
    moreover have "held ({#} + {#sock_fd (listen_socket s4), epfd (ev_epoll s4)#}) s4"
      using 1(2,3) 2(1-3) s4 by (auto simp: held_def members_made_def)
    ultimately show ?thesis
      using destroy_members_held [of "{#}" s4 env s3] j 2(13) 1(1) by auto
  next
    case b: (2 s3)
    with 2(13) show ?thesis by simp
  qed
qed simp

lemma bind_fails:
  assumes "\<And>t :: web_server. thread_pool t = new_pool n 2 \<Longrightarrow> fst (join_pool env t) = Ret ()"
  shows "fst (event_loop_ctor (all_calls_ok\<lparr>sys_bind := \<lambda>_ _. Some err\<rparr>) (Inr 4) 6 2 DEFAULT_PORT n env boot_web) =
    Throw (throw_errno ''bind()'' err)"
proof -
  let ?ep = "\<lparr>epfd = 4, ep_events = replicate MAX_EVENTS no_event, n_ready = 0\<rparr>"
  obtain s1 where s1: "make_tcp boot_web = (Ret \<lparr>sock_fd = 3\<rparr>, s1)"
    by (simp add: make_tcp_def sys_socket_def boot_web_sel)
  obtain s2 where s2: "s2 = s1\<lparr>open_fds := insert 4 (open_fds s1), listen_socket := \<lparr>sock_fd = 3\<rparr>, ev_epoll := ?ep,
      wakeup_fd := -1, heap := [], connections := [], pending_writes := new_queue TQ_DEFAULT_CAPACITY,
      thread_pool := new_pool n 2, loop_running := False, next_conn_id := 0\<rparr>" by blast
  have b: "ctor_body (all_calls_ok\<lparr>sys_bind := \<lambda>_ _. Some err\<rparr>) 6 DEFAULT_PORT s2 = (Throw (throw_errno ''bind()'' err), s2)"
    unfolding ctor_body_def Let_def set_reuse_addr_def set_reuse_port_def bind_port_def pass_bind
    by (simp add: all_calls_ok_def)
  have "fst (destroy_members env s2) = Ret ()" using assms [of s2] destroy_members_fst [of env s2] by (simp add: s2)
  then obtain s3 where "destroy_members env s2 = (Ret (), s3)" by (cases "destroy_members env s2") simp
  with b show ?thesis by (simp add: event_loop_ctor_def s1 make_epoll_def s2 [symmetric])
qed

lemma failed_constructor_releases_witness:
  "let used = (\<lambda>_ _. Some (Other_errno ''Address already in use''));
       m = event_loop_ctor (all_calls_ok\<lparr>sys_bind := used\<rparr>) (Inr 4) 6 2 DEFAULT_PORT 1
             [\<lambda>s. snd (worker_begin 0 s)] boot_web
   in fst m = Throw (throw_errno ''bind()'' (Other_errno ''Address already in use'')) \<and> open_fds (snd m) = {}"
proof -
  let ?err = "Other_errno ''Address already in use''"
  let ?env = "[\<lambda>s. snd (worker_begin 0 s)]"
  have 1: "fresh_start (Inr 4) 6 boot_web" by (simp add: fresh_start_def boot_web_sel)
  have "\<exists>p. snd (worker_begin 0 t) = t\<lparr>thread_pool := p\<rparr>" for t :: web_server
    by (cases "worker_take 0 (thread_pool t)") (auto simp: worker_begin_def intro: exI [of _ "thread_pool t"])
  then have 2: "\<forall>other \<in> set ?env. \<forall>t :: web_server. \<exists>p. other t = t\<lparr>thread_pool := p\<rparr>" by simp
  have "fst (event_loop_ctor (all_calls_ok\<lparr>sys_bind := \<lambda>_ _. Some ?err\<rparr>) (Inr 4) 6 2 DEFAULT_PORT 1 ?env boot_web) =
      Throw (throw_errno ''bind()'' ?err)"
    by (rule bind_fails) (simp add: join_pool_def new_pool_def worker_count_def shutdown_begin_def close_def new_queue_def Let_def
        worker_begin_def worker_take_def pop_def all_exited_def)
  with failed_constructor_releases [OF 1 _ 2, of "all_calls_ok\<lparr>sys_bind := \<lambda>_ _. Some ?err\<rparr>" 2 DEFAULT_PORT 1]
  show ?thesis by (simp add: Let_def prod_eq_iff)
qed

section \<open>Shutdown\<close>

lemma join_done: "shutdown_called (thread_pool s) \<Longrightarrow> join_pool env s = (Ret (), s)"
  by (simp add: join_pool_def)

lemma clear_connections_held:
  assumes "loop_inv tc {#} s" and "held R s"
  shows "held R (clear_connections s) \<and> loop_same s (clear_connections s)"
proof -
  let ?ps = "filter (\<lambda>p. p \<notin> set (List.map_filter pw_conn (tq_queue (pending_writes s)))) (map snd (connections s))"
  obtain t where t: "t = fold destroy_conn ?ps s" by blast
  have "\<forall>p \<in> set ?ps. p < length (heap s)" using inv_entry(1) [OF assms(1)] by auto
  from destroy_all_held [OF assms(2) this t] have "held R t" "loop_same s t" by simp_all
  then show ?thesis
    using held_cong [of "t\<lparr>connections := []\<rparr>" t R] by (simp add: clear_connections_def Let_def t [symmetric] loop_same_def)
qed

text \<open>After the joins the connections go, then the eventfd and the members of the loop.\<close>

lemma destroyed_after_run:
  assumes "loop_inv tc {#} s1" and "shutdown_called (thread_pool s1)"
  shows "\<exists>s3. event_loop_dtor joins (clear_connections s1) = (Ret (), s3) \<and> sent s3 = sent s1 \<and>
    pending_writes s3 = pending_writes s1 \<and> open_fds s3 = set_mset (pw_fds (tq_queue (pending_writes s1)))"
proof -
  let ?P = "pw_fds (tq_queue (pending_writes s1))"
  let ?l = "sock_fd (listen_socket s1)" and ?e = "epfd (ev_epoll s1)" and ?w = "wakeup_fd s1"
  let ?s2 = "clear_connections s1"
  note i = assms(1)
  from clear_connections_held [OF i inv_held [OF i]] have
    h: "held ({#?l, ?e, ?w#} + ?P) ?s2" and same: "loop_same s1 ?s2" by simp_all
  have w: "wakeup_fd ?s2 = ?w" "0 \<le> ?w" using same i by (simp_all add: loop_same_def loop_inv_def watch_ok_def)
  let ?s3 = "(Kernel.sys_close ?w ?s2)\<lparr>wakeup_fd := -1\<rparr>"
  have "{#?l, ?e, ?w#} + ?P = (?P + {#?l, ?e#}) + {#?w#}" by (simp add: ac_simps)
  with h have "held ((?P + {#?l, ?e#}) + {#?w#}) ?s2" by (simp only:)
  from held_close [OF this] have "held (?P + {#?l, ?e#}) ?s3"
    by (subst held_cong [of _ "Kernel.sys_close ?w ?s2"]) simp_all
  moreover have sel: "listen_socket ?s3 = listen_socket s1" "ev_epoll ?s3 = ev_epoll s1" "thread_pool ?s3 = thread_pool s1"
    "sent ?s3 = sent s1" "pending_writes ?s3 = pending_writes s1"
    using same by (simp_all add: loop_same_def Kernel.sys_close_def)
  ultimately have "held (?P + {#sock_fd (listen_socket ?s3), epfd (ev_epoll ?s3)#}) ?s3" by simp
  from destroy_members_held [OF this join_done] sel assms(2) obtain s4 where
    s4: "destroy_members [] ?s3 = (Ret (), s4)" "open_fds s4 = set_mset ?P" "sent s4 = sent s1"
      "pending_writes s4 = pending_writes s1" by auto
  have "event_loop_dtor joins ?s2 = (Ret (), s4)"
    using w s4(1) sel(3) assms(2) join_done [of ?s3 joins] by (simp add: event_loop_dtor_def Let_def)
  with s4 show ?thesis by blast
qed

text \<open>A worker that has left its loop holds nothing.\<close>

lemma exited_hands:
  assumes "machine_inv m" and "all_exited (thread_pool (shared m))"
  shows "loop_inv task_conn {#} (shared m)"
proof -
  have "\<forall>i < length (phases m). phases m ! i = Starting"
    using assms by (fastforce simp: machine_inv_def phases_ok_def all_exited_def list_all_length)
  then have "\<forall>ph \<in> set (phases m). ph = Starting" by (metis in_set_conv_nth)
  moreover have "(\<forall>ph \<in> set phs. ph = Starting) \<Longrightarrow> sum_list (map phase_fds phs) = {#}" for phs
    by (induction phs) simp_all
  ultimately have "hand_fds m = {#}" by (simp add: hand_fds_def)
  then show ?thesis using assms(1) by (simp add: machine_inv_def)
qed

text \<open>
  C19 Shutdown does not drain: when \<open>run\<close> has left its loop and joined the workers, in whatever
  state the threads have reached, the connections are dropped and the loop is destroyed without a
  byte being sent. The responses the workers posted while they were joined stay in the queue of
  pending writes, and when all is destroyed the descriptors still open are exactly those of their
  files.
\<close>

theorem shutdown_discards_responses:
  assumes "reachable machine_start (thread_step ord mv router) m" and "shared m = s1" and "router_ok router"
    and "join_pool env s = (Ret (), s1)" and "shutdown_called (thread_pool s1)" and "all_exited (thread_pool s1)"
  shows "\<exists>s2 s3. loop_finish env s = (Ret (), s2) \<and> event_loop_dtor joins s2 = (Ret (), s3) \<and>
    sent s3 = sent s1 \<and> pending_writes s3 = pending_writes s1 \<and>
    open_fds s3 = set_mset (pw_fds (tq_queue (pending_writes s1)))"
proof -
  from exited_hands [OF machine_reachable_inv [OF assms(1,3)]] assms(2,6) have "loop_inv task_conn {#} s1" by simp
  from destroyed_after_run [OF this assms(5), of joins] obtain s3 where
    "event_loop_dtor joins (clear_connections s1) = (Ret (), s3)" "sent s3 = sent s1" "pending_writes s3 = pending_writes s1"
    "open_fds s3 = set_mset (pw_fds (tq_queue (pending_writes s1)))" by blast
  moreover have "loop_finish env s = (Ret (), clear_connections s1)" using assms(4) by (simp add: loop_finish_def)
  ultimately show ?thesis by blast
qed

text \<open>The witness: a worker has answered a request for a file when the server is stopped.\<close>

definition worker_turn :: "nat \<Rightarrow> web_server \<Rightarrow> web_server" where
  "worker_turn i s = (if i < length (workers (thread_pool s)) \<and> workers (thread_pool s) ! i = In_pop
     then snd (worker_begin i s) else s)"

definition exit_env :: "(web_server \<Rightarrow> web_server) list" where
  "exit_env = [worker_turn 0, worker_turn 1]"

lemma join_exit_env:
  assumes "workers (thread_pool s) = [In_pop, In_pop]"
    and "tq_queue (pool_queue (thread_pool s)) = []" and "\<not> shutdown_called (thread_pool s)"
  shows "\<exists>p. join_pool exit_env s = (Ret (), s\<lparr>thread_pool := p\<rparr>) \<and> shutdown_called p \<and> all_exited p \<and>
    (reachable server_start (server_step ord mv router) s \<longrightarrow>
     reachable server_start (server_step ord mv router) (s\<lparr>thread_pool := p\<rparr>))"
proof -
  let ?p1 = "shutdown_begin (thread_pool s)"
  let ?p2 = "?p1\<lparr>workers := [Exited, In_pop]\<rparr>"
  let ?p3 = "?p1\<lparr>workers := [Exited, Exited]\<rparr>"
  have q: "tq_queue (pool_queue ?p1) = []" "tq_closed (pool_queue ?p1)" "workers ?p1 = [In_pop, In_pop]" "shutdown_called ?p1"
    using assms by (simp_all add: shutdown_begin_def close_def)
  have t: "worker_begin 0 (s\<lparr>thread_pool := ?p1\<rparr>) = (Ret (), s\<lparr>thread_pool := ?p2\<rparr>)"
    "worker_begin 1 (s\<lparr>thread_pool := ?p2\<rparr>) = (Ret (), s\<lparr>thread_pool := ?p3\<rparr>)"
    using q by (simp_all add: worker_begin_def worker_take_def pop_def)
  have "server_step ord mv router s (s\<lparr>thread_pool := ?p1\<rparr>)" by (rule srv_shutdown)
  moreover have "server_step ord mv router (s\<lparr>thread_pool := ?p1\<rparr>) (s\<lparr>thread_pool := ?p2\<rparr>)"
    by (rule srv_take [OF _ _ t(1)]) (simp_all add: q)
  moreover have "server_step ord mv router (s\<lparr>thread_pool := ?p2\<rparr>) (s\<lparr>thread_pool := ?p3\<rparr>)"
    by (rule srv_take [OF _ _ t(2)]) simp_all
  ultimately have "reachable server_start (server_step ord mv router) s \<longrightarrow>
      reachable server_start (server_step ord mv router) (s\<lparr>thread_pool := ?p3\<rparr>)"
    by (meson reach_step)
  moreover have "join_pool exit_env s = (Ret (), s\<lparr>thread_pool := ?p3\<rparr>)"
    using assms(3) t q by (simp add: join_pool_def exit_env_def worker_turn_def all_exited_def Let_def)
  moreover have "shutdown_called ?p3" "all_exited ?p3" using q by (simp_all add: all_exited_def)
  ultimately show ?thesis by blast
qed

definition file_request :: string where
  "file_request = ''GET /a.css HTTP/1.1'' @ CRLF @ CRLF"

lemma web_router_serves:
  assumes "req_method r = GET" and "req_path r = ''/a.css''" and "9 \<notin> open_fds s"
  shows "\<exists>resp. dispatch web_router r new_response s = (Ret (True, resp), s\<lparr>open_fds := insert 9 (open_fds s)\<rparr>) \<and>
    sendfile_fd resp = 9"
proof -
  let ?h = "\<lparr>root_dir = path_append (path_of ''/srv'') (path_of ''public''), strip_prefix = ''/''\<rparr>"
  have "resolve web_fs ?h ''/a.css'' s = path_of ''/srv/public/a.css''" by code_simp
  moreover have "path_of ''/srv/public/a.css'' \<noteq> empty_path" by code_simp
  ultimately have "\<exists>resp. handle web_fs ?h r new_response s = (Ret resp, s\<lparr>open_fds := insert 9 (open_fds s)\<rparr>) \<and> sendfile_fd resp = 9"
    using assms by (simp add: handle_def Let_def serve_file_def web_fs_def)
  moreover have "starts_with ''/a.css'' ''/''" by code_simp
  ultimately show ?thesis
    using assms(1,2)
    by (auto simp: dispatch_def web_router_def add_prefix_route_def add_route_def exact_match_def prefix_match_def)
qed

lemma file_answered:
  "\<exists>s pw. reachable server_start (server_step id empty_request web_router) s \<and>
     workers (thread_pool s) = [In_pop, In_pop] \<and> tq_queue (pool_queue (thread_pool s)) = [] \<and>
     \<not> shutdown_called (thread_pool s) \<and> tq_queue (pending_writes s) = [pw] \<and> pw_file_fd pw = 9"
proof -
  let ?R = "reachable server_start (server_step id empty_request web_router)"
  obtain a where a: "a = one_client\<lparr>rx := (rx one_client)(7 := [Rx_bytes file_request])\<rparr>" by blast
  have ra: "?R a" by (rule reach_step [OF one_client_reachable], rule srv_outside) (simp_all add: a quiet_def)
  have p0: "server.more one_client 0 = new_parser" using one_client_eq(13) by (simp add: parser_of_def)
  have sv: "serving a 7 0" "parser_of a 0 = new_parser" "rx a 7 = [Rx_bytes file_request]" "accepts_fresh a"
    by (simp_all add: serving_def a one_client_eq new_pool_def new_queue_def DEFAULT_CAPACITY_def parser_of_def accepts_fresh_def p0)
  obtain res pr where f: "feed file_request new_parser = (res, pr)" by force
  have "fst (feed file_request new_parser) = Complete" "req_method (p_request (snd (feed file_request new_parser))) = GET"
    "req_path (p_request (snd (feed file_request new_parser))) = ''/a.css''" by code_simp+
  then have r: "res = Complete" "req_method (p_request pr) = GET" "req_path (p_request pr) = ''/a.css''"
    by (simp_all add: f)
  let ?r = "p_request pr"
  let ?t = "Handle_request ?r 0 (wants_keep_alive ?r)"
  have len: "length file_request = 23" by (simp add: file_request_def)
  have "file_request \<noteq> []" "length file_request \<le> capacity (read_buf (heap a ! 0))"
    "length (tq_queue (pool_queue (thread_pool a))) < tq_capacity (pool_queue (thread_pool a))"
    unfolding len by (simp_all add: file_request_def a one_client_eq new_pool_def new_queue_def TQ_DEFAULT_CAPACITY_def DEFAULT_CAPACITY_def)
  from request_in [OF sv(1-3) this(1,2) f [unfolded r(1)] refl refl this(3), of id empty_request] obtain b q where
    b: "handle_event (web_app id empty_request) \<lparr>ev_events = EPOLLIN, ev_fd = 7\<rparr> a = (Ret (), b)"
      "tq_queue q = tq_queue (pool_queue (thread_pool a)) @ [?t]"
      "thread_pool b = (thread_pool a)\<lparr>pool_queue := q, accepted := accepted (thread_pool a) @ [?t]\<rparr>"
      "open_fds b = open_fds a" "pending_writes b = pending_writes a" by blast
  have rb: "?R b" by (rule reach_step [OF ra]) (rule srv_event [OF sv(4) b(1)])
  have tpa: "thread_pool a = new_pool 0 2" "pending_writes a = new_queue TQ_DEFAULT_CAPACITY" "9 \<notin> open_fds a"
    by (simp_all add: a one_client_eq)
  then have tb: "workers (thread_pool b) = [In_pop, In_pop]" "tq_queue (pool_queue (thread_pool b)) = [?t]"
    "\<not> shutdown_called (thread_pool b)"
    using b(2,3) by (simp_all add: new_pool_def new_queue_def worker_count_def numeral_2_eq_2)
  let ?tp = "(thread_pool b)\<lparr>pool_queue := q\<lparr>tq_queue := []\<rparr>, workers := [Running ?t, In_pop], started := started (thread_pool b) @ [?t]\<rparr>"
  obtain c where c: "c = b\<lparr>thread_pool := ?tp\<rparr>" by blast
  have "worker_begin 0 b = (Ret (), c)"
    using tb b(3) by (simp add: c worker_begin_def worker_take_def pop_def)
  then have rc: "?R c" by (rule reach_step [OF rb srv_take, rotated 2]) (simp_all add: tb)
  have "9 \<notin> open_fds c" using b(4) tpa by (simp add: c)
  from web_router_serves [OF r(2,3) this] obtain resp where
    d: "dispatch web_router ?r new_response c = (Ret (True, resp), c\<lparr>open_fds := insert 9 (open_fds c)\<rparr>)" "sendfile_fd resp = 9" by blast
  have "pending_writes (c\<lparr>open_fds := insert 9 (open_fds c)\<rparr>) = new_queue TQ_DEFAULT_CAPACITY"
    using b(5) tpa by (simp add: c)
  from run_task_posts [OF d(1) this, of id 0 "wants_keep_alive ?r"] obtain q2 where
    q2: "run_task id web_router ?t c = (Ret (), sys_eventfd_write (c\<lparr>open_fds := insert 9 (open_fds c), pending_writes := q2\<rparr>))"
      "tq_queue q2 = [response_write id 0 (answer True resp (wants_keep_alive ?r))]"
    by (auto simp: new_queue_def TQ_DEFAULT_CAPACITY_def)
  let ?tp2 = "(thread_pool c)\<lparr>workers := [In_pop, In_pop], finished := finished (thread_pool c) @ [?t]\<rparr>"
  obtain s where s: "s = (sys_eventfd_write (c\<lparr>open_fds := insert 9 (open_fds c), pending_writes := q2\<rparr>))\<lparr>thread_pool := ?tp2\<rparr>" by blast
  have "worker_end id web_router 0 ?t c = (Ret (), s)"
    using q2(1) by (simp add: worker_end_def worker_run_def s) (simp add: c)
  then have "?R s" by (rule reach_step [OF rc srv_task, rotated 2]) (simp_all add: c)
  moreover have "workers (thread_pool s) = [In_pop, In_pop]" "tq_queue (pool_queue (thread_pool s)) = []"
    "\<not> shutdown_called (thread_pool s)" using tb(3) by (simp_all add: s c)
  moreover have "tq_queue (pending_writes s) = [response_write id 0 (answer True resp (wants_keep_alive ?r))]"
    using q2(2) by (simp add: s)
  moreover have "pw_file_fd (response_write id 0 (answer True resp (wants_keep_alive ?r))) = 9"
    using d(2) by (simp add: response_write_def)
  ultimately show ?thesis by blast
qed

section \<open>A handler throws\<close>

text \<open>
  An exception in a handler is swallowed by the worker: the worker goes on, but no response is
  posted and the connection stays as it is, so its client waits for ever.
\<close>

lemma handler_exception_unanswered:
  assumes "router_ok router" and "dispatch router r new_response s = (Throw err, s1)"
    and "i < length (workers (thread_pool s))"
  shows "\<exists>s'. worker_end ord router i (Handle_request r p keep) s = (Ret (), s') \<and>
    pending_writes s' = pending_writes s \<and> heap s' = heap s \<and> connections s' = connections s \<and>
    open_fds s' = open_fds s \<and> workers (thread_pool s') ! i = In_pop"
proof -
  have "handler_opens (-1) s s1" using dispatch_opens [OF assms(1,2)] by simp
  then have "kernel.more s1 = kernel.more s" "open_fds s1 = open_fds s" by (simp_all add: quiet_def handler_opens_def)
  with assms(2,3) show ?thesis by (simp add: worker_end_def worker_run_def server_more_eq)
qed

theorem shutdown_discards_responses_witness:
  "\<exists>s s2 s3. loop_finish exit_env s = (Ret (), s2) \<and> event_loop_dtor [] s2 = (Ret (), s3) \<and>
     (\<exists>pw. tq_queue (pending_writes s3) = [pw] \<and> pw_file_fd pw = 9) \<and> open_fds s3 = {9}"
proof -
  from file_answered obtain s pw where
    s: "reachable server_start (server_step id empty_request web_router) s" "workers (thread_pool s) = [In_pop, In_pop]"
      "tq_queue (pool_queue (thread_pool s)) = []" "\<not> shutdown_called (thread_pool s)"
      and pw: "tq_queue (pending_writes s) = [pw]" "pw_file_fd pw = 9" by blast
  from join_exit_env [OF s(2-4), of id empty_request web_router] s(1) obtain p where
    p: "join_pool exit_env s = (Ret (), s\<lparr>thread_pool := p\<rparr>)" "shutdown_called p" "all_exited p"
      "reachable server_start (server_step id empty_request web_router) (s\<lparr>thread_pool := p\<rparr>)" by blast
  have ok: "router_ok web_router" by (rule build_router_ok [OF web_fs_frame web_router_built])
  have "shutdown_called (thread_pool (s\<lparr>thread_pool := p\<rparr>))" "all_exited (thread_pool (s\<lparr>thread_pool := p\<rparr>))"
    using p(2,3) by simp_all
  from shutdown_discards_responses [OF reachable_at_rest [OF p(4) ok] at_rest_sel(1) ok p(1) this, of "[]"]
  obtain s2 s3 where "loop_finish exit_env s = (Ret (), s2)" "event_loop_dtor [] s2 = (Ret (), s3)"
    "pending_writes s3 = pending_writes s" "open_fds s3 = {9}"
    using pw by (auto simp: pw_fds_def owns_def)
  then show ?thesis using pw by (intro exI [of _ s] exI [of _ s2] exI [of _ s3]) simp
qed

lemma handler_exception_unanswered_witness:
  "let router = add_route GET ''/x'' (\<lambda>req resp w. (Throw (Runtime_error ''no memory''), w)) [];
       req = empty_request\<lparr>req_method := GET, req_path := ''/x''\<rparr>
   in \<exists>s'. worker_end id router 0 (Handle_request req 0 True) one_client = (Ret (), s') \<and>
     pending_writes s' = pending_writes one_client \<and> heap s' = heap one_client"
proof -
  let ?h = "\<lambda>req resp w. (Throw (Runtime_error ''no memory''), w)"
  let ?router = "add_route GET ''/x'' ?h []"
  let ?req = "empty_request\<lparr>req_method := GET, req_path := ''/x''\<rparr>"
  have 1: "router_ok ?router" by (simp add: router_ok_def add_route_def handler_ok_def handler_opens_nothing)
  have 2: "dispatch ?router ?req new_response one_client = (Throw (Runtime_error ''no memory''), one_client)"
    by (simp add: dispatch_def add_route_def exact_match_def)
  have 3: "0 < length (workers (thread_pool one_client))" by (simp add: one_client_eq new_pool_def worker_count_pos)
  from handler_exception_unanswered [OF 1 2 3, of id 0 True] show ?thesis by (auto simp: Let_def)
qed

section \<open>A shutdown that hangs\<close>

text \<open>While \<open>run\<close> waits in \<open>join\<close>, only the workers move.\<close>

inductive join_step :: "header_order \<Rightarrow> web_server Router \<Rightarrow> web_server \<Rightarrow> web_server \<Rightarrow> bool"
  for ord :: header_order and router :: "web_server Router" where
  join_take: "i < length (workers (thread_pool s)) \<Longrightarrow> workers (thread_pool s) ! i = In_pop \<Longrightarrow>
    worker_begin i s = (Ret (), s') \<Longrightarrow> join_step ord router s s'"
| join_task: "i < length (workers (thread_pool s)) \<Longrightarrow> workers (thread_pool s) ! i = Running t \<Longrightarrow>
    worker_end ord router i t s = (Ret (), s') \<Longrightarrow> join_step ord router s s'"

text \<open>A worker has a response for the full queue of pending writes.\<close>

definition stuck_worker :: "web_server Router \<Rightarrow> nat \<Rightarrow> Task \<Rightarrow> web_server \<Rightarrow> bool" where
  "stuck_worker router i t s \<longleftrightarrow> tq_capacity (pending_writes s) \<le> length (tq_queue (pending_writes s)) \<and>
     \<not> tq_closed (pending_writes s) \<and> i < length (workers (thread_pool s)) \<and> workers (thread_pool s) ! i = Running t"

lemma full_queue_blocks:
  assumes "tq_capacity (pending_writes s) \<le> length (tq_queue (pending_writes s))" and "\<not> tq_closed (pending_writes s)"
    and "router_ok router" and "run_task ord router t s = (r, s')"
  shows "pending_writes s' = pending_writes s \<and> thread_pool s' = thread_pool s \<and> r \<noteq> Ret ()"
proof -
  obtain req p keep where t: "t = Handle_request req p keep" by (cases t)
  obtain x s1 where d: "dispatch router req new_response s = (x, s1)" by force
  have "kernel.more s1 = kernel.more s" using dispatch_opens [OF assms(3) d] by (simp add: quiet_def handler_opens_def)
  then have m: "pending_writes s1 = pending_writes s" "thread_pool s1 = thread_pool s" by (simp_all add: server_more_eq)
  have b: "post_response c dd ff n s1 = (Blocked, s1)" for c dd ff n
    using assms(1,2) m(1)
    by (cases rule: tq.put_cases [of "\<lparr>pw_conn = c, pw_data = dd, pw_file_fd = ff, pw_file_size = n\<rparr>" "pending_writes s1"])
      (simp_all add: post_response_def)
  show ?thesis using assms(4) d m b by (cases x) (auto simp: t Let_def split: prod.splits)
qed

lemma stuck_worker_step:
  assumes "join_step ord router s s'" and "stuck_worker router i t s" and "router_ok router"
    and "t = Handle_request r p keep" and "\<forall>w. \<exists>x w1. dispatch router r new_response w = (Ret x, w1)"
  shows "stuck_worker router i t s'"
  using assms(1)
proof cases
  case (join_take j)
  then have "j \<noteq> i" using assms(2) by (auto simp: stuck_worker_def)
  obtain q where q: "worker_take j (thread_pool s) = Ret q" "s' = s\<lparr>thread_pool := q\<rparr>"
    using join_take(3) by (auto simp: worker_begin_def split: res.splits)
  from q(1) have "length (workers q) = length (workers (thread_pool s)) \<and> workers q ! i = workers (thread_pool s) ! i"
    by (cases rule: worker_take_cases) (use \<open>j \<noteq> i\<close> in simp_all)
  with assms(2) q(2) show ?thesis by (simp add: stuck_worker_def)
next
  case (join_task j u)
  obtain x s1 where x: "run_task ord router u s = (x, s1)" by force
  have fq: "pending_writes s1 = pending_writes s" "thread_pool s1 = thread_pool s" "x \<noteq> Ret ()"
    using full_queue_blocks [OF _ _ assms(3) x] assms(2) by (simp_all add: stuck_worker_def)
  have "j \<noteq> i"
  proof
    assume "j = i"
    then have u: "u = t" using join_task(2) assms(2) by (simp add: stuck_worker_def)
    obtain y w where d: "dispatch router r new_response s = (Ret y, w)" using assms(5) by blast
    then have "\<exists>c dd ff n. run_task ord router t s = post_response c dd ff n w" by (cases y) (auto simp: assms(4) Let_def split: prod.split)
    moreover have "post_response c dd ff n w \<noteq> (Throw e, s1)" for c dd ff n e
      by (cases rule: tq.put_cases [of "\<lparr>pw_conn = c, pw_data = dd, pw_file_fd = ff, pw_file_size = n\<rparr>" "pending_writes w"])
        (simp_all add: post_response_def)
    ultimately have "x = Blocked" using x u fq(3) by (cases x) (auto dest: sym)
    with join_task(3) x show False by (simp add: worker_end_def worker_run_def)
  qed
  have "s' = s1\<lparr>thread_pool := (thread_pool s)\<lparr>workers := (workers (thread_pool s))[j := In_pop],
      finished := finished (thread_pool s) @ [u]\<rparr>\<rparr>"
    using join_task(3) x by (auto simp: worker_end_def worker_run_def bind_st_eq_Ret split: res.splits)
  with assms(2) fq \<open>j \<noteq> i\<close> show ?thesis by (simp add: stuck_worker_def)
qed

text \<open>
  C20 Shutdown can hang: when the queue of pending writes is full and a worker has another response
  to post, no run of the workers ends with all of them having left their loops. \<open>run\<close> joins
  the workers before it does anything else, and only its thread empties that queue.
\<close>

theorem shutdown_hangs_on_full_queue:
  assumes "(join_step ord router)\<^sup>*\<^sup>* s s'" and "stuck_worker router i (Handle_request r p keep) s" and "router_ok router"
    and "\<forall>w. \<exists>x w1. dispatch router r new_response w = (Ret x, w1)"
  shows "\<not> all_exited (thread_pool s')"
proof -
  have "stuck_worker router i (Handle_request r p keep) s'"
    using assms(1) by (induction rule: rtranclp_induct) (use assms(2) stuck_worker_step [OF _ _ assms(3) refl assms(4)] in blast)+
  then show ?thesis by (auto simp: stuck_worker_def all_exited_def list_all_length)
qed

text \<open>One worker waits for a task, the other has a response, and 4096 responses are queued.\<close>

definition full_web :: web_server where
  "full_web = one_client\<lparr>pending_writes := (pending_writes one_client)\<lparr>tq_queue :=
       replicate 4096 \<lparr>pw_conn = Some 0, pw_data = ''x'', pw_file_fd = -1, pw_file_size = 0\<rparr>\<rparr>,
     thread_pool := (shutdown_begin (thread_pool one_client))\<lparr>workers := [In_pop, Running (Handle_request empty_request 0 True)]\<rparr>\<rparr>"

theorem shutdown_hangs_on_full_queue_witness:
  "\<exists>s'. join_step id health_router full_web s' \<and> \<not> all_exited (thread_pool s')"
proof -
  have "tq_queue (pool_queue (thread_pool full_web)) = []" "tq_closed (pool_queue (thread_pool full_web))"
    "workers (thread_pool full_web) = [In_pop, Running (Handle_request empty_request 0 True)]"
    by (simp_all add: full_web_def one_client_eq new_pool_def new_queue_def shutdown_begin_def close_def)
  moreover from this obtain s' where "worker_begin 0 full_web = (Ret (), s')"
    by (simp add: worker_begin_def worker_take_def pop_def)
  ultimately have j: "join_step id health_router full_web s'" by (intro join_take [of 0]) simp_all
  have "stuck_worker health_router 1 (Handle_request empty_request 0 True) full_web"
    by (simp add: stuck_worker_def full_web_def one_client_eq new_queue_def TQ_DEFAULT_CAPACITY_def)
  moreover have "req_path empty_request \<noteq> ''/health''" by (simp add: empty_request_def)
  then have "\<forall>w. \<exists>x w1. dispatch health_router empty_request new_response w = (Ret x, w1)"
    by (auto simp: dispatch_def health_router_def add_route_def exact_match_def prefix_match_def)
  ultimately have "\<not> all_exited (thread_pool s')"
    using j by (intro shutdown_hangs_on_full_queue [OF r_into_rtranclp _ health_router_ok])
  with j show ?thesis by blast
qed

end
