(* ===== verification/Server_Exit.thy ===== *)
theory Server_Exit
  imports Server_Shutdown
begin

text \<open>
  The ways \<open>run\<close> ends: what the other threads do meanwhile, the exceptions that leave the loop,
  and the destruction of the event loop after an exception, while the workers still answer
  requests.
\<close>

section \<open>The other threads\<close>

text \<open>
  What the other threads and the outside world do while the loop waits or is joining the workers:
  a worker takes a task or runs one, a signal handler stops the loop, and what is to be received,
  sent and accepted changes. \<open>accept4\<close> will return descriptors that are unused then.
\<close>

inductive other_step :: "header_order \<Rightarrow> web_server Router \<Rightarrow> web_server \<Rightarrow> web_server \<Rightarrow> bool"
  for ord :: header_order and router :: "web_server Router" where
  other_take: "i < length (workers (thread_pool s)) \<Longrightarrow> workers (thread_pool s) ! i = In_pop \<Longrightarrow>
    worker_begin i s = (Ret (), s') \<Longrightarrow> other_step ord router s s'"
| other_task: "i < length (workers (thread_pool s)) \<Longrightarrow> workers (thread_pool s) ! i = Running t \<Longrightarrow>
    worker_end ord router i t s = (Ret (), s') \<Longrightarrow> accepts_fresh s' \<Longrightarrow> other_step ord router s s'"
| other_signal: "other_step ord router s (signal_handler True s)"
| other_outside: "quiet s s' \<Longrightarrow> open_fds s' = open_fds s \<Longrightarrow> interest s' = interest s \<Longrightarrow> accepts_fresh s' \<Longrightarrow>
    other_step ord router s s'"

definition others_do :: "header_order \<Rightarrow> web_server Router \<Rightarrow> (web_server \<Rightarrow> web_server) list \<Rightarrow> bool" where
  "others_do ord router env \<longleftrightarrow> (\<forall>other \<in> set env. \<forall>s. (other_step ord router)\<^sup>*\<^sup>* s (other s))"

text \<open>A property that the steps keep is kept by all that is done, one after the other.\<close>

lemma others_do_keep:
  assumes "others_do ord router env" and "P s" and "\<And>s s'. other_step ord router s s' \<Longrightarrow> P s \<Longrightarrow> P s'"
  shows "\<forall>other \<in> set env. P (other s)" and "P (fold (\<lambda>other. other) env s)"
proof -
  have 1: "P (other s)" if "(other_step ord router)\<^sup>*\<^sup>* s (other s)" "P s" for other and s :: web_server
    using that by (induction rule: rtranclp_induct) (use assms(3) in blast)+
  with assms(1,2) show "\<forall>other \<in> set env. P (other s)" by (simp add: others_do_def)
  show "P (fold (\<lambda>other. other) env s)"
    using assms(1,2)
  proof (induction env arbitrary: s)
    case (Cons other env)
    then have "P (other s)" "others_do ord router env" using 1 by (simp_all add: others_do_def)
    with Cons.IH show ?case by simp
  qed simp
qed

text \<open>A task that a worker ends: what its handler has opened is in the response it has posted.\<close>

lemma task_ends:
  assumes "worker_end ord router i t s = (Ret (), s')" and "router_ok router"
  obtains s1 f where "handler_opens f s s1" "f < 0" "s' = task_done i t s1"
  | s1 f pw ok q where "handler_opens f s s1" "pw_file_fd pw = f" "push pw (pending_writes s) = Ret (ok, q)"
      "s' = task_done i t (sys_eventfd_write (s1\<lparr>pending_writes := q\<rparr>))"
proof -
  obtain req p keep where t: "t = Handle_request req p keep" by (cases t)
  obtain r s1 where d: "dispatch router req new_response s = (r, s1)" by force
  note op = dispatch_opens [OF assms(2) d]
  have same: "thread_pool s1 = thread_pool s" "pending_writes s1 = pending_writes s"
    using op by (simp_all add: handler_opens_def quiet_def server_more_eq)
  show ?thesis
  proof (cases r)
    case (Ret x)
    obtain found resp where x: "x = (found, resp)" by force
    let ?pw = "task_write ord t found resp"
    have run: "run_task ord router t s = (case push ?pw (pending_writes s1) of
        Ret (ok, q) \<Rightarrow> (Ret (), sys_eventfd_write (s1\<lparr>pending_writes := q\<rparr>))
      | Throw e \<Rightarrow> (Throw e, s1) | Blocked \<Rightarrow> (Blocked, s1))"
      using d Ret x by (simp add: t post_response_def take_sendfile_fd_def Let_def)
    obtain ok q where q: "push ?pw (pending_writes s1) = Ret (ok, q)"
    proof (cases rule: tq.put_cases [of ?pw "pending_writes s1"])
      case 1
      with run assms(1) show ?thesis by (simp add: worker_end_def worker_run_def)
    qed (use that in blast)+
    with run assms(1) have "s' = task_done i t (sys_eventfd_write (s1\<lparr>pending_writes := q\<rparr>))"
      by (simp add: worker_end_def worker_run_def task_done_def same sys_eventfd_write_def)
    moreover have "pw_file_fd ?pw = (if found then sendfile_fd resp else -1)"
      by (simp add: t take_sendfile_fd_def Let_def)
    ultimately show ?thesis using that(2) [OF op _ q [unfolded same]] Ret x by simp
  next
    case (Throw err)
    then have "s' = task_done i t s1"
      using assms(1) d by (simp add: t worker_end_def worker_run_def task_done_def same)
    with that(1) [OF op] Throw show ?thesis by simp
  qed (use assms(1) d t in \<open>simp add: worker_end_def worker_run_def\<close>)
qed

section \<open>Destruction after an exception\<close>

text \<open>
  The descriptors after an exception: those of the listening socket, the epoll instance, the
  connections and the pending writes, and of the eventfd until the destructor closes it. Nothing
  is said of the map of connections.
\<close>

definition outlived :: "web_server \<Rightarrow> bool" where
  "outlived s \<longleftrightarrow> held (pw_fds (tq_queue (pending_writes s)) + {#sock_fd (listen_socket s), epfd (ev_epoll s)#}) s \<and>
     \<not> tq_closed (pending_writes s)"

definition unwinds :: "web_server \<Rightarrow> bool" where
  "unwinds s \<longleftrightarrow> held (pw_fds (tq_queue (pending_writes s)) + {#sock_fd (listen_socket s), epfd (ev_epoll s)#} +
       {#wakeup_fd s#}) s \<and> \<not> tq_closed (pending_writes s)"

lemma outlived_cong:
  assumes "heap s' = heap s" and "open_fds s' = open_fds s" and "pending_writes s' = pending_writes s"
    and "listen_socket s' = listen_socket s" and "epfd (ev_epoll s') = epfd (ev_epoll s)"
  shows "outlived s' = outlived s"
  by (simp add: outlived_def held_def assms)

lemma outlived_more: "kernel.more s' = kernel.more s \<Longrightarrow> open_fds s' = open_fds s \<Longrightarrow> outlived s' = outlived s"
  by (rule outlived_cong) (simp_all add: server_more_eq)

lemma held_opens:
  assumes "held R s" and "handler_opens f s s1"
  shows "held (owns f + R) s1"
proof -
  have "heap s1 = heap s" using assms(2) by (simp add: handler_opens_def quiet_def server_more_eq)
  with assms show ?thesis by (auto simp: held_def handler_opens_def count_owns owns_def split: if_splits)
qed

lemma task_done_outlived [simp]: "outlived (task_done i t s) = outlived s"
  by (rule outlived_cong) (simp_all add: task_done_def)

lemma other_step_outlived:
  assumes "other_step ord router s s'" and "router_ok router" and "outlived s"
  shows "outlived s'"
  using assms(1)
proof cases
  case (other_take i)
  then obtain p where "s' = s\<lparr>thread_pool := p\<rparr>" by (auto simp: worker_begin_def split: res.splits)
  with assms(3) outlived_cong [of s' s] show ?thesis by simp
next
  case (other_task i t)
  from other_task(3) assms(2) show ?thesis
  proof (cases rule: task_ends)
    case (1 s1 f)
    have "kernel.more s1 = kernel.more s" "open_fds s1 = open_fds s" using 1 by (simp_all add: handler_opens_def quiet_def)
    with 1 assms(3) outlived_more [of s1 s] show ?thesis by simp
  next
    case (2 s1 f pw ok q)
    have q: "tq_queue q = tq_queue (pending_writes s) @ [pw]" "\<not> tq_closed q"
      using 2(3) assms(3) by (cases rule: tq.put_cases [of pw "pending_writes s"]; simp add: outlived_def)+
    have m: "listen_socket s1 = listen_socket s" "ev_epoll s1 = ev_epoll s"
      using 2(1) by (simp_all add: handler_opens_def quiet_def server_more_eq)
    let ?s = "s1\<lparr>pending_writes := q\<rparr>"
    have "held (owns f + (pw_fds (tq_queue (pending_writes s)) + {#sock_fd (listen_socket s), epfd (ev_epoll s)#})) s1"
      by (rule held_opens [OF _ 2(1)]) (use assms(3) in \<open>simp add: outlived_def\<close>)
    then have "held (pw_fds (tq_queue q) + {#sock_fd (listen_socket s), epfd (ev_epoll s)#}) ?s"
      using held_cong [of ?s s1] by (simp add: q(1) pw_fds_def 2(2) ac_simps)
    then have "outlived ?s" using q(2) m by (simp add: outlived_def)
    then show ?thesis using 2(4) outlived_cong [of "sys_eventfd_write ?s" ?s] by (simp add: sys_eventfd_write_def)
  qed
next
  case other_signal
  with assms(3) outlived_cong [of s' s] show ?thesis by (simp add: signal_handler_def stop_def)
next
  case other_outside
  with assms(3) outlived_more [of s' s] show ?thesis by (simp add: quiet_def)
qed

lemma join_outlived:
  assumes "others_do ord router env" and "router_ok router" and "outlived s" and "join_pool env s = (r, s')"
  shows "outlived s'"
proof -
  let ?s = "s\<lparr>thread_pool := shutdown_begin (thread_pool s)\<rparr>"
  have "outlived ?s" using assms(3) outlived_cong [of ?s s] by simp
  from others_do_keep(2) [where P = outlived, OF assms(1) this] other_step_outlived [OF _ assms(2)] have
    "outlived (fold (\<lambda>other. other) env ?s)" by blast
  with assms(3,4) show ?thesis by (auto simp: join_pool_def Let_def split: if_splits)
qed

text \<open>The members go, and what is left open are the files of the pending writes.\<close>

lemma destroy_outlived:
  assumes "others_do ord router env" and "router_ok router" and "outlived s" and "destroy_members env s = (Ret (), s')"
  shows "open_fds s' = set_mset (pw_fds (tq_queue (pending_writes s')))"
proof -
  obtain r s1 where j: "join_pool env s = (r, s1)" by force
  have r: "r = Ret ()" using assms(4) destroy_members_fst [of env s] j by simp
  have "outlived s1" by (rule join_outlived [OF assms(1-3) j])
  from destroy_members_held [OF this [unfolded outlived_def, THEN conjunct1] j [unfolded r]] assms(4) show ?thesis by auto
qed

lemma dtor_unwinds:
  assumes "others_do ord router env" and "router_ok router" and "unwinds s" and "event_loop_dtor env s = (Ret (), s')"
  shows "open_fds s' = set_mset (pw_fds (tq_queue (pending_writes s')))"
proof -
  let ?w = "wakeup_fd s"
  let ?s1 = "(Kernel.sys_close ?w s)\<lparr>wakeup_fd := -1\<rparr>"
  have w: "0 \<le> ?w" using assms(3) by (simp add: unwinds_def held_def)
  have "outlived (Kernel.sys_close ?w s)"
    using assms(3) held_close [of _ ?w s] by (simp add: unwinds_def outlived_def Kernel.sys_close_def)
  then have "outlived ?s1" using outlived_cong [of ?s1 "Kernel.sys_close ?w s"] by simp
  from assms(4) w obtain s2 where
    s2: "join_pool env ?s1 = (Ret (), s2)" "destroy_members [] s2 = (Ret (), s')"
    by (auto simp: event_loop_dtor_def Let_def bind_st_eq_Ret)
  have "others_do ord router []" by (simp add: others_do_def)
  from destroy_outlived [OF this assms(2) join_outlived [OF assms(1,2) \<open>outlived ?s1\<close> s2(1)] s2(2)] show ?thesis .
qed

lemma inv_unwinds:
  assumes "loop_inv tc {#} s"
  shows "unwinds s"
  using inv_held [OF assms] assms by (simp add: unwinds_def loop_inv_def refs_ok_def ac_simps)

section \<open>What the loop thread keeps\<close>

definition loop_keeps :: "web_server \<Rightarrow> web_server \<Rightarrow> bool" where
  "loop_keeps s s' \<longleftrightarrow> listen_socket s' = listen_socket s \<and> wakeup_fd s' = wakeup_fd s \<and> ev_epoll s' = ev_epoll s \<and>
     raw_events_size s' = raw_events_size s \<and> tq_closed (pending_writes s') = tq_closed (pending_writes s)"

lemma loop_keeps_trans: "loop_keeps s s1 \<Longrightarrow> loop_keeps s1 s2 \<Longrightarrow> loop_keeps s s2"
  by (simp add: loop_keeps_def)

lemma loop_keeps_steady: "steady s s' \<Longrightarrow> loop_keeps s s'"
  by (simp add: loop_keeps_def steady_def)

lemma push_closed: "push x q = Ret (ok, q') \<Longrightarrow> tq_closed q' = tq_closed q"
  by (cases rule: tq.put_cases [of x q]; simp)

lemma loop_keeps_calls [simp]:
  "loop_keeps s (set_parser p x s)" "loop_keeps s (snd (submit_task t (set_parser p x s)))"
  "loop_keeps s (snd (post_response c d f n (set_parser p x s)))"
  by (auto simp: loop_keeps_def set_parser_def submit_task_def post_response_def sys_eventfd_write_def push_closed
      split: res.split)

lemma loop_keeps_read:
  assumes "read_callback ord mv p c s = (r, s')"
  shows "loop_keeps s s'"
proof -
  obtain res ps where f: "feed (readable (read_buf c)) (parser_of s p) = (res, ps)" by force
  have b: "s' = snd m" if "(r, s') = bind_st m (\<lambda>_ s2. (Ret c2, s2))" for m :: "unit res \<times> web_server" and c2
  proof -
    obtain x s1 where "m = (x, s1)" by force
    with that show ?thesis by (cases x) auto
  qed
  from read_callback_eq [OF f, of ord mv] assms show ?thesis by (cases res) (auto dest!: b)
qed

interpretation keep_guarantee: loop_guarantee loop_keeps "web_app ord mv"
proof
  fix p cb c s r and s' :: web_server
  assume "read_cb (web_app ord mv) p = Some cb" "cb c s = (r, s')"
  then show "loop_keeps s s'" using loop_keeps_read by (auto simp: web_app_def)
next
  fix h p and s :: web_server
  show "loop_keeps s (s\<lparr>server.more := h p (server.more s)\<rparr>)" by (simp add: loop_keeps_def)
qed (use loop_keeps_trans loop_keeps_steady in blast)+

lemma drain_loop_keeps: "loop_keeps s (snd (drain_loop s))"
proof (induction s rule: drain_loop.induct)
  case (1 s)
  obtain x q where x: "try_pop (pending_writes s) = (x, q)" by force
  show ?case
  proof (cases x)
    case None
    with x show ?thesis by (simp add: drain_loop.simps [of s] loop_keeps_def)
  next
    case (Some pw)
    obtain r s1 where d: "deliver_one pw (s\<lparr>pending_writes := q\<rparr>) = (r, s1)" by force
    have "tq_closed q = tq_closed (pending_writes s)" using x by (auto simp: try_pop_def split: list.splits)
    then have "loop_keeps s (s\<lparr>pending_writes := q\<rparr>)" by (simp add: loop_keeps_def)
    then have 2: "loop_keeps s s1"
      using loop_keeps_trans [OF _ loop_keeps_steady [OF deliver_one_steady]] d by (metis snd_conv)
    show ?thesis
    proof (cases r)
      case (Ret u)
      with loop_keeps_trans [OF 2 1 [OF x [symmetric] Some d [symmetric] Ret]] d x Some show ?thesis
        by (simp add: drain_loop.simps [of s])
    qed (use d x Some 2 in \<open>simp_all add: drain_loop.simps [of s]\<close>)
  qed
qed

lemma handle_event_keeps:
  assumes "handle_event (web_app ord mv) e s = (r, s')"
  shows "loop_keeps s s'"
proof (cases "ev_fd e = sock_fd (listen_socket s) \<or> ev_fd e \<noteq> wakeup_fd s")
  case True
  from keep_guarantee.handle_event_R [OF this, of ord mv] assms show ?thesis by simp
next
  case False
  have "loop_keeps s (sys_eventfd_read s)" by (simp add: loop_keeps_def sys_eventfd_read_def)
  from loop_keeps_trans [OF this drain_loop_keeps] False assms show ?thesis
    by (simp add: handle_event_def drain_pending_writes_def)
qed

section \<open>Exceptions of the loop\<close>

text \<open>
  \<open>wait\<close> stays inside its array as long as no larger one has been used on the thread. The
  errors are those of \<open>epoll_wait\<close> but \<open>EINTR\<close>, of \<open>accept4\<close> but the two that are expected,
  and the change of interest of a connection that was closed while it was written.
\<close>

definition polls :: "web_server \<Rightarrow> bool" where
  "polls s \<longleftrightarrow> raw_events_size s \<le> length (ep_events (ev_epoll s))"

definition loop_error :: "fault \<Rightarrow> bool" where
  "loop_error err \<longleftrightarrow> (\<exists>n. n \<noteq> EINTR \<and> err = throw_errno ''epoll_wait'' n) \<or>
     (\<exists>n. n \<notin> {EAGAIN, ECONNABORTED} \<and> err = throw_errno ''accept4()'' n) \<or>
     (\<exists>n \<in> {EBADF, ENOENT}. err = throw_errno ''epoll_ctl(MOD)'' n)"

definition round_ok :: "web_server \<Rightarrow> bool" where
  "round_ok s \<longleftrightarrow> loop_inv task_conn {#} s \<and> accepts_fresh s"

lemma accounted_unwinds:
  assumes "loop_inv task_conn {#} s" and "accounted {#} s'" and "loop_keeps s s'"
  shows "unwinds s'"
proof -
  have "owners s' = pw_fds (tq_queue (pending_writes s')) + {#sock_fd (listen_socket s'), epfd (ev_epoll s')#} +
      {#wakeup_fd s'#} + sum_list (map conn_fds (heap s'))" by (simp add: owners_def ac_simps)
  moreover have "0 \<le> sock_fd (listen_socket s')" "0 \<le> epfd (ev_epoll s')" "0 \<le> wakeup_fd s'" "\<not> tq_closed (pending_writes s')"
    using assms(1,3) by (auto simp: loop_inv_def watch_ok_def loop_keeps_def refs_ok_def)
  ultimately show ?thesis
    using assms(2) by (auto simp: unwinds_def held_def accounted_def dest: pw_fds_nonneg)
qed

lemma events_end:
  assumes "round_ok s" and "handle_events (web_app ord mv) es s = (r, s')"
  shows "loop_keeps s s' \<and> (r = Blocked \<or> r = Ret () \<and> round_ok s' \<or> (\<exists>err. r = Throw err \<and> loop_error err \<and> unwinds s'))"
  using assms
proof (induction es arbitrary: s)
  case Nil
  then show ?case by (simp add: loop_keeps_def)
next
  case (Cons e es)
  obtain r1 s1 where e: "handle_event (web_app ord mv) e s = (r1, s1)" by force
  note k = handle_event_keeps [OF e]
  have inv: "loop_inv task_conn {#} s" "accepts_fresh s" using Cons.prems(1) by (simp_all add: round_ok_def)
  have "\<forall>p. read_cb (web_app ord mv) p = Some (read_callback ord mv p)" by (simp add: web_app_def)
  from web_loop.handle_event_inv [OF inv this e] have
    c: "r1 = Blocked \<or> r1 = Ret () \<and> round_ok s1 \<or> accounted {#} s1 \<and> (\<exists>err. r1 = Throw err \<and> loop_error err)"
    by (auto simp: round_ok_def loop_error_def)
  show ?case
  proof (cases r1)
    case (Ret u)
    with c have "round_ok s1" by simp
    moreover have "handle_events (web_app ord mv) es s1 = (r, s')" using Cons.prems(2) e Ret by simp
    ultimately show ?thesis using Cons.IH loop_keeps_trans [OF k] by blast
  next
    case (Throw err)
    with Cons.prems(2) e have "r = Throw err" "s' = s1" by simp_all
    with c Throw accounted_unwinds [OF inv(1) _ k] k show ?thesis by auto
  next
    case Blocked
    with Cons.prems(2) e k show ?thesis by simp
  qed
qed

lemma wait_end:
  assumes "epoll_wait t (ev_epoll s) s = (r, s1)" and "round_ok s"
  shows "case r of Ret (evs, ep) \<Rightarrow> round_ok (s1\<lparr>ev_epoll := ep\<rparr>) \<and> (polls s \<longrightarrow> polls (s1\<lparr>ev_epoll := ep\<rparr>))
    | Throw err \<Rightarrow> unwinds s1 \<and> (polls s \<longrightarrow> loop_error err) | Blocked \<Rightarrow> True"
proof (cases r)
  case (Ret x)
  obtain evs ep where x: "x = (evs, ep)" by force
  have w: "epoll_wait t (ev_epoll s) s = (Ret (evs, ep), s1)" using assms(1) Ret x by simp
  have "round_ok (s1\<lparr>ev_epoll := ep\<rparr>)"
    using inv_waited [OF _ w] assms(2) epoll_wait_frame [OF w] by (auto simp: round_ok_def accepts_fresh_def)
  moreover have "polls (s1\<lparr>ev_epoll := ep\<rparr>)" if "polls s"
    using w that
    by (auto simp: polls_def epoll_wait_def sys_epoll_wait_def copy_events_def Let_def bind_st_def
        split: list.splits ready_event.splits sum.splits res.splits if_splits prod.splits)
  ultimately show ?thesis by (simp add: Ret x)
next
  case (Throw err)
  have s1: "kernel.more s1 = kernel.more s" "open_fds s1 = open_fds s"
    using assms(1)
    by (auto simp: epoll_wait_def sys_epoll_wait_def Let_def bind_st_def
        split: list.splits ready_event.splits sum.splits res.splits if_splits prod.splits)
  have "unwinds s" using assms(2) inv_unwinds unfolding round_ok_def by blast
  then have "unwinds s1" using s1 by (simp add: unwinds_def held_def server_more_eq)
  moreover have "loop_error err" if "polls s"
    using assms(1) that Throw
    by (auto simp: polls_def loop_error_def epoll_wait_def sys_epoll_wait_def copy_events_def Let_def bind_st_def
        split: list.splits ready_event.splits sum.splits res.splits if_splits prod.splits)
  ultimately show ?thesis by (simp add: Throw)
qed simp

section \<open>Rounds\<close>

lemma iteration_end:
  assumes "round_ok s" and "loop_iteration (web_app ord mv) s = (r, s')"
  shows "r = Blocked \<or> r = Ret () \<and> round_ok s' \<and> (polls s \<longrightarrow> polls s') \<or>
    (\<exists>err. r = Throw err \<and> unwinds s' \<and> (polls s \<longrightarrow> loop_error err))"
proof -
  obtain r1 s1 where w: "epoll_wait EPOLL_TIMEOUT_MS (ev_epoll s) s = (r1, s1)" by force
  note end1 = wait_end [OF w assms(1)]
  show ?thesis
  proof (cases r1)
    case (Ret x)
    obtain evs ep where x: "x = (evs, ep)" by force
    let ?t = "s1\<lparr>ev_epoll := ep\<rparr>"
    obtain r2 s2 where h: "handle_events (web_app ord mv) evs ?t = (r2, s2)" by force
    have t: "round_ok ?t" "polls s \<longrightarrow> polls ?t" using end1 by (simp_all add: Ret x)
    from events_end [OF t(1) h] have
      k: "loop_keeps ?t s2" and e: "r2 = Blocked \<or> r2 = Ret () \<and> round_ok s2 \<or> (\<exists>err. r2 = Throw err \<and> loop_error err \<and> unwinds s2)"
      by simp_all
    show ?thesis
    proof (cases "r2 = Ret ()")
      case True
      have "r = Ret ()" "s' = reap s2" using assms(2) w h by (simp_all add: loop_iteration_def Ret x True)
      moreover have "round_ok (reap s2)"
        using e True reap_inv calm_fresh [OF reap_calm] by (auto simp: round_ok_def)
      moreover have "polls (reap s2) = polls s2" using reap_steady [of s2] by (simp add: steady_def polls_def)
      moreover have "polls s2 = polls ?t" using k by (simp add: polls_def loop_keeps_def)
      ultimately show ?thesis using t(2) by simp
    next
      case False
      with e assms(2) w h show ?thesis by (auto simp: loop_iteration_def Ret x)
    qed
  qed (use end1 assms(2) w in \<open>auto simp: loop_iteration_def\<close>)
qed

text \<open>What the others do keeps this too.\<close>

lemma other_step_keeps:
  assumes "other_step ord router s s'" and "router_ok router" and "round_ok s"
  shows "round_ok s' \<and> (shutdown_called (thread_pool s) \<longrightarrow> shutdown_called (thread_pool s')) \<and> (polls s \<longrightarrow> polls s')"
  using assms(1)
proof cases
  case (other_take i)
  obtain p where p: "worker_take i (thread_pool s) = Ret p" "s' = s\<lparr>thread_pool := p\<rparr>"
    using other_take(3) by (auto simp: worker_begin_def split: res.splits)
  then have "shutdown_called p = shutdown_called (thread_pool s)" by (auto elim: worker_take_cases)
  with worker_begin_inv [OF _ other_take(3)] assms(3) p(2) show ?thesis by (auto simp: round_ok_def accepts_fresh_def polls_def)
next
  case (other_task i t)
  have "shutdown_called (thread_pool s') = shutdown_called (thread_pool s) \<and> polls s' = polls s"
    using other_task(3) assms(2)
  proof (cases rule: task_ends)
    case (1 s1 f)
    then show ?thesis by (simp add: task_done_def polls_def handler_opens_def quiet_def server_more_eq)
  next
    case (2 s1 f pw ok q)
    then show ?thesis by (simp add: task_done_def polls_def handler_opens_def quiet_def server_more_eq sys_eventfd_write_def)
  qed
  with worker_end_inv [OF _ assms(2) other_task(1-3)] assms(3) other_task(4) show ?thesis by (simp add: round_ok_def)
next
  case other_signal
  with assms(3) inv_cong [of s' s] show ?thesis by (simp add: round_ok_def signal_handler_def stop_def accepts_fresh_def polls_def)
next
  case other_outside
  then have "kernel.more s' = kernel.more s" "raw_events_size s' = raw_events_size s" by (simp_all add: quiet_def)
  with other_outside assms(3) inv_cong [of s' s] show ?thesis by (simp add: round_ok_def server_more_eq polls_def)
qed

lemma others_keep:
  assumes "others_do ord router env" and "router_ok router"
  shows "env_keeps task_conn env"
  unfolding env_keeps_def
proof (intro ballI allI impI)
  fix other and s :: web_server
  assume o: "other \<in> set env" and inv: "loop_inv task_conn {#} s" "accepts_fresh s"
  let ?P = "\<lambda>t. round_ok t \<and> (shutdown_called (thread_pool s) \<longrightarrow> shutdown_called (thread_pool t))"
  have "?P s" using inv by (simp add: round_ok_def)
  from others_do_keep(1) [where P = ?P, OF assms(1) this] other_step_keeps [OF _ assms(2)] o
  have "?P (other s)" by blast
  then show "loop_inv task_conn {#} (other s) \<and> accepts_fresh (other s) \<and>
      (shutdown_called (thread_pool s) \<longrightarrow> shutdown_called (thread_pool (other s)))" by (simp add: round_ok_def)
qed

section \<open>How \<open>run\<close> ends\<close>

lemma run_throws:
  assumes "round_ok s" and "others_do ord router env" and "router_ok router"
    and "run_loop (web_app ord mv) env s = (Throw err, s')"
  shows "unwinds s' \<and> (polls s \<longrightarrow> loop_error err)"
  using assms(1,2,4)
proof (induction env arbitrary: s)
  case Nil
  then show ?case using join_pool_fst [of "[]" s] by (auto simp: loop_finish_def bind_st_def split: if_splits prod.splits res.splits)
next
  case (Cons other env)
  show ?case
  proof (cases "loop_running s")
    case False
    then show ?thesis
      using Cons.prems(3) join_pool_fst [of "other # env" s]
      by (auto simp: loop_finish_def bind_st_def split: if_splits prod.splits res.splits)
  next
    case True
    obtain r1 s1 where i: "loop_iteration (web_app ord mv) s = (r1, s1)" by force
    note e = iteration_end [OF Cons.prems(1) i]
    have run: "bind_st (r1, s1) (\<lambda>_ s1. run_loop (web_app ord mv) env (other s1)) = (Throw err, s')"
      using Cons.prems(3) True i by simp
    show ?thesis
    proof (cases "r1 = Ret ()")
      case False
      with e run show ?thesis by (cases r1) auto
    next
      case ret: True
      let ?P = "\<lambda>t. round_ok t \<and> (polls s \<longrightarrow> polls t)"
      have "?P s1" using e ret by simp
      from others_do_keep(1) [where P = ?P, OF Cons.prems(2) this] other_step_keeps [OF _ assms(3)]
      have o: "?P (other s1)" by (auto simp del: split_paired_All)
      have "others_do ord router env" using Cons.prems(2) by (simp add: others_do_def)
      with Cons.IH [of "other s1"] o run ret show ?thesis by simp
    qed
  qed
qed

text \<open>When \<open>run\<close> returns, the workers have been joined in a state with the invariant.\<close>

lemma run_returns:
  assumes "round_ok s" and "others_do ord router env" and "router_ok router"
    and "run (web_app ord mv) env s = (Ret (), s')"
  shows "\<exists>s1. loop_inv task_conn {#} s1 \<and> shutdown_called (thread_pool s1) \<and> s' = clear_connections s1"
proof (rule web_loop.run_loop_inv)
  let ?s = "s\<lparr>loop_running := True\<rparr>"
  show "loop_inv task_conn {#} ?s" using assms(1) inv_cong [of ?s s] by (simp add: round_ok_def)
  show "accepts_fresh ?s" using assms(1) by (simp add: round_ok_def accepts_fresh_def)
  show "\<forall>p. read_cb (web_app ord mv) p = Some (read_callback ord mv p)" by (simp add: web_app_def)
  show "env_keeps task_conn env" by (rule others_keep [OF assms(2,3)])
  show "run_loop (web_app ord mv) env ?s = (Ret (), s')" using assms(4) by (simp add: run_def)
qed

end
