(* ===== verification/Logger.thy ===== *)
theory Logger
  imports Server_Prelude
begin

text \<open>
  \<open>include/util/logger.hpp\<close> and \<open>src/util/logger.cpp\<close>: the configuration the logger
  hands to spdlog. spdlog itself is outside the repository: the model is the configuration,
  not what spdlog does with it.
\<close>

datatype Level = Trace | Debug | Info | Warn | Error | Critical | Off

datatype spdlog_level = spd_trace | spd_debug | spd_info | spd_warn | spd_err | spd_critical | spd_off

section \<open>Orders: from most to least verbose\<close>

primrec level_index :: "Level \<Rightarrow> nat" where
  "level_index Trace = 0"
| "level_index Debug = 1"
| "level_index Info = 2"
| "level_index Warn = 3"
| "level_index Error = 4"
| "level_index Critical = 5"
| "level_index Off = 6"

primrec spdlog_index :: "spdlog_level \<Rightarrow> nat" where
  "spdlog_index spd_trace = 0"
| "spdlog_index spd_debug = 1"
| "spdlog_index spd_info = 2"
| "spdlog_index spd_warn = 3"
| "spdlog_index spd_err = 4"
| "spdlog_index spd_critical = 5"
| "spdlog_index spd_off = 6"

lemma level_index_inj: "level_index a = level_index b \<Longrightarrow> a = b"
  by (cases a; cases b) simp_all

lemma spdlog_index_inj: "spdlog_index a = spdlog_index b \<Longrightarrow> a = b"
  by (cases a; cases b) simp_all

instantiation Level :: linorder
begin

definition less_eq_Level :: "Level \<Rightarrow> Level \<Rightarrow> bool" where
  "less_eq_Level a b \<longleftrightarrow> level_index a \<le> level_index b"

definition less_Level :: "Level \<Rightarrow> Level \<Rightarrow> bool" where
  "less_Level a b \<longleftrightarrow> level_index a < level_index b"

instance
  by standard (auto simp: less_eq_Level_def less_Level_def intro: level_index_inj)

end

instantiation spdlog_level :: linorder
begin

definition less_eq_spdlog_level :: "spdlog_level \<Rightarrow> spdlog_level \<Rightarrow> bool" where
  "less_eq_spdlog_level a b \<longleftrightarrow> spdlog_index a \<le> spdlog_index b"

definition less_spdlog_level :: "spdlog_level \<Rightarrow> spdlog_level \<Rightarrow> bool" where
  "less_spdlog_level a b \<longleftrightarrow> spdlog_index a < spdlog_index b"

instance
  by standard (auto simp: less_eq_spdlog_level_def less_spdlog_level_def intro: spdlog_index_inj)

end

section \<open>Operations\<close>

fun to_spdlog :: "Level \<Rightarrow> spdlog_level" where
  "to_spdlog Trace = spd_trace"
| "to_spdlog Debug = spd_debug"
| "to_spdlog Info = spd_info"
| "to_spdlog Warn = spd_warn"
| "to_spdlog Error = spd_err"
| "to_spdlog Critical = spd_critical"
| "to_spdlog Off = spd_off"

datatype sink_kind = Console | Rotating_file string nat nat

record sink =
  sink_kind :: sink_kind
  sink_level :: spdlog_level

datatype log_mode = Async_block nat nat | Sync

record log_config =
  log_name :: string
  log_sinks :: "sink list"
  log_mode :: log_mode
  log_pattern :: string
  log_level :: spdlog_level
  log_flush_on :: spdlog_level

definition log_init :: "Level \<Rightarrow> string \<Rightarrow> bool \<Rightarrow> log_config" where
  "log_init level log_file async =
     (let console = \<lparr>sink_kind = Console, sink_level = to_spdlog level\<rparr>;
          sinks = (if log_file \<noteq> []
                   then [console, \<lparr>sink_kind = Rotating_file log_file (10 * 1024 * 1024) 5,
                                   sink_level = to_spdlog level\<rparr>]
                   else [console])
      in \<lparr>log_name = ''cppws'', log_sinks = sinks,
          log_mode = (if async then Async_block 8192 1 else Sync),
          log_pattern = ''[%Y-%m-%d %H:%M:%S.%e] [%^%l%$] [t:%t] %v'',
          log_level = to_spdlog level, log_flush_on = spd_warn\<rparr>)"

text \<open>\<open>spdlog::set_level\<close> sets the level of the loggers; \<open>None\<close> is a shut-down logger.\<close>

definition log_set_level :: "Level \<Rightarrow> log_config option \<Rightarrow> log_config option" where
  "log_set_level level cfg = map_option (\<lambda>c. c\<lparr>log_level := to_spdlog level\<rparr>) cfg"

definition log_shutdown :: "log_config option \<Rightarrow> log_config option" where
  "log_shutdown cfg = None"

section \<open>Properties\<close>

lemma to_spdlog_mono: "to_spdlog a \<le> to_spdlog b \<longleftrightarrow> a \<le> b"
  by (cases a; cases b) (simp_all add: less_eq_Level_def less_eq_spdlog_level_def)

text \<open>
  A level change at run time does not reach the sinks: they keep the level of \<open>init\<close>. The
  levels are mapped in order, so after a change to a more verbose level the sinks are set
  stricter than the logger.
\<close>

lemma set_level_leaves_sinks:
  "(\<forall>c \<in> set_option (log_set_level l2 (Some (log_init l1 path async))).
      log_level c = to_spdlog l2 \<and> log_sinks c \<noteq> [] \<and>
      (\<forall>s \<in> set (log_sinks c). sink_level s = to_spdlog l1 \<and> (l2 < l1 \<longrightarrow> log_level c < sink_level s)))"
proof -
  have "to_spdlog l2 < to_spdlog l1 \<longleftrightarrow> l2 < l1"
    by (simp only: less_le_not_le to_spdlog_mono)
  then show ?thesis by (auto simp: log_set_level_def log_init_def Let_def)
qed

lemma set_level_leaves_sinks_witness:
  "\<forall>s \<in> set (log_sinks (the (log_set_level Debug (Some (log_init Info ''server.log'' True))))).
     sink_level s = spd_info"
  using set_level_leaves_sinks [where ?l2.0 = Debug and ?l1.0 = Info and path = "''server.log''" and async = True]
  by (simp add: log_set_level_def)

end
