(* ===== verification/Server_Main.thy ===== *)
theory Server_Main
  imports Server_Exit Logger
begin

text \<open>
  The program as a whole: the block of \<open>main\<close> from the constructor of the event loop to its
  destructor, for every behaviour of clients, workers and signals that \<open>env\<close> and \<open>joins\<close> stand for.
\<close>

section \<open>The block of main\<close>

text \<open>The ways through the block, when it is left.\<close>

lemma main_block_cases:
  assumes "main_block ord mv cs created evfd hw fs cwd env joins s = (r, s')" and "r \<noteq> Blocked"
  obtains err where "r = Throw err" "event_loop_ctor cs created evfd hw DEFAULT_PORT N_WORKERS joins s = (Throw err, s')"
  | err s1 where "r = Throw err" "event_loop_ctor cs created evfd hw DEFAULT_PORT N_WORKERS joins s = (Ret (), s1)"
      "build_router fs cwd s1 = Throw err" "event_loop_dtor joins s1 = (Ret (), s')"
  | err s1 router s2 where "r = Throw err"
      "event_loop_ctor cs created evfd hw DEFAULT_PORT N_WORKERS joins s = (Ret (), s1)" "build_router fs cwd s1 = Ret router"
      "run (web_app ord mv) (env router) s1 = (Throw err, s2)" "event_loop_dtor joins s2 = (Ret (), s')"
  | s1 router s2 where "r = Ret ()"
      "event_loop_ctor cs created evfd hw DEFAULT_PORT N_WORKERS joins s = (Ret (), s1)" "build_router fs cwd s1 = Ret router"
      "run (web_app ord mv) (env router) s1 = (Ret (), s2)" "event_loop_dtor joins s2 = (Ret (), s')"
proof -
  obtain r1 s1 where c: "event_loop_ctor cs created evfd hw DEFAULT_PORT N_WORKERS joins s = (r1, s1)" by force
  have m: "fst (destroy_members e1 t) \<noteq> Throw e" for e1 e and t :: web_server
    using join_pool_fst [of e1 t] destroy_members_fst [of e1 t] by auto
  have "fst (bind_st (join_pool joins t) (\<lambda>_ t1. destroy_members [] t1)) \<noteq> Throw e" for t e
  proof (cases "join_pool joins t")
    case (Pair y t1)
    then show ?thesis using join_pool_fst [of joins t] m by auto
  qed
  then have d: "\<forall>e. fst (event_loop_dtor joins t) \<noteq> Throw e" for t
    by (simp add: event_loop_dtor_def Let_def)
  have leave: "event_loop_dtor joins t = (Ret (), s') \<and> r = x"
    if "leave_block joins (x, t) = (r, s')" "x \<noteq> Blocked" for x t
  proof -
    obtain y t1 where y: "event_loop_dtor joins t = (y, t1)" by force
    with d [of t] have "y = Ret () \<or> y = Blocked" by (cases y) simp_all
    with that y assms(2) show ?thesis by (cases x) (auto simp: leave_block_def)
  qed
  show ?thesis
  proof (cases r1)
    case (Throw err)
    then have "r = Throw err" "s' = s1" using c assms(1) by (auto simp: main_block_def)
    with c Throw that(1) show ?thesis by blast
  next
    case Blocked
    with c assms show ?thesis by (simp add: main_block_def)
  next
    case (Ret u)
    then have c: "event_loop_ctor cs created evfd hw DEFAULT_PORT N_WORKERS joins s = (Ret (), s1)" using c by simp
    then have l: "leave_block joins (bind_st (build_router fs cwd s1, s1) (\<lambda>router s1. run (web_app ord mv) (env router) s1)) = (r, s')"
      using assms(1) by (simp add: main_block_def)
    show ?thesis
    proof (cases "build_router fs cwd s1")
      case (Throw err)
      with l leave [of "Throw err" s1] that(2) [OF _ c Throw] show ?thesis by simp
    next
      case Blocked
      with l assms(2) show ?thesis by (simp add: leave_block_def)
    next
      case (Ret router)
      obtain x s2 where x: "run (web_app ord mv) (env router) s1 = (x, s2)" by force
      show ?thesis
      proof (cases x)
        case (Ret u)
        with l leave [of "Ret ()" s2] that(4) [OF _ c \<open>build_router fs cwd s1 = Ret router\<close>, of s2] x Ret show ?thesis
          by (simp add: \<open>build_router fs cwd s1 = Ret router\<close>)
      next
        case (Throw err)
        with l leave [of "Throw err" s2] that(3) [OF _ c Ret, of err s2] x Ret show ?thesis by simp
      next
        case Blocked
        with l x Ret assms(2) show ?thesis by (simp add: leave_block_def)
      qed
    qed
  qed
qed

lemma started_ok:
  assumes "event_loop_ctor cs created evfd hw port n joins s = (Ret (), s1)"
    and "fresh_start created evfd s" and "fresh_accepts created evfd s"
  shows "round_ok s1 \<and> (raw_events_size s \<le> MAX_EVENTS \<longrightarrow> polls s1)"
  using ctor_inv [OF assms(1,2), of task_conn] assms(3) by (auto simp: round_ok_def polls_def members_made_def)

text \<open>An exception of the constructor, once it has made its members.\<close>

lemma ctor_releases:
  assumes "event_loop_ctor cs created evfd hw port n joins s = (Throw err, s')" and "fresh_start created evfd s"
    and "others_do ord router joins" and "router_ok router"
  shows "open_fds s' \<subseteq> set_mset (pw_fds (tq_queue (pending_writes s')))"
  using assms(1,2)
proof (cases rule: ctor_cases)
  case (2 f e s2)
  from 2(6,7,8,4,1,9) show ?thesis
  proof (cases rule: ctor_body_cases [where cs = cs and port = port])
    case (1 err2 s3)
    have "outlived s3" using 1(2,3) 2(1-3) by (auto simp: outlived_def held_def members_made_def pw_fds_def)
    moreover have "destroy_members joins s3 = (Ret (), s')"
    proof -
      obtain y t where y: "destroy_members joins s3 = (y, t)" by force
      then have "y = Ret () \<or> y = Blocked" using join_pool_fst [of joins s3] destroy_members_fst [of joins s3] by auto
      with 2(13) 1(1) y show ?thesis by auto
    qed
    ultimately show ?thesis using destroy_outlived [OF assms(3,4)] by simp
  next
    case b: (2 s3)
    with 2(13) show ?thesis by simp
  qed
qed simp


section \<open>A complete run\<close>

text \<open>A server that is stopped in its first round; then the two workers leave.\<close>

lemma stop_env_does: "others_do ord router (stop # exit_env)" "others_do ord router exit_env"
proof -
  have w: "(other_step ord router)\<^sup>*\<^sup>* s (worker_turn i s)" for s i
  proof (cases "worker_begin i s")
    case (Pair r s')
    then have "s' = s" if "r \<noteq> Ret ()" using that by (auto simp: worker_begin_def split: res.splits)
    with Pair other_take [of i s s' ord router] show ?thesis by (cases "r = Ret ()") (auto simp: worker_turn_def)
  qed
  have "(other_step ord router)\<^sup>*\<^sup>* s (stop s)" for s
    using other_signal [of ord router s] by (simp add: signal_handler_def)
  with w show "others_do ord router (stop # exit_env)" "others_do ord router exit_env"
    by (simp_all add: others_do_def exit_env_def)
qed

lemma quiet_round:
  assumes "ready_script s = []" and "connections s = []"
  shows "\<exists>s'. loop_iteration a s = (Ret (), s') \<and> thread_pool s' = thread_pool s"
proof -
  have "\<exists>ep s1. epoll_wait EPOLL_TIMEOUT_MS (ev_epoll s) s = (Ret ([], ep), s1)"
    using assms(1) by (cases "raw_events_size s < length (ep_events (ev_epoll s))")
      (simp_all add: epoll_wait_def sys_epoll_wait_def EPOLL_TIMEOUT_MS_def copy_events_def Let_def)
  then obtain ep s1 where w: "epoll_wait EPOLL_TIMEOUT_MS (ev_epoll s) s = (Ret ([], ep), s1)" by blast
  from epoll_wait_frame [OF w] have "connections s1 = connections s" "thread_pool s1 = thread_pool s"
    by (simp_all add: server_more_eq)
  with w assms(2) show ?thesis by (simp add: loop_iteration_def reap_def)
qed

lemma stopped_run:
  "\<exists>s'. main_block id empty_request all_calls_ok (Inr 4) 6 2 web_fs (path_of ''/srv'') (\<lambda>_. stop # exit_env) [] boot_web = (Ret (), s')"
proof -
  let ?a = "web_app id empty_request"
  obtain s0 where s0: "s0 = ready_web\<lparr>loop_running := True\<rparr>" by blast
  have r: "ready_script s0 = []" "connections s0 = []" "loop_running s0" "thread_pool s0 = new_pool 0 2"
    by (simp_all add: s0 ready_web_eq)
  from quiet_round [OF r(1,2), of ?a] obtain s1 where
    s1: "loop_iteration ?a s0 = (Ret (), s1)" "thread_pool s1 = new_pool 0 2" using r(4) by auto
  have "workers (thread_pool (stop s1)) = [In_pop, In_pop]" "tq_queue (pool_queue (thread_pool (stop s1))) = []"
    "\<not> shutdown_called (thread_pool (stop s1))"
    using s1(2) by (simp_all add: stop_def new_pool_def worker_count_def new_queue_def numeral_2_eq_2)
  from join_exit_env [OF this] obtain p where
    p: "join_pool exit_env (stop s1) = (Ret (), (stop s1)\<lparr>thread_pool := p\<rparr>)" by blast
  obtain s2 where s2: "run ?a (stop # exit_env) ready_web = (Ret (), s2)"
  proof -
    have "run_loop ?a exit_env (stop s1) = (Ret (), clear_connections ((stop s1)\<lparr>thread_pool := p\<rparr>))"
      unfolding run_loop.simps [of _ _ "stop s1"] using p by (simp add: loop_finish_def) (simp add: stop_def)
    then have "run_loop ?a (stop # exit_env) s0 = (Ret (), clear_connections ((stop s1)\<lparr>thread_pool := p\<rparr>))"
      unfolding run_loop.simps [of _ _ s0] using r(3) s1(1) by simp
    then show ?thesis using that by (simp add: run_def s0)
  qed
  have ctor: "event_loop_ctor all_calls_ok (Inr 4) 6 2 DEFAULT_PORT N_WORKERS [] boot_web = (Ret (), ready_web)"
    using ready_web_eq(1) by (simp add: ready_web_def prod_eq_iff)
  have fr: "fresh_start (Inr 4) 6 boot_web" by (simp add: fresh_start_def boot_web_sel)
  have fa: "fresh_accepts (Inr 4) 6 boot_web" by (simp add: fresh_accepts_def boot_web_sel)
  have "round_ok ready_web" using started_ok [OF ctor fr fa] by simp
  from run_returns [OF this stop_env_does(1) health_router_ok s2] destroyed_after_run obtain s3 where
    "event_loop_dtor [] s2 = (Ret (), s3)" by blast
  with ctor s2 show ?thesis by (simp add: main_block_def web_router_built leave_block_def)
qed


section \<open>Exit status\<close>

text \<open>
  \<open>main\<close> with its logger: the status with which the program exits and the logger at that time,
  \<open>None\<close> when it does not end.
\<close>

definition main_fn ::
  "header_order \<Rightarrow> HttpRequest \<Rightarrow> socket_calls \<Rightarrow> errno + int \<Rightarrow> int \<Rightarrow> nat \<Rightarrow>
   web_server file_system \<Rightarrow> path \<Rightarrow> (web_server Router \<Rightarrow> (web_server \<Rightarrow> web_server) list) \<Rightarrow>
   (web_server \<Rightarrow> web_server) list \<Rightarrow> web_server \<Rightarrow> (nat \<times> log_config option) option \<times> web_server" where
  "main_fn ord mv cs created evfd hw fs cwd env joins s =
     (let logger = Some (log_init Info [] True);
          (r, s1) = main_block ord mv cs created evfd hw fs cwd env joins s
      in (map_option (\<lambda>status. (status, log_shutdown logger)) (exit_status r), s1))"

lemma main_fn_throws:
  "fst (main_block ord mv cs created evfd hw fs cwd env joins s) = Throw err \<Longrightarrow>
   fst (main_fn ord mv cs created evfd hw fs cwd env joins s) = Some (1, None)"
  by (cases "main_block ord mv cs created evfd hw fs cwd env joins s")
    (simp add: main_fn_def exit_status_def log_shutdown_def)



end
