(* ===== verification/Server_Tasks.thy ===== *)
theory Server_Tasks
  imports Server_Responses
begin

text \<open>
  Requests as tasks of the server: the pool inside the server is a run of the thread pool, so
  what is shown of the pool alone holds of the server; the order in which two workers answer
  requests of one connection is not the order of the requests; and nothing but a full queue makes
  the loop or a worker inside a task wait.
\<close>

section \<open>The pool of the server is a run of the pool\<close>

text \<open>For the pool alone what a task does to the world does not matter: it returns.\<close>

definition returning :: "Task \<Rightarrow> unit \<Rightarrow> unit res \<times> unit" where
  "returning t w = (Ret (), w)"

definition pool_runs :: "web_server \<Rightarrow> web_server \<Rightarrow> bool" where
  "pool_runs s s' \<longleftrightarrow> (pool_step returning)\<^sup>*\<^sup>* (thread_pool s, ()) (thread_pool s', ())"

lemma pool_runs_same: "thread_pool s' = thread_pool s \<Longrightarrow> pool_runs s s'"
  by (simp add: pool_runs_def)

lemma pool_runs_trans: "pool_runs s s1 \<Longrightarrow> pool_runs s1 s2 \<Longrightarrow> pool_runs s s2"
  by (simp add: pool_runs_def)

lemma pool_runs_step: "pool_step returning (thread_pool s, ()) (thread_pool s', ()) \<Longrightarrow> pool_runs s s'"
  by (simp add: pool_runs_def)

lemma pool_runs_read:
  assumes "read_callback ord mv p c s = (r, s')"
  shows "pool_runs s s'"
proof -
  obtain res ps where f: "feed (readable (read_buf c)) (parser_of s p) = (res, ps)" by force
  have tp: "thread_pool (set_parser q x s) = thread_pool s" for q x by (simp add: set_parser_def)
  note cb = read_callback_eq [OF f, of ord mv]
  show ?thesis
  proof (cases res)
    case Incomplete
    with cb assms show ?thesis by (intro pool_runs_same) (auto simp: tp)
  next
    case Complete
    let ?t = "Handle_request (p_request ps) p (wants_keep_alive (p_request ps))"
    obtain r1 s1 where s1: "submit_task ?t (set_parser p (reset ps) s) = (r1, s1)" by force
    have "s' = s1" using cb Complete assms s1 by (cases r1) simp_all
    moreover have "pool_runs s s1"
    proof (cases "submit ?t (thread_pool s)")
      case (Ret q)
      then have "thread_pool s1 = q" using s1 by (auto simp: submit_task_def tp)
      with pool_submit [OF Ret, of returning "()"] show ?thesis by (simp add: pool_runs_step)
    qed (use s1 pool_runs_same in \<open>auto simp: submit_task_def tp\<close>)
    ultimately show ?thesis by simp
  next
    case Error
    let ?d = "serialize ord (make_error BadRequest (p_error ps))"
    obtain r1 s1 where s1: "post_response (Some p) ?d (-1) 0 (set_parser p ps s) = (r1, s1)" by force
    then have "thread_pool s1 = thread_pool s"
      by (auto simp: post_response_def tp sys_eventfd_write_def split: res.splits)
    moreover have "s' = s1" using cb Error assms s1 by (cases r1) simp_all
    ultimately show ?thesis by (simp add: pool_runs_same)
  qed
qed

interpretation pool_guarantee: loop_guarantee pool_runs "web_app ord mv"
proof
  fix p cb c s r and s' :: web_server
  assume "read_cb (web_app ord mv) p = Some cb" "cb c s = (r, s')"
  then show "pool_runs s s'" using pool_runs_read by (auto simp: web_app_def)
qed (use pool_runs_trans pool_runs_same in \<open>auto simp: steady_def\<close>)

lemma thread_step_pool:
  assumes "thread_step ord mv router m m'" and "router_ok router" and "phases_ok m"
  shows "pool_runs (shared m) (shared m')"
  using assms(1)
proof cases
  case (t_wait evs ep s1)
  then show ?thesis using epoll_wait_shared [OF t_wait(3), of ep] by (simp add: pool_runs_same shared_same_def)
next
  case (t_event e s1)
  then show ?thesis using pool_guarantee.handle_event_R [OF t_event(3), of ord mv] by simp
next
  case t_reap
  then show ?thesis using reap_steady [of "shared m"] by (simp add: pool_runs_same steady_def)
next
  case (t_drain pw q s1)
  then show ?thesis
    using deliver_one_steady [of "(shared m)\<lparr>pending_writes := q\<rparr>" pw] by (simp add: pool_runs_same steady_def)
next
  case (t_take i s1)
  obtain p where p: "worker_take i (thread_pool (shared m)) = Ret p" "s1 = (shared m)\<lparr>thread_pool := p\<rparr>"
    using t_take(5) by (auto simp: worker_begin_def split: res.splits)
  have "i < length (workers (thread_pool (shared m)))" using t_take(2) assms(3) by (simp add: phases_ok_def)
  from pool_worker [OF step_take [OF this t_take(4) p(1), of returning "()"]] p(2) t_take(1)
  show ?thesis by (simp add: pool_runs_step)
next
  case (t_dispatch i t found resp s1)
  then show ?thesis
    using quiet_steady [of "shared m" s1] dispatch_opens [OF assms(2) t_dispatch(3)]
    by (simp add: handler_opens_def steady_def pool_runs_same)
next
  case (t_throw i t err s1)
  then show ?thesis
    using quiet_steady [of "shared m" s1] dispatch_opens [OF assms(2) t_throw(3)]
    by (simp add: handler_opens_def steady_def pool_runs_same)
next
  case (t_return i t)
  let ?p = "thread_pool (shared m)"
  have i: "i < length (workers ?p)" "workers ?p ! i = Running t" using t_return(2) by (simp_all add: in_phase_def)
  have "worker_run returning i t ?p () = (Ret (thread_pool (task_done i t (shared m))), ())"
    by (simp add: worker_run_def returning_def task_done_def)
  from pool_worker [OF step_run [OF i this]] t_return(1) show ?thesis by (simp add: pool_runs_step)
next
  case t_shutdown
  then show ?thesis using pool_shutdown [of returning "thread_pool (shared m)" "()"] by (simp add: pool_runs_step)
next
  case (t_outside s1)
  then show ?thesis using quiet_steady [of "shared m" s1] by (simp add: pool_runs_same steady_def)
qed (simp_all add: pool_runs_same sys_eventfd_read_def sys_eventfd_write_def signal_handler_def stop_def)

lemma machine_pool:
  assumes "reachable machine_start (thread_step ord mv router) m" and "router_ok router"
  shows "\<exists>n hw. reachable (pool_init n hw) (pool_step returning) (thread_pool (shared m), ())"
  using assms(1)
proof (induction rule: reachable.induct)
  case (reach_init m)
  then obtain n hw where "thread_pool (shared m) = new_pool n hw"
    using ctor_inv [where tc = task_conn] unfolding machine_start_def server_start_def members_made_def by blast
  then show ?case by (intro exI [of _ n] exI [of _ hw] reachable.reach_init) (simp add: pool_init_def)
next
  case (reach_step m m')
  then obtain n hw where r: "reachable (pool_init n hw) (pool_step returning) (thread_pool (shared m), ())" by blast
  have "phases_ok m" using machine_reachable_inv [OF reach_step(1) assms(2)] by (simp add: machine_inv_def)
  from thread_step_pool [OF reach_step(2) assms(2) this]
  have "(pool_step returning)\<^sup>*\<^sup>* (thread_pool (shared m), ()) (thread_pool (shared m'), ())" by (simp add: pool_runs_def)
  from reachable_steps [OF this r] show ?case by blast
qed

text \<open>
  C15 The server runs the requests: in every state the threads can reach the pool is in a state of
  the thread pool alone, so the requests the read callback has submitted are those the workers
  have started, then those queued, in the order of their submission; those started are the ones
  finished and the ones a worker is running; and a worker past the start of its loop body is
  running a task.
\<close>

theorem requests_run_once_in_order:
  assumes "reachable machine_start (thread_step ord mv router) m" and "router_ok router"
  shows "let p = thread_pool (shared m) in
    (\<exists>n hw. reachable (pool_init n hw) (pool_step returning) (p, ())) \<and>
    started p @ tq_queue (pool_queue p) = accepted p \<and> mset (finished p) + running (workers p) = mset (started p) \<and>
    (\<forall>i < length (phases m). phases m ! i \<noteq> Starting \<longrightarrow> (\<exists>t. workers p ! i = Running t))"
proof -
  obtain n hw where r: "reachable (pool_init n hw) (pool_step returning) (thread_pool (shared m), ())"
    using machine_pool [OF assms] by blast
  have "phases_ok m" using machine_reachable_inv [OF assms] by (simp add: machine_inv_def)
  with r pool.inv_reachable [OF r] show ?thesis by (auto simp: Let_def pool_inv_def phases_ok_def)
qed

theorem requests_run_once_in_order_witness:
  "\<exists>s :: web_server. tq_queue (pending_writes s) \<noteq> [] \<and> tq_queue (pool_queue (thread_pool s)) = [] \<and>
     started (thread_pool s) = accepted (thread_pool s)"
proof -
  have ok: "router_ok web_router" by (rule build_router_ok [OF web_fs_frame web_router_built])
  from file_answered obtain s pw where s: "reachable server_start (server_step id empty_request web_router) s"
    "tq_queue (pool_queue (thread_pool s)) = []" "tq_queue (pending_writes s) = [pw]" by blast
  from requests_run_once_in_order [OF reachable_at_rest [OF s(1) ok] ok] s(2,3) show ?thesis
    by (intro exI [of _ s]) (simp add: Let_def)
qed

section \<open>The order of the responses\<close>

text \<open>A worker at the start of its task answers it, while the others stay where they are.\<close>

lemma worker_answers:
  assumes "in_phase m i t Starting" and "dispatch router (task_request t) new_response (shared m) = (Ret (found, resp), s1)"
    and "router_ok router" and "\<not> tq_closed (pending_writes (shared m))"
    and "length (tq_queue (pending_writes (shared m))) < tq_capacity (pending_writes (shared m))"
  obtains m' where "(thread_step ord mv router)\<^sup>*\<^sup>* m m'"
    "tq_queue (pending_writes (shared m')) = tq_queue (pending_writes (shared m)) @ [task_write ord t found resp]"
    "tq_closed (pending_writes (shared m')) = tq_closed (pending_writes (shared m))"
    "tq_capacity (pending_writes (shared m')) = tq_capacity (pending_writes (shared m))"
    "thread_pool (shared m') = thread_pool (shared m)"
    "\<And>j u ph. j \<noteq> i \<Longrightarrow> in_phase m j u ph \<Longrightarrow> in_phase m' j u ph"
proof -
  let ?pw = "task_write ord t found resp"
  let ?m1 = "m\<lparr>shared := s1, phases := (phases m)[i := Posting ?pw]\<rparr>"
  have same: "thread_pool s1 = thread_pool (shared m)" "pending_writes s1 = pending_writes (shared m)"
    using quiet_steady [of "shared m" s1] dispatch_opens [OF assms(3,2)] by (simp_all add: handler_opens_def steady_def)
  obtain q where q: "push ?pw (pending_writes (shared m)) = Ret (True, q)"
    "tq_queue q = tq_queue (pending_writes (shared m)) @ [?pw]" "\<not> tq_closed q" "tq_capacity q = tq_capacity (pending_writes (shared m))"
    using assms(4,5) tq.put_bound [of ?pw "pending_writes (shared m)"]
    by (cases rule: tq.put_cases [of ?pw "pending_writes (shared m)"]) auto
  let ?m2 = "?m1\<lparr>shared := s1\<lparr>pending_writes := q\<rparr>, phases := ((phases m)[i := Posting ?pw])[i := Notifying]\<rparr>"
  have 1: "thread_step ord mv router m ?m1" by (rule t_dispatch [OF assms(1,2)])
  have "in_phase ?m1 i t (Posting ?pw)" using assms(1) same by (simp add: in_phase_def)
  from t_push [OF this, of True q ord mv router] q(1) same have 2: "thread_step ord mv router ?m1 ?m2" by simp
  have "(thread_step ord mv router)\<^sup>*\<^sup>* m ?m2" using 1 2 by (meson rtranclp.rtrancl_refl rtranclp.rtrancl_into_rtrancl)
  then show ?thesis
    by (rule that) (use q assms(4) same in \<open>auto simp: in_phase_def\<close>)
qed

text \<open>
  C16 Responses can come in the wrong order: when two workers have tasks whose handlers return, in
  particular tasks of one connection whose client sent a second request before the answer to the
  first, then whichever request came first, the other one's response can be queued before it.
  Nothing in the program keeps the order of the requests, and the loop delivers in the order of
  the queue.
\<close>

theorem responses_out_of_order:
  assumes "in_phase m i t1 Starting" and "in_phase m j t2 Starting" and "i \<noteq> j"
    and "\<forall>w. \<exists>w1. dispatch router (task_request t1) new_response w = (Ret (found1, resp1), w1)"
    and "\<forall>w. \<exists>w1. dispatch router (task_request t2) new_response w = (Ret (found2, resp2), w1)"
    and "router_ok router" and "\<not> tq_closed (pending_writes (shared m))"
    and "Suc (length (tq_queue (pending_writes (shared m)))) < tq_capacity (pending_writes (shared m))"
  shows "\<exists>m'. (thread_step ord mv router)\<^sup>*\<^sup>* m m' \<and>
    tq_queue (pending_writes (shared m')) =
      tq_queue (pending_writes (shared m)) @ [task_write ord t2 found2 resp2, task_write ord t1 found1 resp1] \<and>
    thread_pool (shared m') = thread_pool (shared m)"
proof -
  obtain w2 where d2: "dispatch router (task_request t2) new_response (shared m) = (Ret (found2, resp2), w2)"
    using assms(5) by blast
  obtain m1 where m1: "(thread_step ord mv router)\<^sup>*\<^sup>* m m1" "thread_pool (shared m1) = thread_pool (shared m)"
    "tq_queue (pending_writes (shared m1)) = tq_queue (pending_writes (shared m)) @ [task_write ord t2 found2 resp2]"
    "\<not> tq_closed (pending_writes (shared m1))" "tq_capacity (pending_writes (shared m1)) = tq_capacity (pending_writes (shared m))"
    "in_phase m1 i t1 Starting"
    by (rule worker_answers [OF assms(2) d2 assms(6,7), of ord mv]) (use assms(1,3,7,8) in auto)
  obtain w1 where d1: "dispatch router (task_request t1) new_response (shared m1) = (Ret (found1, resp1), w1)"
    using assms(4) by blast
  obtain m2 where "(thread_step ord mv router)\<^sup>*\<^sup>* m1 m2" "thread_pool (shared m2) = thread_pool (shared m1)"
    "tq_queue (pending_writes (shared m2)) = tq_queue (pending_writes (shared m1)) @ [task_write ord t1 found1 resp1]"
    by (rule worker_answers [OF m1(6) d1 assms(6) m1(4), of ord mv]) (use m1(3,5) assms(8) in auto)
  with m1(1-3) show ?thesis by (auto intro: rtranclp_trans)
qed

text \<open>
  A client that sends a request for a page that is not there and, before it is answered, one for
  \<open>/health\<close>; the second is answered first.
\<close>

definition health_request :: string where
  "health_request = ''GET /health HTTP/1.1'' @ CRLF @ CRLF"

lemma request_arrives:
  assumes "reachable server_start (server_step id empty_request health_router) s" and "serving s 7 0"
    and "parser_of s 0 = new_parser" and "xs \<noteq> []" and "length xs \<le> DEFAULT_CAPACITY" and "feed xs new_parser = (Complete, pr)"
    and "reset pr = new_parser" and "t = Handle_request (p_request pr) 0 (wants_keep_alive (p_request pr))"
    and "length (tq_queue (pool_queue (thread_pool s))) < tq_capacity (pool_queue (thread_pool s))"
  obtains s' q where "reachable server_start (server_step id empty_request health_router) s'" "serving s' 7 0"
    "parser_of s' 0 = new_parser" "tq_queue q = tq_queue (pool_queue (thread_pool s)) @ [t]"
    "thread_pool s' = (thread_pool s)\<lparr>pool_queue := q, accepted := accepted (thread_pool s) @ [t]\<rparr>"
    "pending_writes s' = pending_writes s"
proof -
  let ?R = "reachable server_start (server_step id empty_request health_router)"
  obtain a where a: "a = s\<lparr>rx := (rx s)(7 := [Rx_bytes xs]), accept_script := []\<rparr>" by blast
  have ra: "?R a" by (rule reach_step [OF assms(1)], rule srv_outside) (simp_all add: a quiet_def)
  have sv: "serving a 7 0" "parser_of a 0 = new_parser" "rx a 7 = [Rx_bytes xs]" "accepts_fresh a"
    using assms(2,3) by (simp_all add: a serving_def parser_of_def accepts_fresh_def)
  have same: "thread_pool a = thread_pool s" "pending_writes a = pending_writes s" by (simp_all add: a)
  have "(7, 0) \<in> set (connections a)" using sv(1) by (auto simp: serving_def dest: map_of_SomeD)
  then have "capacity (read_buf (heap a ! 0)) = DEFAULT_CAPACITY"
    using inv_entry(2) [OF server_reachable_inv [OF ra health_router_ok]] by (auto simp: bufs_ok_def)
  then have "length xs \<le> capacity (read_buf (heap a ! 0))" using assms(5) by simp
  from request_in [OF sv(1-3) assms(4) this assms(6) refl assms(8), of id empty_request] assms(9) same obtain b q c where
    b: "handle_event (web_app id empty_request) \<lparr>ev_events = EPOLLIN, ev_fd = 7\<rparr> a = (Ret (), b)"
      "tq_queue q = tq_queue (pool_queue (thread_pool s)) @ [t]" "\<not> tq_closed q"
      "thread_pool b = (thread_pool s)\<lparr>pool_queue := q, accepted := accepted (thread_pool s) @ [t]\<rparr>"
      "heap b = (heap a)[0 := (heap a ! 0)\<lparr>last_active := clock a, read_buf := c, keep_alive := wants_keep_alive (p_request pr)\<rparr>]"
      "buf_wf c" "readable c = []" "writable_bytes c = capacity c" "0 < capacity c" "parser_of b 0 = reset pr"
      "open_fds b = open_fds a" "connections b = connections a" "pending_writes b = pending_writes s"
      "listen_socket b = listen_socket a" "wakeup_fd b = wakeup_fd a" by auto
  have "?R b" by (rule reach_step [OF ra]) (rule srv_event [OF sv(4) b(1)])
  moreover have "serving b 7 0" using sv(1) b(3-9,11-15) same by (simp add: serving_def conn_fd_def)
  ultimately show ?thesis using that [of b q] b(2,4,10,13) assms(7) by simp
qed

lemma requests_parsed:
  "\<exists>pr. feed file_request new_parser = (Complete, pr) \<and> reset pr = new_parser \<and>
     req_method (p_request pr) = GET \<and> req_path (p_request pr) = ''/a.css''"
  "\<exists>pr. feed health_request new_parser = (Complete, pr) \<and> reset pr = new_parser \<and>
     req_method (p_request pr) = GET \<and> req_path (p_request pr) = ''/health''"
proof -
  have "fst (feed file_request new_parser) = Complete" "reset (snd (feed file_request new_parser)) = new_parser"
    "req_method (p_request (snd (feed file_request new_parser))) = GET"
    "req_path (p_request (snd (feed file_request new_parser))) = ''/a.css''" by code_simp+
  then show "\<exists>pr. feed file_request new_parser = (Complete, pr) \<and> reset pr = new_parser \<and>
     req_method (p_request pr) = GET \<and> req_path (p_request pr) = ''/a.css''"
    by (intro exI [of _ "snd (feed file_request new_parser)"]) (simp add: prod_eq_iff)
  have "fst (feed health_request new_parser) = Complete" "reset (snd (feed health_request new_parser)) = new_parser"
    "req_method (p_request (snd (feed health_request new_parser))) = GET"
    "req_path (p_request (snd (feed health_request new_parser))) = ''/health''" by code_simp+
  then show "\<exists>pr. feed health_request new_parser = (Complete, pr) \<and> reset pr = new_parser \<and>
     req_method (p_request pr) = GET \<and> req_path (p_request pr) = ''/health''"
    by (intro exI [of _ "snd (feed health_request new_parser)"]) (simp add: prod_eq_iff)
qed

lemma two_requests_running:
  "\<exists>m t1 t2. reachable machine_start (thread_step id empty_request health_router) m \<and>
     in_phase m 0 t1 Starting \<and> in_phase m 1 t2 Starting \<and> accepted (thread_pool (shared m)) = [t1, t2] \<and>
     pending_writes (shared m) = new_queue TQ_DEFAULT_CAPACITY \<and> tq_queue (pool_queue (thread_pool (shared m))) = [] \<and>
     zip (phases m) (workers (thread_pool (shared m))) = [(Starting, Running t1), (Starting, Running t2)] \<and>
     task_conn t1 = 0 \<and> task_conn t2 = 0 \<and> req_path (task_request t1) = ''/a.css'' \<and>
     req_method (task_request t2) = GET \<and> req_path (task_request t2) = ''/health''"
proof -
  let ?R = "reachable server_start (server_step id empty_request health_router)"
  obtain pr1 where f1: "feed file_request new_parser = (Complete, pr1)" "reset pr1 = new_parser"
    "req_method (p_request pr1) = GET" "req_path (p_request pr1) = ''/a.css''" using requests_parsed(1) by blast
  obtain pr2 where f2: "feed health_request new_parser = (Complete, pr2)" "reset pr2 = new_parser"
    "req_method (p_request pr2) = GET" "req_path (p_request pr2) = ''/health''" using requests_parsed(2) by blast
  let ?t1 = "Handle_request (p_request pr1) 0 (wants_keep_alive (p_request pr1))"
  let ?t2 = "Handle_request (p_request pr2) 0 (wants_keep_alive (p_request pr2))"
  have p0: "server.more one_client 0 = new_parser" using one_client_eq(13) by (simp add: parser_of_def)
  have r0: "?R one_client" by (rule one_client_reachable)
  have sv0: "serving one_client 7 0" "parser_of one_client 0 = new_parser"
    by (simp_all add: serving_def one_client_eq new_pool_def new_queue_def DEFAULT_CAPACITY_def)
  have tp0: "thread_pool one_client = new_pool 0 2" "pending_writes one_client = new_queue TQ_DEFAULT_CAPACITY"
    by (simp_all add: one_client_eq)
  have len: "file_request \<noteq> []" "length file_request \<le> DEFAULT_CAPACITY" "health_request \<noteq> []" "length health_request \<le> DEFAULT_CAPACITY"
    by (simp_all add: file_request_def health_request_def DEFAULT_CAPACITY_def)
  have "length (tq_queue (pool_queue (thread_pool one_client))) < tq_capacity (pool_queue (thread_pool one_client))"
    by (simp add: tp0 new_pool_def new_queue_def TQ_DEFAULT_CAPACITY_def)
  from request_arrives [OF r0 sv0 len(1,2) f1(1,2) refl this] obtain s1 q1 where
    s1: "?R s1" "serving s1 7 0" "parser_of s1 0 = new_parser" "tq_queue q1 = [?t1]" 
      "thread_pool s1 = (new_pool 0 2)\<lparr>pool_queue := q1, accepted := [?t1]\<rparr>" "pending_writes s1 = new_queue TQ_DEFAULT_CAPACITY"
    by (auto simp: tp0 new_pool_def new_queue_def)
  have "queue_fits (pool_queue (thread_pool s1))"
    using machine_reachable_inv [OF reachable_at_rest [OF s1(1) health_router_ok] health_router_ok]
    by (simp add: machine_inv_def sized_def)
  then have "length (tq_queue (pool_queue (thread_pool s1))) < tq_capacity (pool_queue (thread_pool s1))"
    by (simp add: queue_fits_def s1(4,5) TQ_DEFAULT_CAPACITY_def)
  from request_arrives [OF s1(1-3) len(3,4) f2(1,2) refl this] obtain s2 q2 where
    a2: "?R s2" "tq_queue q2 = tq_queue (pool_queue (thread_pool s1)) @ [?t2]" "pending_writes s2 = pending_writes s1"
      "thread_pool s2 = (thread_pool s1)\<lparr>pool_queue := q2, accepted := accepted (thread_pool s1) @ [?t2]\<rparr>" by blast
  have s2: "?R s2" "tq_queue q2 = [?t1, ?t2]" "thread_pool s2 = (new_pool 0 2)\<lparr>pool_queue := q2, accepted := [?t1, ?t2]\<rparr>"
      "pending_writes s2 = new_queue TQ_DEFAULT_CAPACITY"
    using a2 by (simp_all add: s1(4-6))
  let ?p3 = "(new_pool 0 2)\<lparr>pool_queue := q2\<lparr>tq_queue := [?t2]\<rparr>, workers := [Running ?t1, In_pop], accepted := [?t1, ?t2], started := [?t1]\<rparr>"
  let ?p4 = "?p3\<lparr>pool_queue := q2\<lparr>tq_queue := []\<rparr>, workers := [Running ?t1, Running ?t2], started := [?t1, ?t2]\<rparr>"
  have w: "workers (new_pool 0 2 :: Task ThreadPool) = [In_pop, In_pop]" "started (new_pool 0 2 :: Task ThreadPool) = []"
    by (simp_all add: new_pool_def worker_count_def numeral_2_eq_2)
  have "worker_begin 0 s2 = (Ret (), s2\<lparr>thread_pool := ?p3\<rparr>)"
    using s2(2,3) w by (simp add: worker_begin_def worker_take_def pop_def)
  then have r3: "?R (s2\<lparr>thread_pool := ?p3\<rparr>)" by (rule reach_step [OF s2(1) srv_take, rotated 2]) (simp_all add: s2(3) w)
  let ?m = "at_rest (s2\<lparr>thread_pool := ?p4\<rparr>)"
  have "worker_begin 1 (s2\<lparr>thread_pool := ?p3\<rparr>) = (Ret (), s2\<lparr>thread_pool := ?p4\<rparr>)"
    by (simp add: worker_begin_def worker_take_def pop_def)
  then have "?R (s2\<lparr>thread_pool := ?p4\<rparr>)" by (rule reach_step [OF r3 srv_take, rotated 2]) simp_all
  then have "reachable machine_start (thread_step id empty_request health_router) ?m"
    by (rule reachable_at_rest [OF _ health_router_ok])
  moreover have "in_phase ?m 0 ?t1 Starting" "in_phase ?m 1 ?t2 Starting" by (simp_all add: at_rest_def in_phase_def)
  moreover have "pending_writes (shared ?m) = new_queue TQ_DEFAULT_CAPACITY" "accepted (thread_pool (shared ?m)) = [?t1, ?t2]"
    by (simp_all add: s2(4))
  moreover have "zip (phases ?m) (workers (thread_pool (shared ?m))) = [(Starting, Running ?t1), (Starting, Running ?t2)]"
    "tq_queue (pool_queue (thread_pool (shared ?m))) = []" by (simp_all add: at_rest_def)
  ultimately show ?thesis using f1(3,4) f2(3,4)
    by (intro exI [of _ ?m] exI [of _ ?t1] exI [of _ ?t2]) simp
qed

theorem responses_out_of_order_witness:
  "\<exists>m t1 t2 pw1 pw2. reachable machine_start (thread_step id empty_request health_router) m \<and>
     accepted (thread_pool (shared m)) = [t1, t2] \<and> task_conn t1 = 0 \<and> task_conn t2 = 0 \<and>
     req_path (task_request t1) = ''/a.css'' \<and> req_path (task_request t2) = ''/health'' \<and>
     pw1 = task_write id t1 False new_response \<and> (\<exists>resp. pw2 = task_write id t2 True resp) \<and>
     tq_queue (pending_writes (shared m)) = [pw2, pw1]"
proof -
  obtain m t1 t2 where m: "reachable machine_start (thread_step id empty_request health_router) m"
    "in_phase m 0 t1 Starting" "in_phase m 1 t2 Starting" "accepted (thread_pool (shared m)) = [t1, t2]"
    "pending_writes (shared m) = new_queue TQ_DEFAULT_CAPACITY" "task_conn t1 = 0" "task_conn t2 = 0"
    "req_path (task_request t1) = ''/a.css''" "req_method (task_request t2) = GET" "req_path (task_request t2) = ''/health''"
    using two_requests_running by blast
  have d1: "\<forall>w. \<exists>w1. dispatch health_router (task_request t1) new_response w = (Ret (False, new_response), w1)"
    using m(8) by (simp add: dispatch_def health_router_def add_route_def exact_match_def prefix_match_def)
  obtain resp where d2: "\<forall>w. \<exists>w1. dispatch health_router (task_request t2) new_response w = (Ret (True, resp), w1)"
    using m(9,10) by (auto simp: dispatch_def health_router_def add_route_def exact_match_def health_handler_def)
  have "\<not> tq_closed (pending_writes (shared m))"
    "Suc (length (tq_queue (pending_writes (shared m)))) < tq_capacity (pending_writes (shared m))"
    by (simp_all add: m(5) new_queue_def TQ_DEFAULT_CAPACITY_def)
  from responses_out_of_order [OF m(2,3) _ d1 d2 health_router_ok this, of id empty_request] obtain m' where
    m': "(thread_step id empty_request health_router)\<^sup>*\<^sup>* m m'"
      "tq_queue (pending_writes (shared m')) = [task_write id t2 True resp, task_write id t1 False new_response]"
      "accepted (thread_pool (shared m')) = [t1, t2]"
    by (auto simp: m(4,5) new_queue_def)
  from reachable_steps [OF m'(1) m(1)] m'(2,3) m(6-8,10) show ?thesis
    by (intro exI [of _ m'] exI [of _ t1] exI [of _ t2] exI [of _ "task_write id t1 False new_response"]
        exI [of _ "task_write id t2 True resp"]) auto
qed

section \<open>What threads wait for\<close>

definition jammed :: "web_server \<Rightarrow> bool" where
  "jammed s \<longleftrightarrow> full_queue (pending_writes s) \<or> full_queue (pool_queue (thread_pool s))"

lemma push_Blocked: "push x q = Blocked \<longleftrightarrow> full_queue q"
  by (auto simp: push_def full_queue_def)

lemma read_callback_waits:
  assumes "read_callback ord mv p c s = (Blocked, s')"
  shows "jammed s'"
proof -
  obtain res ps where f: "feed (readable (read_buf c)) (parser_of s p) = (res, ps)" by force
  have b: "m = (Blocked, s')" if "(Blocked, s') = bind_st m (\<lambda>_ s2. (Ret c2, s2))" for m :: "unit res \<times> web_server" and c2
  proof -
    obtain x s1 where "m = (x, s1)" by force
    with that show ?thesis by (cases x) auto
  qed
  have "jammed s'" if "submit_task t (set_parser p x s) = (Blocked, s')" for t x
    using that by (auto simp: jammed_def submit_task_def submit_def push_Blocked split: res.splits)
  moreover have "jammed s'" if "post_response d1 d2 d3 d4 (set_parser p x s) = (Blocked, s')" for d1 d2 d3 d4 x
    using that by (auto simp: jammed_def post_response_def push_Blocked split: res.splits)
  moreover note read_callback_eq [OF f, of ord mv]
  ultimately show ?thesis using assms by (cases res) (auto dest!: b)
qed

text \<open>Reading waits when the callback waits.\<close>

lemma read_loop_waits:
  assumes "\<And>c k k'. cb c k = (Blocked, k') \<Longrightarrow> P k'" and "read_loop (Some cb) (Some close_cb) script c k = (Blocked, k')"
  shows "P k'"
  using assms(2)
proof (induction "rx_size script" arbitrary: script c k rule: less_induct)
  case less
  obtain full c1 where m: "make_read_room c = (full, c1)" by force
  obtain x script1 where x: "(if conn_fd c1 \<in> open_fds k then sys_recv (writable_bytes (read_buf c1)) script
      else (Inl EBADF, [])) = (x, script1)" by force
  note step = less.prems [unfolded read_loop.simps [of _ _ script c k] m prod.case x]
  have close: "close_return False (Some close_cb) c1 k \<noteq> (Blocked, k')" using close_return_Ret [of False c1 k] by auto
  show ?case
  proof (cases x)
    case (Inl e)
    have "rx_size script1 < rx_size script" if "e = EINTR"
      using x Inl that by (auto split: if_splits intro: sys_recv_progress(2) [OF sym])
    with less.hyps [of script1 c1 k] step Inl close show ?thesis by (auto split: if_splits)
  next
    case (Inr xs)
    have lt: "rx_size script1 < rx_size script" if "xs \<noteq> []"
      using x Inr that by (auto split: if_splits intro: sys_recv_progress(1) [OF sym])
    show ?thesis
    proof (cases "append_bytes xs (read_buf c1)")
      case (Ret b)
      obtain r2 k2 where c: "cb (c1\<lparr>read_buf := b\<rparr>) k = (r2, k2)" by force
      with step Inr close Ret less.hyps [OF lt] assms(1) [of "c1\<lparr>read_buf := b\<rparr>" k k2] show ?thesis
        by (cases r2) (auto split: if_splits)
    next
      case Blocked
      then show ?thesis by (simp add: append_bytes_def copy_in_def commit_write_def split: if_splits res.splits)
    qed (use step Inr close in \<open>auto split: if_splits\<close>)
  qed
qed

lemma event_waits:
  assumes "loop_inv task_conn E s" and "accepts_fresh s" and "\<forall>g \<in># E. 0 \<le> g"
    and "handle_event (web_app ord mv) e s = (Blocked, s')"
  shows "jammed s'"
proof -
  have nl: "ev_fd e \<noteq> sock_fd (listen_socket s)"
  proof
    assume "ev_fd e = sock_fd (listen_socket s)"
    with assms(4) have "accept_new_connections (web_app ord mv) s = (Blocked, s')" by (simp add: handle_event_def)
    from accept_inv [OF assms(1,2) this] show False by simp
  qed
  have i: "loop_inv task_conn E (sys_eventfd_read s)"
    using assms(1) inv_cong [of "sys_eventfd_read s" s] by (simp add: sys_eventfd_read_def)
  have nw: "ev_fd e \<noteq> wakeup_fd s"
    using drain_loop_inv [OF i] assms(4) nl by (auto simp: handle_event_def drain_pending_writes_def)
  with nl assms(4) obtain p where p: "map_of (connections s) (ev_fd e) = Some p" "conn_event (web_app ord mv) e p s = (Blocked, s')"
    by (auto simp: handle_event_def split: option.splits)
  from p(1) have m: "(ev_fd e, p) \<in> set (connections s)" by (rule map_of_SomeD)
  show ?thesis
  proof (cases "Epoll.is_closed e")
    case True
    with p(2) close_return_Ret [of "()" "heap s ! p" s] show ?thesis by (auto simp: conn_event_def call_conn_def)
  next
    case False
    obtain r1 s1 where c: "(if is_readable e then call_conn (on_readable (Some (read_callback ord mv p)) (Some close_cb)) p s
        else (Ret True, s)) = (r1, s1)" by force
    have "r1 \<noteq> Blocked \<Longrightarrow> \<exists>go. r1 = Ret go \<and> loop_inv task_conn E s1 \<and> (ev_fd e, p) \<in> set (connections s1)"
    proof (cases "is_readable e")
      case True
      with c have "call_conn (on_readable (Some (read_callback ord mv p)) (Some close_cb)) p s = (r1, s1)" by simp
      from web_loop.readable_inv [OF assms(1) m this] m
      show "r1 \<noteq> Blocked \<Longrightarrow> \<exists>go. r1 = Ret go \<and> loop_inv task_conn E s1 \<and> (ev_fd e, p) \<in> set (connections s1)"
        by (auto simp: loop_frame_def)
    qed (use c assms(1) m in auto)
    with p(2) False c writable_inv [of task_conn E s1 "ev_fd e" p e Blocked s' "EPOLLIN OR EPOLLET OR EPOLLRDHUP"] assms(3)
    have "r1 = Blocked \<and> s1 = s'"
      by (cases r1) (auto simp: conn_event_def web_app_def split: if_splits)
    with c have "on_readable (Some (read_callback ord mv p)) (Some close_cb) (heap s ! p) s = (Blocked, s')"
      by (cases "on_readable (Some (read_callback ord mv p)) (Some close_cb) (heap s ! p) s")
        (auto simp: call_conn_def bind_st_def split: if_splits res.splits prod.splits)
    then show ?thesis
      unfolding on_readable_def Let_def by (rule read_loop_waits [where P = jammed, rotated]) (rule read_callback_waits)
  qed
qed

text \<open>
  The steps in which the server serves what it has been given: a worker takes a task and goes
  through it, the loop wakes up for responses and delivers them, each to its connection. The other
  steps of a thread bring something new.
\<close>

definition deliver_step :: "PendingWrite \<Rightarrow> machine \<Rightarrow> machine \<Rightarrow> bool" where
  "deliver_step pw m m' \<longleftrightarrow> draining m \<and> (\<exists>q s1. try_pop (pending_writes (shared m)) = (Some pw, q) \<and>
     deliver_one pw ((shared m)\<lparr>pending_writes := q\<rparr>) = (Ret (), s1) \<and> m' = m\<lparr>shared := s1\<rparr>)"

inductive work_step ::
  "header_order \<Rightarrow> web_server Router \<Rightarrow> machine \<Rightarrow> machine \<Rightarrow> bool"
  for ord :: header_order and router :: "web_server Router" where
  s_wake: "\<not> draining m \<Longrightarrow> 0 < eventfd_count (shared m) \<Longrightarrow>
    work_step ord router m (m\<lparr>shared := sys_eventfd_read (shared m), draining := True\<rparr>)"
| s_drained: "draining m \<Longrightarrow> try_pop (pending_writes (shared m)) = (None, q) \<Longrightarrow>
    work_step ord router m (m\<lparr>draining := False\<rparr>)"
| s_take: "i < length (phases m) \<Longrightarrow> phases m ! i = Starting \<Longrightarrow>
    workers (thread_pool (shared m)) ! i = In_pop \<Longrightarrow> worker_begin i (shared m) = (Ret (), s1) \<Longrightarrow>
    work_step ord router m (m\<lparr>shared := s1\<rparr>)"
| s_dispatch: "in_phase m i t Starting \<Longrightarrow>
    dispatch router (task_request t) new_response (shared m) = (Ret (found, resp), s1) \<Longrightarrow>
    work_step ord router m (m\<lparr>shared := s1, phases := (phases m)[i := Posting (task_write ord t found resp)]\<rparr>)"
| s_throw: "in_phase m i t Starting \<Longrightarrow>
    dispatch router (task_request t) new_response (shared m) = (Throw err, s1) \<Longrightarrow>
    work_step ord router m (m\<lparr>shared := s1, phases := (phases m)[i := Returned]\<rparr>)"
| s_push: "in_phase m i t (Posting pw) \<Longrightarrow> push pw (pending_writes (shared m)) = Ret (ok, q) \<Longrightarrow>
    work_step ord router m (m\<lparr>shared := (shared m)\<lparr>pending_writes := q\<rparr>, phases := (phases m)[i := Notifying]\<rparr>)"
| s_notify: "in_phase m i t Notifying \<Longrightarrow>
    work_step ord router m (m\<lparr>shared := sys_eventfd_write (shared m), phases := (phases m)[i := Returned]\<rparr>)"
| s_return: "in_phase m i t Returned \<Longrightarrow>
    work_step ord router m (m\<lparr>shared := task_done i t (shared m), phases := (phases m)[i := Starting]\<rparr>)"

definition serve_step :: "header_order \<Rightarrow> web_server Router \<Rightarrow> machine \<Rightarrow> machine \<Rightarrow> bool" where
  "serve_step ord router m m' \<longleftrightarrow> work_step ord router m m' \<or> (\<exists>pw. deliver_step pw m m')"

lemma work_thread: "work_step ord router m m' \<Longrightarrow> thread_step ord mv router m m'"
  by (induction rule: work_step.induct) (rule thread_step.intros; assumption)+

lemma deliver_thread: "deliver_step pw m m' \<Longrightarrow> thread_step ord mv router m m'"
  by (auto simp: deliver_step_def intro: t_drain)

lemma serve_thread: "serve_step ord router m m' \<Longrightarrow> thread_step ord mv router m m'"
  using work_thread deliver_thread by (auto simp: serve_step_def)

lemma worker_goes_on:
  assumes "in_phase m i t ph" and "\<not> full_queue (pending_writes (shared m))"
    and "\<forall>s1. dispatch router (task_request t) new_response (shared m) \<noteq> (Blocked, s1)"
  shows "\<exists>m'. work_step ord router m m' \<and> phases m' ! i \<noteq> ph"
proof -
  have i: "i < length (phases m)" using assms(1) by (simp add: in_phase_def)
  show ?thesis
  proof (cases ph)
    case Starting
    obtain r s1 where d: "dispatch router (task_request t) new_response (shared m) = (r, s1)" by force
    show ?thesis
    proof (cases r)
      case (Ret x)
      obtain found resp where "x = (found, resp)" by force
      with s_dispatch [OF assms(1) [unfolded Starting], of router found resp s1 ord] d Ret i Starting show ?thesis by force
    next
      case (Throw err)
      with s_throw [OF assms(1) [unfolded Starting], of router err s1 ord] d i Starting show ?thesis by force
    qed (use d assms(3) in simp)
  next
    case (Posting pw)
    from assms(2) push_Blocked [of pw "pending_writes (shared m)"] obtain ok q where "push pw (pending_writes (shared m)) = Ret (ok, q)"
      by (cases rule: tq.put_cases [of pw "pending_writes (shared m)"]) auto
    from s_push [OF assms(1) [unfolded Posting] this, of ord router] i Posting show ?thesis by force
  next
    case Notifying
    from s_notify [OF assms(1) [unfolded Notifying], of ord router] i Notifying show ?thesis by force
  next
    case Returned
    from s_return [OF assms(1) [unfolded Returned], of ord router] i Returned show ?thesis by force
  qed
qed

text \<open>
  C17 Threads wait for full queues only: in every state the threads can reach, when the handling of
  an event waits then the queue of pending writes or that of the tasks is full at that moment, and
  a worker inside a task whose handler does not wait can go on to its next phase unless the queue
  of pending writes is full. So as long as the queues are not full the server cannot deadlock.
\<close>

theorem waits_only_for_full_queues:
  assumes "reachable machine_start (thread_step ord mv router) m" and "router_ok router"
  shows "(accepts_fresh (shared m) \<and> handle_event (web_app ord mv) e (shared m) = (Blocked, s') \<longrightarrow>
      full_queue (pending_writes s') \<or> full_queue (pool_queue (thread_pool s'))) \<and>
    (in_phase m i t ph \<and> (\<forall>s1. dispatch router (task_request t) new_response (shared m) \<noteq> (Blocked, s1)) \<longrightarrow>
      full_queue (pending_writes (shared m)) \<or> (\<exists>m'. thread_step ord mv router m m' \<and> phases m' ! i \<noteq> ph))"
proof -
  have inv: "loop_inv task_conn (hand_fds m) (shared m)"
    using machine_reachable_inv [OF assms] by (simp add: machine_inv_def)
  have "full_queue (pending_writes s') \<or> full_queue (pool_queue (thread_pool s'))"
    if "accepts_fresh (shared m)" "handle_event (web_app ord mv) e (shared m) = (Blocked, s')"
    using event_waits [OF inv that(1) hand_fds_nonneg that(2)] by (simp add: jammed_def)
  with worker_goes_on [of m i t ph] work_thread show ?thesis by blast
qed

theorem waits_only_for_full_queues_witness:
  "\<exists>m m'. thread_step id empty_request health_router m m' \<and> phases m ! 1 = Starting \<and> phases m' ! 1 \<noteq> Starting"
proof -
  obtain m t1 t2 where m: "reachable machine_start (thread_step id empty_request health_router) m"
    "in_phase m 1 t2 Starting" "pending_writes (shared m) = new_queue TQ_DEFAULT_CAPACITY"
    "req_method (task_request t2) = GET" "req_path (task_request t2) = ''/health''"
    using two_requests_running by blast
  have "\<not> full_queue (pending_writes (shared m))" by (simp add: m(3) full_queue_def new_queue_def TQ_DEFAULT_CAPACITY_def)
  moreover have "\<forall>s1. dispatch health_router (task_request t2) new_response (shared m) \<noteq> (Blocked, s1)"
    using m(4,5) by (simp add: dispatch_def health_router_def add_route_def exact_match_def health_handler_def)
  ultimately obtain m' where "thread_step id empty_request health_router m m'" "phases m' ! 1 \<noteq> Starting"
    using waits_only_for_full_queues [OF m(1) health_router_ok, of _ _ 1 t2 Starting] m(2) by blast
  moreover have "phases m ! 1 = Starting" using m(2) by (simp add: in_phase_def)
  ultimately show ?thesis by blast
qed

end
