(* ===== verification/Server_Progress.thy ===== *)
theory Server_Progress
  imports Server_Tasks
begin

text \<open>
  The server serves all it has been given: its own steps, those of the workers and the delivery of
  responses by the loop, cannot go on for ever without new input, where they end nothing is left
  to do, and on the way each request whose handler returned has had one response delivered to its
  connection, and no request more than one.
\<close>

section \<open>The weight of the work\<close>

text \<open>The workers, each with its place in its task.\<close>

definition threads_of :: "machine \<Rightarrow> (phase \<times> Task worker) list" where
  "threads_of m = zip (phases m) (workers (thread_pool (shared m)))"

text \<open>Each step of a task weighs more than what it leaves to be done.\<close>

fun phase_weight :: "phase \<Rightarrow> nat" where
  "phase_weight Starting = 8"
| "phase_weight (Posting pw) = 7"
| "phase_weight Notifying = 5"
| "phase_weight Returned = 2"

fun thread_weight :: "phase \<times> Task worker \<Rightarrow> nat" where
  "thread_weight (ph, In_pop) = 1"
| "thread_weight (ph, Running t) = phase_weight ph"
| "thread_weight (ph, Exited) = 0"

definition loop_weight :: "machine \<Rightarrow> nat" where
  "loop_weight m = length (tq_queue (pending_writes (shared m))) +
     (if 0 < eventfd_count (shared m) then 2 else 0) + (if draining m then 1 else 0)"

definition machine_weight :: "machine \<Rightarrow> nat" where
  "machine_weight m = 8 * length (tq_queue (pool_queue (thread_pool (shared m)))) + loop_weight m +
     sum_list (map thread_weight (threads_of m))"

text \<open>A worker that goes to another phase of its task, and one that takes or has done a task.\<close>

lemma threads_of_phase:
  assumes "in_phase m i t ph" and "thread_pool s1 = thread_pool (shared m)"
  shows "threads_of (m\<lparr>shared := s1, phases := (phases m)[i := ph1]\<rparr>) = (threads_of m)[i := (ph1, Running t)]"
    and "phases_ok m \<Longrightarrow> i < length (threads_of m) \<and> threads_of m ! i = (ph, Running t)"
proof -
  have "(workers (thread_pool (shared m)))[i := Running t] = workers (thread_pool (shared m))"
    using assms(1) by (metis in_phase_def list_update_id)
  then show "threads_of (m\<lparr>shared := s1, phases := (phases m)[i := ph1]\<rparr>) = (threads_of m)[i := (ph1, Running t)]"
    using update_zip [of "phases m" "workers (thread_pool (shared m))" i "(ph1, Running t)"] assms(2) by (simp add: threads_of_def)
qed (use assms in \<open>simp add: threads_of_def in_phase_def phases_ok_def\<close>)

lemma threads_of_take:
  assumes "phases_ok m" and "i < length (phases m)" and "phases m ! i = Starting"
    and "workers (thread_pool s1) = (workers (thread_pool (shared m)))[i := w]"
  shows "threads_of (m\<lparr>shared := s1\<rparr>) = (threads_of m)[i := (Starting, w)]"
    and "i < length (threads_of m) \<and> threads_of m ! i = (Starting, workers (thread_pool (shared m)) ! i)"
proof -
  have "(phases m)[i := Starting] = phases m" using assms(3) by (metis list_update_id)
  then show "threads_of (m\<lparr>shared := s1\<rparr>) = (threads_of m)[i := (Starting, w)]"
    using update_zip [of "phases m" "workers (thread_pool (shared m))" i "(Starting, w)"] assms(4) by (simp add: threads_of_def)
qed (use assms in \<open>simp add: threads_of_def phases_ok_def\<close>)

lemma threads_of_return:
  assumes "phases_ok m" and "in_phase m i t ph"
  shows "threads_of (m\<lparr>shared := task_done i t (shared m), phases := (phases m)[i := Starting]\<rparr>) =
      (threads_of m)[i := (Starting, In_pop)]"
  using update_zip [of "phases m" "workers (thread_pool (shared m))" i "(Starting, In_pop)"]
  by (simp add: threads_of_def task_done_def)

lemma threads_of_shared:
  "workers (thread_pool s1) = workers (thread_pool (shared m)) \<Longrightarrow> threads_of (m\<lparr>shared := s1\<rparr>) = threads_of m"
  "threads_of (m\<lparr>draining := d\<rparr>) = threads_of m"
  by (simp_all add: threads_of_def)

lemma worker_phase_weight:
  assumes "phases_ok m" and "in_phase m i t ph" and "thread_pool s1 = thread_pool (shared m)"
    and "loop_weight (m\<lparr>shared := s1\<rparr>) + phase_weight ph1 < loop_weight m + phase_weight ph"
  shows "machine_weight (m\<lparr>shared := s1, phases := (phases m)[i := ph1]\<rparr>) < machine_weight m"
  using weight_update [of i "threads_of m" thread_weight "(ph1, Running t)"] threads_of_phase(2) [OF assms(2,3,1)]
    threads_of_phase(1) [OF assms(2,3), of ph1] assms(3,4)
  by (simp add: machine_weight_def loop_weight_def)

text \<open>Delivering takes the response from the queue and leaves the rest of what the threads share.\<close>

lemma deliver_step_eq:
  assumes "deliver_step pw m m'"
  obtains s1 where "draining m" "m' = m\<lparr>shared := s1\<rparr>" "thread_pool s1 = thread_pool (shared m)"
    "eventfd_count s1 = eventfd_count (shared m)"
    "tq_queue (pending_writes (shared m)) = pw # tq_queue (pending_writes s1)"
proof -
  from assms obtain q s1 where d: "draining m" "try_pop (pending_writes (shared m)) = (Some pw, q)"
    "deliver_one pw ((shared m)\<lparr>pending_writes := q\<rparr>) = (Ret (), s1)" "m' = m\<lparr>shared := s1\<rparr>"
    unfolding deliver_step_def by blast
  have "steady ((shared m)\<lparr>pending_writes := q\<rparr>) s1"
    using deliver_one_steady [of "(shared m)\<lparr>pending_writes := q\<rparr>" pw] d(3) by simp
  then have "thread_pool s1 = thread_pool (shared m)" "eventfd_count s1 = eventfd_count (shared m)" "pending_writes s1 = q"
    by (simp_all add: steady_def)
  moreover have "tq_queue (pending_writes (shared m)) = pw # tq_queue q"
    using d(2) by (auto simp: try_pop_def split: list.splits)
  ultimately show ?thesis using that [OF d(1,4)] by simp
qed

lemma work_step_weight:
  assumes "work_step ord router m m'" and "phases_ok m" and "router_ok router"
  shows "machine_weight m' < machine_weight m"
  using assms(1)
proof cases
  case s_wake
  then show ?thesis by (simp add: machine_weight_def loop_weight_def threads_of_def sys_eventfd_read_def)
next
  case s_drained
  then show ?thesis by (simp add: machine_weight_def loop_weight_def threads_of_def)
next
  case (s_take i s1)
  obtain p where p: "worker_take i (thread_pool (shared m)) = Ret p" "s1 = (shared m)\<lparr>thread_pool := p\<rparr>"
    using s_take(5) by (auto simp: worker_begin_def split: res.splits)
  note th = threads_of_take [OF assms(2) s_take(2,3), of s1, unfolded s_take(4)]
  note w = weight_update [of i "threads_of m" thread_weight]
  from p(1) show ?thesis
  proof (cases rule: worker_take_cases)
    case (1 t q)
    with w [of "(Starting, Running t)"] th [of "Running t"] s_take(1) p(2) show ?thesis
      by (simp add: machine_weight_def loop_weight_def)
  next
    case 2
    with w [of "(Starting, Exited)"] th [of Exited] s_take(1) p(2) show ?thesis
      by (simp add: machine_weight_def loop_weight_def)
  qed
next
  case (s_dispatch i t found resp s1)
  have "steady (shared m) s1"
    using dispatch_opens [OF assms(3) s_dispatch(3)] by (intro quiet_steady) (simp add: handler_opens_def)
  then show ?thesis
    unfolding s_dispatch(1) by (intro worker_phase_weight [OF assms(2) s_dispatch(2)]) (simp_all add: loop_weight_def steady_def)
next
  case (s_throw i t err s1)
  have "steady (shared m) s1"
    using dispatch_opens [OF assms(3) s_throw(3)] by (intro quiet_steady) (simp add: handler_opens_def)
  then show ?thesis
    unfolding s_throw(1) by (intro worker_phase_weight [OF assms(2) s_throw(2)]) (simp_all add: loop_weight_def steady_def)
next
  case (s_push i t pw ok q)
  have "length (tq_queue q) \<le> Suc (length (tq_queue (pending_writes (shared m))))"
    using tq.put_Ret [OF s_push(3)] by auto
  then show ?thesis
    unfolding s_push(1) by (intro worker_phase_weight [OF assms(2) s_push(2)]) (simp_all add: loop_weight_def)
next
  case (s_notify i t)
  show ?thesis
    unfolding s_notify(1) by (intro worker_phase_weight [OF assms(2) s_notify(2)]) (simp_all add: loop_weight_def sys_eventfd_write_def)
next
  case (s_return i t)
  from weight_update [of i "threads_of m" thread_weight "(Starting, In_pop)"] threads_of_return [OF assms(2) s_return(2)]
    threads_of_phase(2) [OF s_return(2) refl assms(2)] s_return(1)
  show ?thesis by (simp add: machine_weight_def loop_weight_def task_done_def)
qed

lemma deliver_step_weight:
  assumes "deliver_step pw m m'"
  shows "machine_weight m' < machine_weight m"
  using assms by (rule deliver_step_eq) (simp add: machine_weight_def loop_weight_def threads_of_def)

interpretation serving: decreasing_system "serve_step ord router"
  "\<lambda>m. reachable machine_start (thread_step ord mv router) m \<and> router_ok router" machine_weight
proof (unfold_locales, goal_cases)
  case (1 m m')
  then show ?case by (blast intro: reach_step serve_thread)
next
  case (2 m m')
  then have "phases_ok m" using machine_reachable_inv by (auto simp: machine_inv_def)
  with 2 work_step_weight deliver_step_weight show ?case by (auto simp: serve_step_def)
qed

text \<open>Serving accepts nothing new.\<close>

lemma serve_step_accepted:
  assumes "serve_step ord router m m'" and "router_ok router"
  shows "accepted (thread_pool (shared m')) = accepted (thread_pool (shared m))"
  using assms(1) unfolding serve_step_def
proof (elim disjE exE)
  assume "work_step ord router m m'"
  then show ?thesis
  proof cases
    case (s_take i s1)
    then obtain p where p: "worker_take i (thread_pool (shared m)) = Ret p" "s1 = (shared m)\<lparr>thread_pool := p\<rparr>"
      by (auto simp: worker_begin_def split: res.splits)
    from p(1) show ?thesis by (cases rule: worker_take_cases) (simp_all add: s_take(1) p(2))
  next
    case (s_dispatch i t found resp s1)
    then show ?thesis
      using quiet_steady [of "shared m" s1] dispatch_opens [OF assms(2) s_dispatch(3)] by (simp add: handler_opens_def steady_def)
  next
    case (s_throw i t err s1)
    then show ?thesis
      using quiet_steady [of "shared m" s1] dispatch_opens [OF assms(2) s_throw(3)] by (simp add: handler_opens_def steady_def)
  qed (simp_all add: sys_eventfd_read_def sys_eventfd_write_def task_done_def)
qed (auto elim: deliver_step_eq)

lemma serve_steps_accepted:
  "(serve_step ord router)\<^sup>*\<^sup>* m m' \<Longrightarrow> router_ok router \<Longrightarrow>
    accepted (thread_pool (shared m')) = accepted (thread_pool (shared m))"
  by (induction rule: rtranclp_induct) (auto dest: serve_step_accepted)

section \<open>Where the steps end\<close>

definition handlers_return :: "web_server Router \<Rightarrow> bool" where
  "handlers_return router \<longleftrightarrow> (\<forall>req s. fst (dispatch router req new_response s) \<noteq> Blocked)"

text \<open>Nothing is left to do: no task, no response, no signal to the loop.\<close>

definition settled :: "machine \<Rightarrow> bool" where
  "settled m \<longleftrightarrow> (let p = thread_pool (shared m) in
     tq_queue (pool_queue p) = [] \<and> mset (finished p) = mset (accepted p) \<and>
     (\<forall>w \<in> set (workers p). w = (if shutdown_called p then Exited else In_pop)) \<and>
     tq_queue (pending_writes (shared m)) = [] \<and> eventfd_count (shared m) = 0 \<and> \<not> draining m)"

lemma no_step_no_writes:
  assumes "machine_inv m" and "\<forall>m'. \<not> serve_step ord router m m'"
  shows "\<not> draining m \<and> eventfd_count (shared m) = 0 \<and> tq_queue (pending_writes (shared m)) = []"
proof -
  have l: "loop_inv task_conn (hand_fds m) (shared m)" using assms(1) by (simp add: machine_inv_def)
  have no: "\<not> work_step ord router m m'" for m' using assms(2) by (simp add: serve_step_def)
  have d: "\<not> draining m"
  proof
    assume dr: "draining m"
    obtain r q where tp: "try_pop (pending_writes (shared m)) = (r, q)" by force
    show False
    proof (cases r)
      case None
      with s_drained [OF dr] tp no show False by blast
    next
      case (Some pw)
      from deliver_one_inv [OF popped_inv [OF l tp [unfolded Some]]] obtain s1 where
        "deliver_one pw ((shared m)\<lparr>pending_writes := q\<rparr>) = (Ret (), s1)" by blast
      with dr tp Some assms(2) show False unfolding serve_step_def deliver_step_def by blast
    qed
  qed
  have e: "eventfd_count (shared m) = 0" using s_wake [OF d, of ord router] no by blast
  have "Notifying \<notin> set (phases m)"
  proof
    assume "Notifying \<in> set (phases m)"
    then obtain i where i: "i < length (phases m)" "phases m ! i = Notifying" by (metis in_set_conv_nth)
    then obtain t where "in_phase m i t Notifying"
      using assms(1) unfolding machine_inv_def phases_ok_def in_phase_def by (metis phase.distinct(3))
    from s_notify [OF this] no show False by blast
  qed
  with d e assms(1) show ?thesis by (auto simp: machine_inv_def announced_def)
qed

lemma no_step_worker:
  assumes "machine_inv m" and "\<forall>m'. \<not> serve_step ord router m m'" and "handlers_return router"
    and "i < length (workers (thread_pool (shared m)))"
  shows "workers (thread_pool (shared m)) ! i = Exited \<or> workers (thread_pool (shared m)) ! i = In_pop \<and>
    tq_queue (pool_queue (thread_pool (shared m))) = [] \<and> \<not> tq_closed (pool_queue (thread_pool (shared m)))"
proof -
  let ?p = "thread_pool (shared m)"
  have i: "i < length (phases m)" and st: "phases m ! i \<noteq> Starting \<Longrightarrow> \<exists>t. workers ?p ! i = Running t"
    using assms(1,4) by (auto simp: machine_inv_def phases_ok_def)
  show ?thesis
  proof (cases "workers ?p ! i")
    case In_pop
    then have ph: "phases m ! i = Starting" using st by auto
    have no: "worker_take i ?p \<noteq> Ret p" for p
    proof
      assume "worker_take i ?p = Ret p"
      then have "worker_begin i (shared m) = (Ret (), (shared m)\<lparr>thread_pool := p\<rparr>)" by (simp add: worker_begin_def)
      from s_take [OF i ph In_pop this] assms(2) show False by (auto simp: serve_step_def)
    qed
    show ?thesis
    proof (cases rule: tq.get_cases [of "pool_queue ?p"])
      case 1
      with In_pop show ?thesis by auto
    qed (use no in \<open>auto simp: worker_take_def\<close>)
  next
    case (Running t)
    then have ph: "in_phase m i t (phases m ! i)" using i assms(4) by (simp add: in_phase_def)
    have "\<not> full_queue (pending_writes (shared m))"
      using no_step_no_writes [OF assms(1,2)] assms(1)
      by (simp add: full_queue_def machine_inv_def sized_def queue_fits_def TQ_DEFAULT_CAPACITY_def)
    moreover have "\<forall>s1. dispatch router (task_request t) new_response (shared m) \<noteq> (Blocked, s1)"
      using assms(3) unfolding handlers_return_def by (metis fst_conv)
    ultimately show ?thesis using worker_goes_on [OF ph, of router ord] assms(2) unfolding serve_step_def by blast
  qed simp
qed

lemma no_step_settled:
  assumes "reachable machine_start (thread_step ord mv router) m" and "router_ok router" and "handlers_return router"
    and "\<forall>m'. \<not> serve_step ord router m m'"
  shows "settled m"
proof -
  let ?p = "thread_pool (shared m)"
  have inv: "machine_inv m" by (rule machine_reachable_inv [OF assms(1,2)])
  obtain n hw where "reachable (pool_init n hw) (pool_step returning) (?p, ())"
    using machine_pool [OF assms(1,2)] by blast
  from pool.inv_reachable [OF this] have pool: "pool_inv (worker_count n hw) ?p" by simp
  note idle = no_step_worker [OF inv assms(4,3)]
  have len: "0 < length (workers ?p)" using pool by (simp add: pool_inv_def worker_count_pos)
  have q: "tq_queue (pool_queue ?p) = []"
    using idle [OF len] pool nth_mem [OF len] by (auto simp: pool_inv_def)
  have "workers ?p ! i = (if shutdown_called ?p then Exited else In_pop)" if "i < length (workers ?p)" for i
    using idle [OF that] pool nth_mem [OF that] by (auto simp: pool_inv_def)
  then have w: "\<forall>w \<in> set (workers ?p). w = (if shutdown_called ?p then Exited else In_pop)"
    by (metis in_set_conv_nth)
  then have "running (workers ?p) = {#}" by (intro running_none) (metis (full_types))
  then have "mset (finished ?p) = mset (accepted ?p)" using pool q by (simp add: pool_inv_def)
  with q w no_step_no_writes [OF inv assms(4)] show ?thesis by (simp add: settled_def Let_def)
qed


lemma health_router_returns: "handlers_return health_router"
  by (simp add: handlers_return_def dispatch_def health_router_def add_route_def health_handler_def
      split: option.splits)


section \<open>One response for each request\<close>

text \<open>The steps of a run, with the responses delivered on the way.\<close>

inductive serve_run ::
  "header_order \<Rightarrow> web_server Router \<Rightarrow> machine \<Rightarrow> PendingWrite list \<Rightarrow> machine \<Rightarrow> bool"
  for ord :: header_order and router :: "web_server Router" and m :: machine where
  run_none: "serve_run ord router m [] m"
| run_work: "serve_run ord router m pws m1 \<Longrightarrow> work_step ord router m1 m' \<Longrightarrow> serve_run ord router m pws m'"
| run_deliver: "serve_run ord router m pws m1 \<Longrightarrow> deliver_step pw m1 m' \<Longrightarrow> serve_run ord router m (pws @ [pw]) m'"

lemma serve_steps_run: "(serve_step ord router)\<^sup>*\<^sup>* m m' \<Longrightarrow> \<exists>pws. serve_run ord router m pws m'"
proof (induction rule: rtranclp_induct)
  case base
  show ?case using run_none by blast
next
  case (step y z)
  then show ?case unfolding serve_step_def by (blast intro: run_work run_deliver)
qed

definition handlers_answer :: "web_server Router \<Rightarrow> bool" where
  "handlers_answer router \<longleftrightarrow> (\<forall>req s. \<exists>found resp s1. dispatch router req new_response s = (Ret (found, resp), s1))"

text \<open>The connections that are to get a response: one for each request not yet answered.\<close>

fun owed_by :: "phase \<times> Task worker \<Rightarrow> ConnectionPtr option multiset" where
  "owed_by (Starting, Running t) = {#Some (task_conn t)#}"
| "owed_by (Posting pw, Running t) = {#pw_conn pw#}"
| "owed_by _ = {#}"

definition owed :: "machine \<Rightarrow> ConnectionPtr option multiset" where
  "owed m = mset (map pw_conn (tq_queue (pending_writes (shared m)))) +
     mset (map (\<lambda>t. Some (task_conn t)) (tq_queue (pool_queue (thread_pool (shared m))))) +
     sum_list (map owed_by (threads_of m))"

lemma work_step_owed:
  assumes "work_step ord router m m'" and "machine_inv m" and "router_ok router"
  shows "owed m' \<subseteq># owed m \<and> (handlers_answer router \<longrightarrow> owed m' = owed m) \<and>
    (\<exists>ps. tq_queue (pending_writes (shared m')) = tq_queue (pending_writes (shared m)) @ ps)"
    (is "?less \<and> ?kept \<and> ?queue")
proof -
  have ok: "phases_ok m" and open_q: "\<not> tq_closed (pending_writes (shared m))"
    using assms(2) by (simp_all add: machine_inv_def loop_inv_def refs_ok_def)
  note w = weight_update [where ws = "threads_of m" and f = owed_by]
  have same: ?thesis if "owed m' = owed m \<and> ?queue" using that by simp
  from assms(1) show ?thesis
  proof cases
    case s_wake
    then show ?thesis by - (rule same, simp add: owed_def threads_of_def sys_eventfd_read_def)
  next
    case s_drained
    then show ?thesis by - (rule same, simp add: owed_def threads_of_def)
  next
    case (s_take i s1)
    obtain p where p: "worker_take i (thread_pool (shared m)) = Ret p" "s1 = (shared m)\<lparr>thread_pool := p\<rparr>"
      using s_take(5) by (auto simp: worker_begin_def split: res.splits)
    note th = threads_of_take [OF ok s_take(2,3), of s1, unfolded s_take(4)]
    from p(1) show ?thesis
    proof (cases rule: worker_take_cases)
      case (1 t q)
      with w [of i "(Starting, Running t)"] th [of "Running t"] s_take(1) p(2) show ?thesis by - (rule same, simp add: owed_def)
    next
      case 2
      with w [of i "(Starting, Exited)"] th [of Exited] s_take(1) p(2) show ?thesis by - (rule same, simp add: owed_def)
    qed
  next
    case (s_dispatch i t found resp s1)
    have "steady (shared m) s1"
      using dispatch_opens [OF assms(3) s_dispatch(3)] by (intro quiet_steady) (simp add: handler_opens_def)
    then have st: "thread_pool s1 = thread_pool (shared m)" "pending_writes s1 = pending_writes (shared m)"
      by (simp_all add: steady_def)
    have "pw_conn (task_write ord t found resp) = Some (task_conn t)" by (cases t) (simp add: take_sendfile_fd_def)
    with w [of i "(Posting (task_write ord t found resp), Running t)"] threads_of_phase [OF s_dispatch(2) st(1)] ok st s_dispatch(1)
    show ?thesis by - (rule same, simp add: owed_def)
  next
    case (s_throw i t err s1)
    have "steady (shared m) s1"
      using dispatch_opens [OF assms(3) s_throw(3)] by (intro quiet_steady) (simp add: handler_opens_def)
    then have st: "thread_pool s1 = thread_pool (shared m)" "pending_writes s1 = pending_writes (shared m)"
      by (simp_all add: steady_def)
    have "\<not> handlers_answer router" using s_throw(3) unfolding handlers_answer_def by (metis prod.inject res.distinct(1))
    moreover from w [of i "(Returned, Running t)"] threads_of_phase [OF s_throw(2) st(1)] ok st s_throw(1)
    have "owed m = add_mset (Some (task_conn t)) (owed m')" by (simp add: owed_def)
    ultimately show ?thesis using st s_throw(1) by simp
  next
    case (s_push i t pw ok1 q)
    have q: "tq_queue q = tq_queue (pending_writes (shared m)) @ [pw]"
      using s_push(3) open_q by (auto simp: push_def split: if_splits)
    let ?s1 = "(shared m)\<lparr>pending_writes := q\<rparr>"
    have "thread_pool ?s1 = thread_pool (shared m)" by simp
    from w [of i "(Notifying, Running t)"] threads_of_phase [OF s_push(2) this] ok q s_push(1) show ?thesis by - (rule same, simp add: owed_def)
  next
    case (s_notify i t)
    have "thread_pool (sys_eventfd_write (shared m)) = thread_pool (shared m)" by (simp add: sys_eventfd_write_def)
    from w [of i "(Returned, Running t)"] threads_of_phase [OF s_notify(2) this] ok s_notify(1) show ?thesis by - (rule same, simp add: owed_def sys_eventfd_write_def)
  next
    case (s_return i t)
    from w [of i "(Starting, In_pop)"] threads_of_return [OF ok s_return(2)] threads_of_phase(2) [OF s_return(2) refl ok] s_return(1)
    show ?thesis by - (rule same, simp add: owed_def task_done_def)
  qed
qed

lemma deliver_step_owed:
  assumes "deliver_step pw m m'"
  shows "owed m = add_mset (pw_conn pw) (owed m') \<and>
    tq_queue (pending_writes (shared m)) = pw # tq_queue (pending_writes (shared m'))"
  using assms by (rule deliver_step_eq) (simp add: owed_def threads_of_def)

lemma serve_run_steps: "serve_run ord router m pws m' \<Longrightarrow> (serve_step ord router)\<^sup>*\<^sup>* m m'"
  by (induction rule: serve_run.induct) (auto simp: serve_step_def intro: rtranclp.rtrancl_into_rtrancl)

lemma settled_owed: "settled m \<Longrightarrow> owed m = {#}"
proof -
  assume s: "settled m"
  have "owed_by x = {#}" if "x \<in> set (threads_of m)" for x
  proof -
    obtain ph w where x: "x = (ph, w)" by (cases x)
    then have "w \<in> set (workers (thread_pool (shared m)))" using that by (auto simp: threads_of_def dest: set_zip_rightD)
    then have "w = Exited \<or> w = In_pop" using s unfolding settled_def Let_def by (metis (full_types))
    then show ?thesis by (cases ph) (auto simp: x)
  qed
  moreover have "\<forall>x \<in> set xs. owed_by x = {#} \<Longrightarrow> sum_list (map owed_by xs) = {#}" for xs by (induction xs) auto
  ultimately have "sum_list (map owed_by (threads_of m)) = {#}" by blast
  with s show ?thesis by (simp add: owed_def settled_def Let_def)
qed

text \<open>
  C4 Each request gets one response: while the server serves what it has been given, no connection
  has more responses delivered or still owed to it than it had sent requests, and if the handlers
  do not throw it has exactly as many; the loop delivers in the order in which responses were
  queued; and when the server has settled nothing is owed, so that one response has been delivered
  for every request whose handler did not throw.
\<close>

theorem one_response_each:
  assumes "reachable machine_start (thread_step ord mv router) m" and "router_ok router"
    and "serve_run ord router m pws m'"
  shows "mset (map pw_conn pws) + owed m' \<subseteq># owed m \<and>
    (handlers_answer router \<longrightarrow> mset (map pw_conn pws) + owed m' = owed m) \<and>
    (\<exists>ps. pws @ tq_queue (pending_writes (shared m')) = tq_queue (pending_writes (shared m)) @ ps) \<and>
    (settled m' \<longrightarrow> owed m' = {#})"
proof -
  from assms(3) have "mset (map pw_conn pws) + owed m' \<subseteq># owed m \<and>
    (handlers_answer router \<longrightarrow> mset (map pw_conn pws) + owed m' = owed m) \<and>
    (\<exists>ps. pws @ tq_queue (pending_writes (shared m')) = tq_queue (pending_writes (shared m)) @ ps)"
  proof (induction rule: serve_run.induct)
    case (run_work pws m1 m')
    have "(thread_step ord mv router)\<^sup>*\<^sup>* m m1"
      using serve_run_steps [OF run_work(1)] by (rule rtranclp_mono [THEN predicate2D, rotated]) (blast intro: serve_thread)
    then have "machine_inv m1" by (rule machine_reachable_inv [OF reachable_steps [OF _ assms(1)] assms(2)])
    note step = work_step_owed [OF run_work(2) this assms(2)]
    then have "mset (map pw_conn pws) + owed m' \<subseteq># mset (map pw_conn pws) + owed m1" by simp
    then have "mset (map pw_conn pws) + owed m' \<subseteq># owed m"
      using run_work.IH by (blast intro: subset_mset.order_trans)
    moreover from step run_work.IH have
      "\<exists>ps. pws @ tq_queue (pending_writes (shared m')) = tq_queue (pending_writes (shared m)) @ ps" by (metis append.assoc)
    ultimately show ?case using step run_work.IH by simp
  next
    case (run_deliver pws m1 pw m')
    from deliver_step_owed [OF run_deliver(2)] run_deliver.IH show ?case by (auto simp: ac_simps)
  qed simp
  with settled_owed [of m'] show ?thesis by blast
qed

lemma health_router_answers: "handlers_answer health_router"
  by (auto simp: handlers_answer_def dispatch_def health_router_def add_route_def health_handler_def
      split: option.splits)

text \<open>The client that sent two requests has two responses delivered to it.\<close>

theorem one_response_each_witness:
  "\<exists>m m' pws. reachable machine_start (thread_step id empty_request health_router) m \<and>
     serve_run id health_router m pws m' \<and> settled m' \<and> mset (map pw_conn pws) = {#Some 0, Some 0#}"
proof -
  obtain m t1 t2 where m: "reachable machine_start (thread_step id empty_request health_router) m"
    "pending_writes (shared m) = new_queue TQ_DEFAULT_CAPACITY" "tq_queue (pool_queue (thread_pool (shared m))) = []"
    "zip (phases m) (workers (thread_pool (shared m))) = [(Starting, Running t1), (Starting, Running t2)]"
    "task_conn t1 = 0" "task_conn t2 = 0"
    using two_requests_running by blast
  have o: "owed m = {#Some 0, Some 0#}" by (simp add: owed_def threads_of_def m(2-6) new_queue_def)
  have "reachable machine_start (thread_step id empty_request health_router) m \<and> router_ok health_router"
    using m(1) health_router_ok by blast
  from serving.reaches_end [OF this] obtain m' where m': "(serve_step id health_router)\<^sup>*\<^sup>* m m'"
    "reachable machine_start (thread_step id empty_request health_router) m'" "\<forall>m''. \<not> serve_step id health_router m' m''" by blast
  then have "settled m'" by (intro no_step_settled [OF _ health_router_ok health_router_returns])
  moreover obtain pws where pws: "serve_run id health_router m pws m'" using serve_steps_run [OF m'(1)] by blast
  ultimately have "mset (map pw_conn pws) = {#Some 0, Some 0#}"
    using one_response_each [OF m(1) health_router_ok pws] health_router_answers o by auto
  with m(1) pws \<open>settled m'\<close> show ?thesis by blast
qed

end
