(* ===== verification/Server_Answers.thy ===== *)
theory Server_Answers
  imports Server_Progress
begin

text \<open>
  What clients are sent: every response in the server has been made for the connection it goes to,
  by the router from a request that arrived on this connection, or is the answer to input of this
  connection that did not parse.
\<close>

section \<open>Where responses come from\<close>

definition parse_answer :: "header_order \<Rightarrow> PendingWrite \<Rightarrow> bool" where
  "parse_answer ord pw \<longleftrightarrow> (\<exists>p msg. pw =
     \<lparr>pw_conn = Some p, pw_data = serialize ord (make_error BadRequest msg), pw_file_fd = -1, pw_file_size = 0\<rparr>)"

text \<open>The response to a request among \<open>ts\<close>, made by the router in some state of the server.\<close>

definition request_answer :: "header_order \<Rightarrow> web_server Router \<Rightarrow> Task list \<Rightarrow> PendingWrite \<Rightarrow> bool" where
  "request_answer ord router ts pw \<longleftrightarrow> (\<exists>t \<in> set ts. \<exists>found resp s s1.
     dispatch router (task_request t) new_response s = (Ret (found, resp), s1) \<and> pw = task_write ord t found resp)"

lemma request_answer_mono: "request_answer ord router ts pw \<Longrightarrow> set ts \<subseteq> set us \<Longrightarrow> request_answer ord router us pw"
  unfolding request_answer_def by blast

text \<open>The loop thread queues answers to input that did not parse, and starts no task.\<close>

definition loop_posts :: "header_order \<Rightarrow> web_server \<Rightarrow> web_server \<Rightarrow> bool" where
  "loop_posts ord s s' \<longleftrightarrow> started (thread_pool s') = started (thread_pool s) \<and>
     (\<forall>pw \<in> set (tq_queue (pending_writes s')). pw \<in> set (tq_queue (pending_writes s)) \<or> parse_answer ord pw)"

lemma loop_posts_trans: "loop_posts ord s s1 \<Longrightarrow> loop_posts ord s1 s2 \<Longrightarrow> loop_posts ord s s2"
  by (auto simp: loop_posts_def)

lemma loop_posts_steady: "steady s s' \<Longrightarrow> loop_posts ord s s'"
  by (simp add: loop_posts_def steady_def)

lemma loop_posts_read:
  assumes "read_callback ord mv p c s = (r, s')"
  shows "loop_posts ord s s'"
proof -
  obtain res ps where f: "feed (readable (read_buf c)) (parser_of s p) = (res, ps)" by force
  have sp: "pending_writes (set_parser q x s) = pending_writes s" "thread_pool (set_parser q x s) = thread_pool s" for q x
    by (simp_all add: set_parser_def)
  note cb = read_callback_eq [OF f, of ord mv]
  show ?thesis
  proof (cases res)
    case Incomplete
    with cb assms show ?thesis by (auto simp: loop_posts_def sp)
  next
    case Complete
    let ?t = "Handle_request (p_request ps) p (wants_keep_alive (p_request ps))"
    obtain r1 s1 where s1: "submit_task ?t (set_parser p (reset ps) s) = (r1, s1)" by force
    then have "pending_writes s1 = pending_writes s" "started (thread_pool s1) = started (thread_pool s)"
      by (auto simp: submit_task_def submit_def sp split: res.splits)
    moreover have "s' = s1" using cb Complete assms s1 by (cases r1) simp_all
    ultimately show ?thesis by (simp add: loop_posts_def)
  next
    case Error
    let ?pw = "\<lparr>pw_conn = Some p, pw_data = serialize ord (make_error BadRequest (p_error ps)), pw_file_fd = -1, pw_file_size = 0\<rparr>"
    obtain r1 s1 where s1: "post_response (Some p) (pw_data ?pw) (-1) 0 (set_parser p ps s) = (r1, s1)" by force
    have "parse_answer ord ?pw" by (auto simp: parse_answer_def)
    then have "loop_posts ord s s1"
      using s1 tq.put_Ret [of ?pw "pending_writes s"]
      by (auto simp: post_response_def loop_posts_def sp sys_eventfd_write_def split: res.splits)
    moreover have "s' = s1" using cb Error assms s1 by (cases r1) simp_all
    ultimately show ?thesis by simp
  qed
qed

interpretation post_guarantee: loop_guarantee "loop_posts ord" "web_app ord mv"
proof
  fix p cb c s r and s' :: web_server
  assume "read_cb (web_app ord mv) p = Some cb" "cb c s = (r, s')"
  then show "loop_posts ord s s'" using loop_posts_read by (auto simp: web_app_def)
next
  fix h p and s :: web_server
  show "loop_posts ord s (s\<lparr>server.more := h p (server.more s)\<rparr>)" by (simp add: loop_posts_def)
qed (use loop_posts_trans loop_posts_steady in blast)+

section \<open>The invariant\<close>

definition answers_ok :: "header_order \<Rightarrow> web_server Router \<Rightarrow> machine \<Rightarrow> bool" where
  "answers_ok ord router m \<longleftrightarrow> (let ts = started (thread_pool (shared m)) in
     (\<forall>pw \<in> set (tq_queue (pending_writes (shared m))). parse_answer ord pw \<or> request_answer ord router ts pw) \<and>
     (\<forall>pw. Posting pw \<in> set (phases m) \<longrightarrow> request_answer ord router ts pw))"

lemma answers_ok_mono:
  assumes "answers_ok ord router m" and "set (started (thread_pool (shared m))) \<subseteq> set (started (thread_pool (shared m')))"
    and "\<And>pw. pw \<in> set (tq_queue (pending_writes (shared m'))) \<Longrightarrow> pw \<in> set (tq_queue (pending_writes (shared m))) \<or>
      parse_answer ord pw \<or> request_answer ord router (started (thread_pool (shared m'))) pw"
    and "\<And>pw. Posting pw \<in> set (phases m') \<Longrightarrow> Posting pw \<in> set (phases m) \<or>
      request_answer ord router (started (thread_pool (shared m'))) pw"
  shows "answers_ok ord router m'"
  using assms(1,3,4) request_answer_mono [OF _ assms(2), of ord router] unfolding answers_ok_def Let_def by blast

lemma thread_step_answers:
  assumes "thread_step ord mv router m m'" and "answers_ok ord router m" and "router_ok router"
    and "\<And>i t. in_phase m i t Starting \<Longrightarrow> t \<in> set (started (thread_pool (shared m)))"
  shows "answers_ok ord router m'"
  using assms(1)
proof cases
  case (t_wait evs ep s1)
  then show ?thesis
    using epoll_wait_shared [OF t_wait(3), of ep] by (intro answers_ok_mono [OF assms(2)]) (auto simp: shared_same_def)
next
  case (t_event e s1)
  then show ?thesis
    using post_guarantee.handle_event_R [OF t_event(3), of ord mv]
    by (intro answers_ok_mono [OF assms(2)]) (auto simp: loop_posts_def)
next
  case t_reap
  then show ?thesis using reap_steady [of "shared m"] by (intro answers_ok_mono [OF assms(2)]) (auto simp: steady_def)
next
  case (t_drain pw q s1)
  have "steady ((shared m)\<lparr>pending_writes := q\<rparr>) s1"
    using deliver_one_steady [of "(shared m)\<lparr>pending_writes := q\<rparr>" pw] t_drain(4) by simp
  moreover have "set (tq_queue q) \<subseteq> set (tq_queue (pending_writes (shared m)))"
    using t_drain(3) by (auto simp: try_pop_def split: list.splits)
  ultimately show ?thesis by (intro answers_ok_mono [OF assms(2)]) (auto simp: t_drain(1) steady_def)
next
  case (t_take i s1)
  obtain p where p: "worker_take i (thread_pool (shared m)) = Ret p" "s1 = (shared m)\<lparr>thread_pool := p\<rparr>"
    using t_take(5) by (auto simp: worker_begin_def split: res.splits)
  from p(1) have "set (started (thread_pool (shared m))) \<subseteq> set (started p)"
    by (cases rule: worker_take_cases) auto
  then show ?thesis by (intro answers_ok_mono [OF assms(2)]) (auto simp: t_take(1) p(2))
next
  case (t_dispatch i t found resp s1)
  have "steady (shared m) s1"
    using dispatch_opens [OF assms(3) t_dispatch(3)] by (intro quiet_steady) (simp add: handler_opens_def)
  moreover have "request_answer ord router (started (thread_pool (shared m))) (task_write ord t found resp)"
    using assms(4) [OF t_dispatch(2)] t_dispatch(3) unfolding request_answer_def by blast
  ultimately show ?thesis
    by (intro answers_ok_mono [OF assms(2)]) (auto simp: t_dispatch(1) steady_def dest: set_update_subset_insert [THEN subsetD])
next
  case (t_throw i t err s1)
  have "steady (shared m) s1"
    using dispatch_opens [OF assms(3) t_throw(3)] by (intro quiet_steady) (simp add: handler_opens_def)
  then show ?thesis
    by (intro answers_ok_mono [OF assms(2)]) (auto simp: t_throw(1) steady_def dest: set_update_subset_insert [THEN subsetD])
next
  case (t_push i t pw ok q)
  have "Posting pw \<in> set (phases m)" using t_push(2) by (auto simp: in_phase_def in_set_conv_nth)
  then have "request_answer ord router (started (thread_pool (shared m))) pw"
    using assms(2) by (simp add: answers_ok_def Let_def)
  then show ?thesis
    using tq.put_Ret [OF t_push(3)]
    by (intro answers_ok_mono [OF assms(2)]) (auto simp: t_push(1) dest: set_update_subset_insert [THEN subsetD])
next
  case (t_outside s1)
  then show ?thesis
    using quiet_steady [of "shared m" s1] by (intro answers_ok_mono [OF assms(2)]) (auto simp: steady_def)
qed (intro answers_ok_mono [OF assms(2)];
  auto simp: sys_eventfd_read_def sys_eventfd_write_def signal_handler_def stop_def task_done_def shutdown_begin_def
    dest: set_update_subset_insert [THEN subsetD])+

lemma machine_answers:
  assumes "reachable machine_start (thread_step ord mv router) m" and "router_ok router"
  shows "answers_ok ord router m"
  using assms(1)
proof (induction rule: reachable.induct)
  case (reach_init m)
  then have "tq_queue (pending_writes (shared m)) = []"
    using ctor_inv [where tc = task_conn] unfolding machine_start_def server_start_def members_made_def by blast
  with reach_init show ?case by (auto simp: answers_ok_def machine_start_def)
next
  case (reach_step m m')
  obtain n hw where "reachable (pool_init n hw) (pool_step returning) (thread_pool (shared m), ())"
    using machine_pool [OF reach_step(1) assms(2)] by blast
  from pool.inv_reachable [OF this] have
    e: "mset (finished (thread_pool (shared m))) + running (workers (thread_pool (shared m))) = mset (started (thread_pool (shared m)))"
    by (simp add: pool_inv_def)
  have "t \<in> set (started (thread_pool (shared m)))" if "in_phase m i t Starting" for i t
  proof -
    have "Running t \<in> set (workers (thread_pool (shared m)))" using that by (auto simp: in_phase_def in_set_conv_nth)
    then have "t \<in># running (workers (thread_pool (shared m)))"
      by (auto simp: running_def in_sum_list intro!: bexI [of _ "Running t"])
    then have "t \<in># mset (started (thread_pool (shared m)))" unfolding e [symmetric] by simp
    then show ?thesis by simp
  qed
  with thread_step_answers [OF reach_step(2) reach_step.IH assms(2)] show ?case by blast
qed



end
