(* ===== verification/Event_Loop_Text.thy ===== *)
theory Event_Loop_Text
  imports Event_Loop_Inv
begin

text \<open>
  What clients have been sent: an event of the loop changes, for each connection that stays open,
  neither what its client was sent followed by what is still in its buffer, nor the text of any
  other connection. The contract of the read callback is the locale \<open>text_client\<close>.
\<close>

section \<open>The text of a connection\<close>

definition text_of :: "int \<Rightarrow> ConnectionPtr \<Rightarrow> ('t, 'b) server_scheme \<Rightarrow> string" where
  "text_of f p s = sent s f @ readable (write_buf (heap s ! p))"

definition no_transfer :: "ConnectionPtr \<Rightarrow> ('t, 'b) server_scheme \<Rightarrow> bool" where
  "no_transfer p s \<longleftrightarrow> sendfile_op (heap s ! p) = None"

text \<open>An open connection was open before, and keeps its text unless a file is being sent; or it is new.\<close>

definition text_kept :: "('t, 'b) server_scheme \<Rightarrow> ('t, 'b) server_scheme \<Rightarrow> int \<Rightarrow> ConnectionPtr \<Rightarrow> bool" where
  "text_kept s s' f p \<longleftrightarrow> (f, p) \<in> set (connections s) \<and> state (heap s ! p) \<noteq> Closed \<and>
     (no_transfer p s \<longrightarrow> no_transfer p s' \<and> text_of f p s' = text_of f p s)"

definition text_new :: "('t, 'b) server_scheme \<Rightarrow> ('t, 'b) server_scheme \<Rightarrow> int \<Rightarrow> ConnectionPtr \<Rightarrow> bool" where
  "text_new s s' f p \<longleftrightarrow> length (heap s) \<le> p \<and> no_transfer p s' \<and> text_of f p s' = []"

definition texts_kept :: "('t, 'b) server_scheme \<Rightarrow> ('t, 'b) server_scheme \<Rightarrow> bool" where
  "texts_kept s s' \<longleftrightarrow> length (heap s) \<le> length (heap s') \<and>
     (\<forall>(f, p) \<in> set (connections s'). state (heap s' ! p) \<noteq> Closed \<longrightarrow> text_kept s s' f p \<or> text_new s s' f p)"

lemma texts_kept_trans: "texts_kept s s1 \<Longrightarrow> texts_kept s1 s2 \<Longrightarrow> texts_kept s s2"
  unfolding texts_kept_def text_kept_def text_new_def by (fastforce dest: le_trans)

lemma texts_kept_same:
  assumes "heap s' = heap s" and "set (connections s') \<subseteq> set (connections s)" and "sent s' = sent s"
  shows "texts_kept s s'"
  using assms by (auto simp: texts_kept_def text_kept_def no_transfer_def text_of_def)

lemma texts_kept_refl [simp]: "texts_kept s s"
  by (rule texts_kept_same) simp_all

text \<open>One connection changes.\<close>

lemma texts_kept_conn:
  assumes "loop_inv tc E s" and "(f, p) \<in> set (connections s)" and "heap s' = (heap s)[p := c]"
    and "connections s' = connections s" and "\<And>g. g \<noteq> f \<Longrightarrow> sent s' g = sent s g"
    and "state c \<noteq> Closed \<Longrightarrow> state (heap s ! p) \<noteq> Closed \<and> (sendfile_op (heap s ! p) = None \<longrightarrow>
      sendfile_op c = None \<and> sent s' f @ readable (write_buf c) = sent s f @ readable (write_buf (heap s ! p)))"
  shows "texts_kept s s'"
  unfolding texts_kept_def
proof (intro conjI, goal_cases)
  case 1
  show ?case using assms(3) by simp
next
  case 2
  have p: "p < length (heap s)" by (rule inv_entry [OF assms(1,2)])
  have "text_kept s s' g q" if e: "(g, q) \<in> set (connections s)" "state (heap s' ! q) \<noteq> Closed" for g q
  proof (cases "q = p")
    case True
    have "inj_on snd (set (connections s))" using assms(1) by (simp add: loop_inv_def table_ok_def distinct_map)
    from inj_onD [OF this, of "(g, q)" "(f, p)"] have "g = f" using e(1) assms(2) True by simp
    with True e assms(3,6) p show ?thesis by (auto simp: text_kept_def no_transfer_def text_of_def)
  next
    case False
    then have "g \<noteq> f" using inv_unique [OF assms(1,2)] e(1) by blast
    with False e assms(3,5) show ?thesis by (auto simp: text_kept_def no_transfer_def text_of_def)
  qed
  with assms(4) show ?case by auto
qed

section \<open>Flushing and closing\<close>

lemma close_return_sent: "sent (snd (close_return r (Some close_cb) c k)) = sent k"
proof (cases "state c = Closed")
  case False
  then obtain i where "on_closed (Some close_cb) c k = (Ret (c\<lparr>state := Closed, sendfile_op := None, socket := no_socket\<rparr>),
      snd (socket_close (socket c) ((sendfile_reset (sendfile_op c) k)\<lparr>interest := i\<rparr>)))"
    using on_closed_eq [OF close_cb_quiet] by blast
  then show ?thesis by (simp add: close_return_def)
qed (simp add: close_return_def on_closed_def)

lemma close_return_state: "close_return r (Some close_cb) c k = (Ret (r', c'), k') \<Longrightarrow> state c' = Closed"
  using on_closed_eq [OF close_cb_quiet, of c k] by (cases "state c = Closed") (auto simp: close_return_def on_closed_def)

text \<open>A flush sends to its own socket only, and starts no transfer.\<close>

lemma flush_write_sent:
  assumes "bufs_ok c" and "g \<noteq> conn_fd c"
  shows "sent (snd (flush_write (Some close_cb) c k)) g = sent k g"
proof -
  have w: "buf_wf (write_buf c)" using assms(1) by (simp add: bufs_ok_def)
  have fin: "sent (snd (flush_finish c1 k1)) = sent k1" for c1 k1 by (simp add: flush_finish_def Let_def)
  from send_loop_ok [OF w, of "conn_fd c" k] obtain stop b k1 where
    sl: "send_loop (conn_fd c) (write_buf c) k = (Ret (stop, b), k1)" "io_frame (conn_fd c) k k1" by blast
  have 1: "sent k1 g = sent k g" by (rule io_frame_sel(8) [OF sl(2) assms(2)])
  show ?thesis
  proof (cases "stop = Go_on \<and> sendfile_op c \<noteq> None")
    case False
    with sl(1) 1 show ?thesis by (cases stop) (auto simp: flush_write_def fin close_return_sent)
  next
    case True
    then obtain op where op: "sendfile_op c = Some op" by blast
    from sendfile_loop_fds [of "conn_fd c" op k1] obtain stop2 op2 k2 where
      sf: "sendfile_loop (conn_fd c) op k1 = (Ret (stop2, op2), k2)" "io_frame (conn_fd c) k1 k2" by blast
    have "sent k2 g = sent k g" using io_frame_sel(8) [OF sf(2) assms(2)] 1 by simp
    with sl(1) sf(1) True op show ?thesis by (simp add: flush_write_def conn_fd_def fin close_return_sent Let_def)
  qed
qed

lemma flush_write_no_transfer:
  assumes "sendfile_op c = None" and "flush_write (Some close_cb) c k = (Ret (n, c'), k')" and "state c' \<noteq> Closed"
  shows "sendfile_op c' = None"
proof -
  have f: "flush_finish d k2 = (Ret (n, c'), k') \<Longrightarrow> sendfile_op d = None \<Longrightarrow> sendfile_op c' = None" for d k2
    by (auto simp: flush_finish_def Let_def split: if_splits)
  obtain r k1 where sl: "send_loop (conn_fd c) (write_buf c) k = (r, k1)" by force
  show ?thesis
  proof (cases r)
    case (Ret x)
    obtain stop b where x: "x = (stop, b)" by (cases x)
    show ?thesis
    proof (cases "stop = Gone")
      case True
      with assms(2,3) sl Ret x close_return_state [of 0 "c\<lparr>write_buf := b\<rparr>" k1] show ?thesis
        by (auto simp: flush_write_def)
    next
      case False
      with assms(1,2) sl Ret x f [of "c\<lparr>write_buf := b\<rparr>" k1] show ?thesis
        by (cases stop) (auto simp: flush_write_def)
    qed
  qed (use assms(2) sl in \<open>simp_all add: flush_write_def\<close>)
qed

lemma flush_conn_texts:
  assumes "loop_inv tc E s" and "(f, p) \<in> set (connections s)" and "state (heap s ! p) \<noteq> Closed"
    and "flush_conn p s = (Ret left, s')"
  shows "texts_kept s s'"
proof -
  let ?c = "heap s ! p"
  have b: "bufs_ok ?c" "conn_fd ?c = f" using inv_entry(2,6) [OF assms(1,2)] assms(3) by simp_all
  obtain c' s1 where f: "flush_write (Some close_cb) ?c s = (Ret (left, c'), s1)" "s' = s1\<lparr>heap := (heap s1)[p := c']\<rparr>"
    using assms(4) by (auto simp: flush_conn_def call_conn_def bind_st_def split: res.splits prod.splits)
  have m: "heap s1 = heap s" "connections s1 = connections s"
    using flush_write_more [of ?c s] f(1) by (simp_all add: server_more_eq)
  show ?thesis
  proof (rule texts_kept_conn [OF assms(1,2), of s' c'])
    show "sent s' g = sent s g" if "g \<noteq> f" for g
      using flush_write_sent [OF b(1), of g s] that b(2) f by simp
    assume open_c: "state c' \<noteq> Closed"
    have "sendfile_op c' = None \<and> sent s' f @ readable (write_buf c') = sent s f @ readable (write_buf ?c)"
      if n: "sendfile_op ?c = None"
    proof -
      have n': "sendfile_op c' = None" by (rule flush_write_no_transfer [OF n f(1) open_c])
      have "conn_wf s ?c" using b(1) n by (simp add: conn_wf_def bufs_ok_def)
      from flush_write_ok [OF this close_cb_quiet assms(3)] f(1) open_c have
        "sent s1 (conn_fd ?c) @ pending c' s1 = sent s (conn_fd ?c) @ pending ?c s" by (auto split: if_splits)
      with n n' b(2) f(2) show ?thesis by (simp add: pending_def)
    qed
    with assms(3) show "state ?c \<noteq> Closed \<and> (sendfile_op ?c = None \<longrightarrow>
        sendfile_op c' = None \<and> sent s' f @ readable (write_buf c') = sent s f @ readable (write_buf ?c))" by blast
  qed (simp_all add: f(2) m)
qed

lemma epoll_modify_texts: "epoll_modify g w s = (r, s') \<Longrightarrow> texts_kept s s'"
proof -
  assume m: "epoll_modify g w s = (r, s')"
  then have "kernel.more s' = kernel.more s" "sent s' = sent s"
    using kernel_op_more(2) [of g w s] by (auto simp: epoll_modify_def split: option.splits prod.splits if_splits)
  then show ?thesis by (intro texts_kept_same) (simp_all add: server_more_eq)
qed

section \<open>Events\<close>

text \<open>A read callback that sends nothing and leaves the write buffer alone.\<close>

locale text_client = loop_client on_read tc
  for on_read :: "ConnectionPtr \<Rightarrow> ('t, 'b) server_scheme callback" and tc :: "'t \<Rightarrow> ConnectionPtr" +
  assumes on_read_text: "on_read p c s = (r, s') \<Longrightarrow>
    sent s' = sent s \<and> heap s' = heap s \<and> connections s' = connections s \<and> (\<forall>c'. r = Ret c' \<longrightarrow>
      write_buf c' = write_buf c \<and> sendfile_op c' = sendfile_op c \<and> state c' = state c)"
begin

lemma read_loop_text:
  assumes "read_loop (Some (on_read p)) (Some close_cb) script c s = (Ret (go, c'), s')"
  shows "sent s' = sent s \<and> heap s' = heap s \<and> connections s' = connections s \<and> (state c' = Closed \<or>
    write_buf c' = write_buf c \<and> sendfile_op c' = sendfile_op c \<and> state c' = state c)"
  using assms
proof (induction "rx_size script" arbitrary: script c s rule: less_induct)
  case less
  obtain full c1 where m: "make_read_room c = (full, c1)" by force
  have c1: "write_buf c1 = write_buf c" "sendfile_op c1 = sendfile_op c" "state c1 = state c"
    using m by (auto simp: make_read_room_def split: if_splits prod.splits)
  obtain x script1 where x: "(if conn_fd c1 \<in> open_fds s then sys_recv (writable_bytes (read_buf c1)) script
      else (Inl EBADF, [])) = (x, script1)" by force
  note step = less.prems [unfolded read_loop.simps [of _ _ script c s] m prod.case x]
  have close: ?case if "close_return False (Some close_cb) c1 s = (Ret (go, c'), s')"
    using that close_return_sent [of False c1 s] close_return_more [of False c1 s] close_return_state [OF that]
    by (simp add: server_more_eq)
  show ?case
  proof (cases x)
    case (Inl e)
    have "rx_size script1 < rx_size script" if "e = EINTR"
      using x Inl that by (auto split: if_splits intro: sys_recv_progress(2) [OF sym])
    with less.hyps [of script1 c1 s] step Inl close c1 show ?thesis by (auto split: if_splits)
  next
    case (Inr xs)
    have lt: "rx_size script1 < rx_size script" if "xs \<noteq> []"
      using x Inr that by (auto split: if_splits intro: sys_recv_progress(1) [OF sym])
    show ?thesis
    proof (cases "\<not> full \<and> xs \<noteq> []")
      case True
      then obtain b where b: "append_bytes xs (read_buf c1) = Ret b"
        using step Inr by (auto split: res.splits)
      obtain r2 s2 where cb: "on_read p (c1\<lparr>read_buf := b\<rparr>) s = (r2, s2)" by force
      with step Inr True b obtain c2 where r2: "r2 = Ret c2"
        and "read_loop (Some (on_read p)) (Some close_cb) script1 c2 s2 = (Ret (go, c'), s')" by (cases r2) auto
      from less.hyps [OF lt this(2)] on_read_text [OF cb] r2 True c1 show ?thesis by auto
    next
      case False
      with step Inr have "close_return False (Some close_cb) c1 s = (Ret (go, c'), s')" by (auto split: if_splits)
      then show ?thesis by (rule close)
    qed
  qed
qed

lemma readable_texts:
  assumes "loop_inv tc E s" and "(f, p) \<in> set (connections s)"
    and "call_conn (on_readable (Some (on_read p)) (Some close_cb)) p s = (Ret go, s')"
  shows "texts_kept s s'"
proof -
  let ?c = "heap s ! p"
  let ?s = "s\<lparr>rx := (rx s)(conn_fd ?c := rx_later (rx s (conn_fd ?c)))\<rparr>"
  obtain c' s1 where o: "on_readable (Some (on_read p)) (Some close_cb) ?c s = (Ret (go, c'), s1)"
    "s' = s1\<lparr>heap := (heap s1)[p := c']\<rparr>"
    using assms(3) by (auto simp: call_conn_def bind_st_def split: res.splits prod.splits)
  then have "read_loop (Some (on_read p)) (Some close_cb) (rx_now (rx s (conn_fd ?c))) (touch s ?c) ?s = (Ret (go, c'), s1)"
    by (simp add: on_readable_def Let_def)
  from read_loop_text [OF this] o(2) show ?thesis
    by (intro texts_kept_conn [OF assms(1,2), of s' c']) (auto simp: touch_def)
qed

lemma conn_event_texts:
  assumes "loop_inv tc E s" and "(ev_fd e, p) \<in> set (connections s)"
    and "read_cb a p = Some (on_read p)" and "conn_event a e p s = (Ret (), s')" and "\<forall>g \<in># E. 0 \<le> g"
  shows "texts_kept s s'"
proof (cases "Epoll.is_closed e")
  case True
  obtain c' s1 where c': "close_return () (Some close_cb) (heap s ! p) s = (Ret ((), c'), s1)"
    using close_return_Ret [of "()" "heap s ! p" s] by auto
  have "heap s1 = heap s" "connections s1 = connections s" "sent s1 = sent s"
    using close_return_more [of "()" "heap s ! p" s] close_return_sent [of "()" "heap s ! p" s] c' by (simp_all add: server_more_eq)
  moreover have "s' = s1\<lparr>heap := (heap s1)[p := c']\<rparr>"
    using True assms(4) call_conn_Ret [of "close_return () (Some close_cb)", OF c'] by (simp add: conn_event_def)
  ultimately show ?thesis
    using close_return_state [OF c'] by (intro texts_kept_conn [OF assms(1,2), of s' c']) simp_all
next
  case opened: False
  let ?w = "EPOLLIN OR EPOLLET OR EPOLLRDHUP"
  let ?rest = "\<lambda>s1. if is_writable e then bind_st (flush_conn p s1) (\<lambda>left s2.
      if left = 0 then epoll_modify (ev_fd e) ?w s2 else (Ret (), s2)) else (Ret (), s1)"
  have rest: "texts_kept s1 s'" if i: "loop_inv tc E s1" "(ev_fd e, p) \<in> set (connections s1)" and r: "(Ret (), s') = ?rest s1" for s1
  proof (cases "is_writable e")
    case True
    with r have r: "(Ret (), s') = bind_st (flush_conn p s1) (\<lambda>left s2.
        if left = 0 then epoll_modify (ev_fd e) ?w s2 else (Ret (), s2))" by simp
    have st: "state (heap s1 ! p) \<noteq> Closed" using writable_closed [OF i refl r assms(5)] by auto
    from r obtain left s2 where "flush_conn p s1 = (Ret left, s2)"
      "(Ret (), s') = (if left = 0 then epoll_modify (ev_fd e) ?w s2 else (Ret (), s2))"
      by (cases "flush_conn p s1"; cases "fst (flush_conn p s1)") auto
    with flush_conn_texts [OF i st] epoll_modify_texts [of "ev_fd e" ?w s2 "Ret ()" s'] show ?thesis
      by (auto intro: texts_kept_trans split: if_splits)
  qed (use r in simp)
  show ?thesis
  proof (cases "is_readable e")
    case False
    with opened assms(4) have "(Ret (), s') = ?rest s" by (simp add: conn_event_def)
    with rest [OF assms(1,2)] show ?thesis by simp
  next
    case True
    obtain r1 s1 where c: "call_conn (on_readable (Some (on_read p)) (Some close_cb)) p s = (r1, s1)" by force
    have ev: "(Ret (), s') = bind_st (r1, s1) (\<lambda>go_on s1. if \<not> go_on then (Ret (), s1) else ?rest s1)"
      using opened True assms(3,4) c by (simp add: conn_event_def)
    then obtain go where r1: "r1 = Ret go" by (cases r1) auto
    have "loop_inv tc E s1" "(ev_fd e, p) \<in> set (connections s1)"
      using readable_inv [OF assms(1,2) c] r1 assms(2) by (auto simp: loop_frame_def)
    with rest [of s1] readable_texts [OF assms(1,2) c [unfolded r1]] ev r1 show ?thesis
      by (cases go) (auto intro: texts_kept_trans)
  qed
qed

end

section \<open>Accepting\<close>

text \<open>A new client has been sent nothing; one whose descriptor has an entry is dropped.\<close>

lemma accept_one_text:
  assumes "accept_one a \<lparr>sock_fd = f\<rparr> s = (Ret (), s')"
  shows "sent s' = sent s \<and> (\<exists>c. heap s' = heap s @ [c] \<and> (connections s' = connections s \<or>
    connections s' = connections s @ [(f, length (heap s))] \<and> sendfile_op c = None \<and> readable (write_buf c) = []))"
proof -
  let ?c = "new_connection \<lparr>sock_fd = f\<rparr> (next_conn_id s) s"
  let ?cs = "if map_of (connections s) f = None then connections s @ [(f, length (heap s))] else connections s"
  let ?s1 = "s\<lparr>next_conn_id := next_conn_id s + 1, heap := heap s @ [?c], connections := ?cs\<rparr>"
  obtain r s2 where e: "epoll_add f (EPOLLIN OR EPOLLET OR EPOLLRDHUP) ?s1 = (r, s2)" by force
  then have s2: "heap s2 = heap s @ [?c]" "connections s2 = ?cs" "sent s2 = sent s"
    by (auto simp: epoll_add_def split: option.splits prod.splits if_splits)
  let ?s3 = "case conn_handler a of None \<Rightarrow> s2 | Some h \<Rightarrow> s2\<lparr>server.more := h (length (heap s)) (server.more s2)\<rparr>"
  have s3: "heap ?s3 = heap s @ [?c]" "connections ?s3 = ?cs" "sent ?s3 = sent s"
    using s2 by (simp_all split: option.split)
  have s': "s' = (if map_of (connections s) f = None then ?s3 else destroy_conn (length (heap s)) ?s3)"
    using assms e by (cases r) (simp_all add: accept_one_def Let_def)
  have new: "sendfile_op ?c = None" "readable (write_buf ?c) = []" by (simp_all add: new_connection_def)
  show ?thesis
  proof (cases "map_of (connections s) f = None")
    case True
    with s' s3 new show ?thesis by simp
  next
    case False
    obtain t where t: "t = ?s3" by blast
    have more: "kernel.more (connection_destroy (heap t ! length (heap s)) t) = kernel.more t"
      using quiet_calls(7) [of t "heap t ! length (heap s)"] by (simp add: quiet_def)
    have "sent (connection_destroy c t) = sent t" for c by (simp add: connection_destroy_def)
    with more s3 False show ?thesis
      unfolding s' t [symmetric] by (simp add: destroy_conn_def Let_def server_more_eq t [symmetric] list_update_append)
  qed
qed

lemma accept_texts:
  assumes "loop_inv tc E s" and "accepts_fresh s" and "accept_new_connections a s = (Ret (), s')"
  shows "texts_kept s s'"
  using assms
proof (induction a s rule: accept_new_connections.induct)
  case (1 a s)
  have l: "sock_fd (listen_socket s) \<in> open_fds s" by (rule infra_open [OF 1(2)])
  note step = 1(4) [unfolded accept_new_connections.simps [of a s]]
  show ?case
  proof (cases "accept_script s")
    case Nil
    with step l show ?thesis by (auto simp: socket_accept_def sys_accept4_def no_socket_def is_valid_def)
  next
    case (Cons ev rest)
    show ?thesis
    proof (cases ev)
      case (Acc_err e)
      with Cons step l show ?thesis
        by (auto simp: socket_accept_def sys_accept4_def no_socket_def is_valid_def intro!: texts_kept_same split: if_splits)
    next
      case (Acc_ok f rx1 tx1)
      with Cons 1(3) have f: "0 \<le> f" "f \<notin> open_fds s" "f \<notin> set (accept_fds rest)"
        and rest: "distinct (accept_fds rest)" "\<forall>g \<in> set (accept_fds rest). 0 \<le> g \<and> g \<notin> open_fds s"
        by (auto simp: accepts_fresh_def)
      obtain s1 where s1: "socket_accept (listen_socket s) s = (Ret \<lparr>sock_fd = f\<rparr>, s1)" "accept_script s1 = rest"
        "open_fds s1 = insert f (open_fds s)" "interest s1 = (interest s)(f := None)" "kernel.more s1 = kernel.more s"
        using socket_accept_new [OF l, of f rx1 tx1 rest] Cons Acc_ok by auto
      have sent1: "sent s1 = (sent s)(f := [])"
        using s1(1) l Cons Acc_ok by (auto simp: socket_accept_def sys_accept4_def)
      note i1 = accepted_inv [OF 1(2) f(2,1) s1(5,3,4)]
      from s1(5) have m: "connections s1 = connections s" "heap s1 = heap s" by (simp_all only: server_more_eq)
      have t1: "texts_kept s s1"
        using i1(2) m sent1 by (fastforce simp: texts_kept_def text_kept_def no_transfer_def text_of_def)
      from accept_one_inv [OF i1(1) f(1), of a] i1(2) s1(4) m obtain s2 where
        s2: "accept_one a \<lparr>sock_fd = f\<rparr> s1 = (Ret (), s2)" "loop_inv tc E s2" "accept_script s2 = rest"
          "open_fds s2 \<subseteq> insert f (open_fds s)" using s1(2,3) by auto
      have len: "p < length (heap s1)" if "(g, p) \<in> set (connections s1)" for g p
        using inv_entry(1) [OF 1(2)] that m by simp
      have "texts_kept s1 s2"
        using accept_one_text [OF s2(1)] len sent1
        by (auto simp: texts_kept_def text_kept_def text_new_def no_transfer_def text_of_def nth_append)
      with t1 have t2: "texts_kept s s2" by (rule texts_kept_trans)
      have v: "is_valid \<lparr>sock_fd = f\<rparr>" using f(1) by (simp add: is_valid_def INVALID_FD_def)
      have "accepts_fresh s2" using s2(3,4) rest f(3) by (auto simp: accepts_fresh_def)
      moreover have "accept_new_connections a s2 = (Ret (), s')" using step s1(1) v s2(1) by simp
      ultimately have "texts_kept s2 s'"
        using 1(1) [OF s1(1) [symmetric] refl _ s2(1) [symmetric] refl s2(2)] v by simp
      with t2 show ?thesis by (rule texts_kept_trans)
    qed
  qed
qed

context text_client
begin

lemma handle_event_texts:
  assumes "loop_inv tc E s" and "accepts_fresh s" and "\<forall>p. read_cb a p = Some (on_read p)"
    and "handle_event a e s = (Ret (), s')" and "\<forall>g \<in># E. 0 \<le> g" and "ev_fd e = sock_fd (listen_socket s) \<or> ev_fd e \<noteq> wakeup_fd s"
  shows "texts_kept s s'"
proof (cases "ev_fd e = sock_fd (listen_socket s)")
  case True
  with assms(4) accept_texts [OF assms(1,2), of a s'] show ?thesis by (simp add: handle_event_def)
next
  case False
  show ?thesis
  proof (cases "map_of (connections s) (ev_fd e)")
    case (Some p)
    then have "(ev_fd e, p) \<in> set (connections s)" by (rule map_of_SomeD)
    from conn_event_texts [OF assms(1) this _ _ assms(5), of a s'] Some False assms(3,4,6) show ?thesis
      by (simp add: handle_event_def)
  qed (use False assms(4,6) in \<open>simp add: handle_event_def\<close>)
qed

end

section \<open>The end of a round\<close>

lemma reap_texts: "texts_kept s (reap s)"
proof -
  have "heap (fold remove_connection fs s) = heap s \<and> set (connections (fold remove_connection fs s)) \<subseteq> set (connections s) \<and>
      sent (fold remove_connection fs s) = sent s" for fs
  proof (induction fs arbitrary: s)
    case (Cons f fs)
    have "heap (remove_connection f s) = heap s" "set (connections (remove_connection f s)) \<subseteq> set (connections s)"
      "sent (remove_connection f s) = sent s"
      by (auto simp: remove_connection_def Let_def epoll_remove_eq AList.delete_eq)
    with Cons [of "remove_connection f s"] show ?case by auto
  qed simp
  then show ?thesis unfolding reap_def by (intro texts_kept_same) auto
qed

section \<open>Delivering\<close>

lemma hand_over_text:
  assumes "bufs_ok (heap s ! p)" and "hand_over pw p s = (Ret (), s')"
  shows "sent s' = sent s \<and> connections s' = connections s \<and> (\<exists>c. heap s' = (heap s)[p := c] \<and> (pw_file_fd pw < 0 \<longrightarrow>
    sendfile_op c = sendfile_op (heap s ! p) \<and> readable (write_buf c) = readable (write_buf (heap s ! p)) @ pw_data pw))"
proof -
  from enqueue_write_ok [of "heap s ! p" "pw_data pw"] assms(1) obtain b where
    "enqueue_write (pw_data pw) (heap s ! p) = Ret ((heap s ! p)\<lparr>write_buf := b, state := Writing\<rparr>)"
    "readable b = readable (write_buf (heap s ! p)) @ pw_data pw" by (auto simp: bufs_ok_def)
  with assms(2) show ?thesis by (auto simp: hand_over_def begin_sendfile_def split: if_splits)
qed

text \<open>A pending write adds its data to the text of its connection, and changes no other.\<close>

lemma deliver_one_texts:
  assumes "loop_inv tc (owns (pw_file_fd pw) + E) s" and "\<forall>p. pw_conn pw = Some p \<longrightarrow> ref_ok s p"
    and "deliver_one pw s = (Ret (), s')"
  shows "connections s' = connections s \<and> length (heap s) \<le> length (heap s') \<and>
    (\<forall>(f, p) \<in> set (connections s). state (heap s' ! p) \<noteq> Closed \<longrightarrow>
      (if pw_conn pw = Some p
       then state (heap s ! p) \<noteq> Closed \<and> (pw_file_fd pw < 0 \<and> no_transfer p s \<longrightarrow> no_transfer p s' \<and> text_of f p s' = text_of f p s @ pw_data pw)
       else text_kept s s' f p))"
proof -
  let ?dead = "case pw_conn pw of None \<Rightarrow> True | Some p \<Rightarrow> \<not> is_alive (heap s ! p)"
  show ?thesis
  proof (cases ?dead)
    case True
    then have "s' = (if 0 \<le> pw_file_fd pw then Kernel.sys_close (pw_file_fd pw) s else s)"
      using assms(3) by (simp add: deliver_one_def)
    then have "heap s' = heap s" "connections s' = connections s" "sent s' = sent s" by (simp_all add: Kernel.sys_close_def)
    with True show ?thesis
      by (auto simp: text_kept_def no_transfer_def text_of_def is_alive_def)
  next
    case False
    then obtain p where p: "pw_conn pw = Some p" "state (heap s ! p) \<noteq> Closed"
      by (auto simp: is_alive_def split: option.splits)
    with assms(2) obtain f where f: "(f, p) \<in> set (connections s)" by (force simp: ref_ok_def)
    from hand_over_inv [OF assms(1) f p(2)] obtain s1 where
      s1: "hand_over pw p s = (Ret (), s1)" "loop_inv tc E s1" "state (heap s1 ! p) \<noteq> Closed" by blast
    from hand_over_text [OF inv_entry(2) [OF assms(1) f] s1(1)] obtain c where
      h: "sent s1 = sent s" "connections s1 = connections s" "heap s1 = (heap s)[p := c]"
        "pw_file_fd pw < 0 \<longrightarrow> sendfile_op c = sendfile_op (heap s ! p) \<and>
          readable (write_buf c) = readable (write_buf (heap s ! p)) @ pw_data pw" by blast
    have f1: "(f, p) \<in> set (connections s1)" using f h(2) by simp
    from flush_conn_inv [OF s1(2) f1 s1(3)] obtain left s2 where s2: "flush_conn p s1 = (Ret left, s2)" "loop_frame tc p s1 s2" by blast
    have d: "(Ret (), s') = (if 0 < left
        then epoll_modify (conn_fd (heap s2 ! p)) (EPOLLIN OR EPOLLOUT OR EPOLLET OR EPOLLRDHUP) s2 else (Ret (), s2))"
      using False p(1) s1(1) s2(1) assms(3) by (simp add: deliver_one_def)
    have "texts_kept s2 s'" using d epoll_modify_texts [of _ _ s2 "Ret ()" s'] by (auto split: if_splits)
    with flush_conn_texts [OF s1(2) f1 s1(3) s2(1)] have t: "texts_kept s1 s'" by (rule texts_kept_trans)
    have "kernel.more s' = kernel.more s2" using d kernel_op_more(2) by (metis snd_conv)
    then have c: "connections s' = connections s" using s2(2) h(2) by (simp add: loop_frame_def server_more_eq)
    have pl: "p < length (heap s)" by (rule inv_entry(1) [OF assms(1) f])
    have k: "text_kept s1 s' g q" if "(g, q) \<in> set (connections s)" "state (heap s' ! q) \<noteq> Closed" for g q
      using t that c h(3) inv_entry(1) [OF assms(1) that(1)] by (fastforce simp: texts_kept_def text_new_def)
    show ?thesis
    proof (intro conjI ballI, goal_cases)
      case 1
      show ?case by (rule c)
    next
      case 2
      show ?case using t h(3) by (simp add: texts_kept_def)
    next
      case (3 x)
      obtain g q where x: "x = (g, q)" by force
      show ?case
      proof (cases "q = p")
        case True
        with k [of g q] 3 x p h pl show ?thesis by (auto simp: text_kept_def no_transfer_def text_of_def)
      next
        case False
        with k [of g q] 3 x p h show ?thesis by (auto simp: text_kept_def no_transfer_def text_of_def)
      qed
    qed
  qed
qed

end
