(* ===== verification/Server_Streams.thy ===== *)
theory Server_Streams
  imports Server_Answers Event_Loop_Text
begin

text \<open>
  The responses delivered in a run, and what the clients get of them: an open connection has sent,
  or still holds, the responses delivered to it, one after the other and nothing else, whatever
  the other connections, the workers and the kernel do.
\<close>

section \<open>The read callback sends nothing\<close>

lemma read_callback_text:
  assumes "read_callback ord mv p c s = (r, s')"
  shows "sent s' = sent s \<and> heap s' = heap s \<and> connections s' = connections s \<and> (\<forall>c'. r = Ret c' \<longrightarrow>
    write_buf c' = write_buf c \<and> sendfile_op c' = sendfile_op c \<and> state c' = state c)"
proof -
  obtain res ps where f: "feed (readable (read_buf c)) (parser_of s p) = (res, ps)" by force
  have sp: "sent (set_parser q x s) = sent s" "heap (set_parser q x s) = heap s" "connections (set_parser q x s) = connections s" for q x
    by (simp_all add: set_parser_def)
  note cb = read_callback_eq [OF f, of ord mv]
  show ?thesis
  proof (cases res)
    case Incomplete
    with cb assms show ?thesis by (auto simp: sp)
  next
    case Complete
    let ?t = "Handle_request (p_request ps) p (wants_keep_alive (p_request ps))"
    obtain r1 s1 where s1: "submit_task ?t (set_parser p (reset ps) s) = (r1, s1)" by force
    then have "sent s1 = sent s" "heap s1 = heap s" "connections s1 = connections s"
      by (auto simp: submit_task_def sp split: res.splits)
    with cb Complete assms s1 show ?thesis by (cases r1) (auto simp: set_keep_alive_def)
  next
    case Error
    let ?d = "serialize ord (make_error BadRequest (p_error ps))"
    obtain r1 s1 where s1: "post_response (Some p) ?d (-1) 0 (set_parser p ps s) = (r1, s1)" by force
    then have "sent s1 = sent s" "heap s1 = heap s" "connections s1 = connections s"
      by (auto simp: post_response_def sp sys_eventfd_write_def split: res.splits)
    with cb Error assms s1 show ?thesis by (cases r1) (auto simp: set_keep_alive_def)
  qed
qed

interpretation web_text: text_client "read_callback ord mv" task_conn
  by unfold_locales (rule read_callback_text)

section \<open>Steps of the threads\<close>

lemma thread_step_texts:
  assumes "thread_step ord mv router m m'" and "machine_inv m" and "router_ok router" and "\<forall>pw. \<not> deliver_step pw m m'"
  shows "texts_kept (shared m) (shared m')"
proof -
  have i: "loop_inv task_conn (hand_fds m) (shared m)" using assms(2) by (simp add: machine_inv_def)
  from assms(1) show ?thesis
  proof cases
    case (t_wait evs ep s1)
    have "heap s1 = heap (shared m)" "connections s1 = connections (shared m)" "sent s1 = sent (shared m)"
      using t_wait(3) by (auto simp: epoll_wait_def sys_epoll_wait_def Let_def bind_st_def
        split: list.splits ready_event.splits sum.splits res.splits if_splits prod.splits)
    then show ?thesis by (intro texts_kept_same) (simp_all add: t_wait(1))
  next
    case (t_event e s1)
    have "\<forall>p. read_cb (web_app ord mv) p = Some (read_callback ord mv p)" by (simp add: web_app_def)
    from web_text.handle_event_texts [OF i t_event(4) this t_event(5) hand_fds_nonneg t_event(3)] t_event(1) show ?thesis by simp
  next
    case t_reap
    with reap_texts [of "shared m"] show ?thesis by simp
  next
    case (t_drain pw q s1)
    then have "deliver_step pw m m'" by (auto simp: deliver_step_def)
    with assms(4) show ?thesis by blast
  next
    case (t_take i s1)
    then show ?thesis by (intro texts_kept_same) (auto simp: worker_begin_def split: res.splits)
  next
    case (t_dispatch i t found resp s1)
    with dispatch_opens [OF assms(3) t_dispatch(3)] show ?thesis
      by (intro texts_kept_same) (simp_all add: handler_opens_def quiet_def server_more_eq)
  next
    case (t_throw i t err s1)
    with dispatch_opens [OF assms(3) t_throw(3)] show ?thesis
      by (intro texts_kept_same) (simp_all add: handler_opens_def quiet_def server_more_eq)
  next
    case (t_outside s1)
    then show ?thesis by (intro texts_kept_same) (simp_all add: quiet_def server_more_eq)
  qed (intro texts_kept_same; simp add: sys_eventfd_read_def sys_eventfd_write_def signal_handler_def stop_def task_done_def)+
qed

section \<open>Runs with the responses delivered\<close>

inductive logged ::
  "header_order \<Rightarrow> HttpRequest \<Rightarrow> web_server Router \<Rightarrow> machine \<Rightarrow> PendingWrite list \<Rightarrow> bool"
  for ord :: header_order and mv :: HttpRequest and router :: "web_server Router" where
  log_start: "machine_start m \<Longrightarrow> logged ord mv router m []"
| log_deliver: "logged ord mv router m ds \<Longrightarrow> deliver_step pw m m' \<Longrightarrow> logged ord mv router m' (ds @ [pw])"
| log_other: "logged ord mv router m ds \<Longrightarrow> thread_step ord mv router m m' \<Longrightarrow> \<forall>pw. \<not> deliver_step pw m m' \<Longrightarrow>
    logged ord mv router m' ds"

lemma logged_reachable: "logged ord mv router m ds \<Longrightarrow> reachable machine_start (thread_step ord mv router) m"
  by (induction rule: logged.induct) (auto intro: reach_init reach_step deliver_thread)

lemma reachable_logged: "reachable machine_start (thread_step ord mv router) m \<Longrightarrow> \<exists>ds. logged ord mv router m ds"
  by (induction rule: reachable.induct) (blast intro: log_start log_deliver log_other)+

definition sent_to :: "ConnectionPtr \<Rightarrow> PendingWrite list \<Rightarrow> PendingWrite list" where
  "sent_to p ds = filter (\<lambda>pw. pw_conn pw = Some p) ds"

definition texts_ok :: "web_server \<Rightarrow> PendingWrite list \<Rightarrow> bool" where
  "texts_ok s ds \<longleftrightarrow> (\<forall>pw \<in> set ds. \<forall>p. pw_conn pw = Some p \<longrightarrow> p < length (heap s)) \<and>
     (\<forall>(f, p) \<in> set (connections s). state (heap s ! p) \<noteq> Closed \<and> (\<forall>pw \<in> set (sent_to p ds). pw_file_fd pw < 0) \<longrightarrow>
        no_transfer p s \<and> text_of f p s = concat (map pw_data (sent_to p ds)))"

lemma sent_to_new: "\<forall>pw \<in> set ds. \<forall>p. pw_conn pw = Some p \<longrightarrow> p < n \<Longrightarrow> n \<le> p \<Longrightarrow> sent_to p ds = []"
  by (auto simp: sent_to_def filter_empty_conv)

lemma texts_ok_kept:
  assumes "texts_ok s ds" and "texts_kept s s'"
  shows "texts_ok s' ds"
  unfolding texts_ok_def
proof (intro conjI, goal_cases)
  case 1
  show ?case using assms by (fastforce simp: texts_ok_def texts_kept_def)
next
  case 2
  have "no_transfer p s' \<and> text_of f p s' = concat (map pw_data (sent_to p ds))"
    if "(f, p) \<in> set (connections s')" "state (heap s' ! p) \<noteq> Closed" "\<forall>pw \<in> set (sent_to p ds). pw_file_fd pw < 0" for f p
  proof -
    from assms(2) that(1,2) consider "text_kept s s' f p" | "text_new s s' f p" by (auto simp: texts_kept_def)
    then show ?thesis
    proof cases
      case 1
      with assms(1) that(3) show ?thesis by (auto simp: texts_ok_def text_kept_def)
    next
      case 2
      then have "sent_to p ds = []" using assms(1) by (intro sent_to_new [of ds]) (auto simp: texts_ok_def text_new_def)
      with 2 show ?thesis by (simp add: text_new_def)
    qed
  qed
  then show ?case by blast
qed

lemma deliver_step_texts:
  assumes "deliver_step pw m m'" and "machine_inv m" and "texts_ok (shared m) ds"
  shows "texts_ok (shared m') (ds @ [pw])"
proof -
  obtain q s1 where d: "try_pop (pending_writes (shared m)) = (Some pw, q)"
    "deliver_one pw ((shared m)\<lparr>pending_writes := q\<rparr>) = (Ret (), s1)" "m' = m\<lparr>shared := s1\<rparr>"
    using assms(1) by (auto simp: deliver_step_def)
  let ?s = "(shared m)\<lparr>pending_writes := q\<rparr>"
  have i: "loop_inv task_conn (hand_fds m) (shared m)" using assms(2) by (simp add: machine_inv_def)
  note pop = popped_inv [OF i d(1)]
  note t = deliver_one_texts [OF pop d(2)]
  have ok: "texts_ok ?s ds" using assms(3) by (simp add: texts_ok_def no_transfer_def text_of_def)
  have "p < length (heap ?s)" if "pw_conn pw = Some p" for p using pop(2) that by (simp add: ref_ok_def)
  with ok t have "\<forall>pw \<in> set (ds @ [pw]). \<forall>p. pw_conn pw = Some p \<longrightarrow> p < length (heap s1)"
    by (fastforce simp: texts_ok_def)
  moreover have "no_transfer p s1 \<and> text_of f p s1 = concat (map pw_data (sent_to p (ds @ [pw])))"
    if "(f, p) \<in> set (connections s1)" "state (heap s1 ! p) \<noteq> Closed" "\<forall>pw \<in> set (sent_to p (ds @ [pw])). pw_file_fd pw < 0" for f p
  proof (cases "pw_conn pw = Some p")
    case True
    with t that ok show ?thesis by (fastforce simp: texts_ok_def sent_to_def)
  next
    case False
    with t that ok show ?thesis by (fastforce simp: texts_ok_def sent_to_def text_kept_def)
  qed
  ultimately show ?thesis using d(3) by (auto simp: texts_ok_def)
qed

lemma logged_texts:
  assumes "logged ord mv router m ds" and "router_ok router"
  shows "texts_ok (shared m) ds"
  using assms(1)
proof (induction rule: logged.induct)
  case (log_start m)
  then have "connections (shared m) = []"
    using ctor_inv [where tc = task_conn] unfolding machine_start_def server_start_def members_made_def by blast
  then show ?case by (simp add: texts_ok_def)
next
  case (log_deliver m ds pw m')
  have "machine_inv m" by (rule machine_reachable_inv [OF logged_reachable [OF log_deliver(1)] assms(2)])
  from deliver_step_texts [OF log_deliver(2) this log_deliver.IH] show ?case .
next
  case (log_other m ds m')
  have "machine_inv m" by (rule machine_reachable_inv [OF logged_reachable [OF log_other(1)] assms(2)])
  from texts_ok_kept [OF log_other.IH thread_step_texts [OF log_other(2) this assms(2) log_other(3)]] show ?case .
qed

text \<open>
  C3 A client reads the responses delivered to its connection: in every run of the threads, of the
  loop and of the outside world, with whatever answers of the kernel, what an open connection to
  which no file was given has been sent, followed by what its buffer holds, is the data of the
  responses delivered to it, in the order of their delivery: no byte is lost, repeated or
  reordered, nor does one of another connection, or of an earlier client with the same
  descriptor, get in between.
\<close>

theorem clients_read_responses:
  assumes "logged ord mv router m ds" and "router_ok router"
    and "(f, p) \<in> set (connections (shared m))" and "state (heap (shared m) ! p) \<noteq> Closed"
    and "\<forall>pw \<in> set ds. pw_conn pw = Some p \<longrightarrow> pw_file_fd pw < 0"
  shows "sent (shared m) f @ readable (write_buf (heap (shared m) ! p)) =
    concat (map pw_data (filter (\<lambda>pw. pw_conn pw = Some p) ds))"
  using logged_texts [OF assms(1,2)] assms(3-5) by (auto simp: texts_ok_def text_of_def sent_to_def)

text \<open>A client whose socket takes what it is offered keeps its connection while it is flushed.\<close>

lemma send_loop_stays:
  assumes "send_loop f b k = (Ret (st, b'), k')" and "f \<in> open_fds k" and "\<forall>ev \<in> set (tx k f). \<exists>n. ev = Tx_ok n"
  shows "st \<noteq> Gone"
  using assms
proof (induction f b k rule: send_loop.induct)
  case (1 f b k)
  show ?case
  proof (cases "buf_empty b")
    case True
    with 1(4) show ?thesis by (auto simp: send_loop.simps [of f b k])
  next
    case False
    show ?thesis
    proof (cases "tx k f")
      case Nil
      with 1(4,5) False show ?thesis by (simp add: send_loop.simps [of f b k] sys_send_def next_tx_def)
    next
      case (Cons ev rest)
      with 1(6) obtain n where ev: "ev = Tx_ok n" by auto
      let ?n = "length (take (n + 1) (readable b))"
      obtain k1 where k1: "sys_send f (readable b) k = (Inr ?n, k1)" "open_fds k1 = open_fds k" "tx k1 f = rest"
        using Cons ev 1(5) by (simp add: sys_send_def next_tx_def)
      note ih = 1(2,3) [OF False k1(1) [symmetric] refl]
      have ok: "f \<in> open_fds k1" "\<forall>ev \<in> set (tx k1 f). \<exists>n. ev = Tx_ok n" using 1(5,6) k1(2,3) Cons by auto
      show ?thesis
      proof (cases "0 < ?n")
        case True
        with 1(4) False k1(1) obtain b1 where "consume ?n b = Ret b1" "send_loop f b1 k1 = (Ret (st, b'), k')"
          by (cases "consume ?n b") (auto simp: send_loop.simps [of f b k])
        with ih(1) [OF True _ _ ok] show ?thesis by blast
      next
        case f: False
        with 1(4) False k1(1) have "send_loop f b k1 = (Ret (st, b'), k')" by (simp add: send_loop.simps [of f b k])
        with ih(2) [OF f _ ok] show ?thesis by blast
      qed
    qed
  qed
qed

lemma delivered_stays_open:
  assumes "pw_conn pw = Some p" and "pw_file_fd pw < 0" and "state (heap s ! p) \<noteq> Closed" and "bufs_ok (heap s ! p)"
    and "sendfile_op (heap s ! p) = None" and "conn_fd (heap s ! p) \<in> open_fds s" and "p < length (heap s)"
    and "\<forall>ev \<in> set (tx s (conn_fd (heap s ! p))). \<exists>n. ev = Tx_ok n" and "deliver_one pw s = (Ret (), s')"
  shows "state (heap s' ! p) \<noteq> Closed"
proof -
  let ?f = "conn_fd (heap s ! p)"
  from enqueue_write_ok [of "heap s ! p" "pw_data pw"] assms(4) obtain b where
    b: "enqueue_write (pw_data pw) (heap s ! p) = Ret ((heap s ! p)\<lparr>write_buf := b, state := Writing\<rparr>)" "buf_wf b"
    by (auto simp: bufs_ok_def)
  let ?c = "(heap s ! p)\<lparr>write_buf := b, state := Writing\<rparr>"
  obtain s1 where s1: "s1 = s\<lparr>heap := (heap s)[p := ?c]\<rparr>" by blast
  have h: "hand_over pw p s = (Ret (), s1)" using b(1) assms(2) by (simp add: hand_over_def s1)
  have c: "heap s1 ! p = ?c" "conn_fd ?c = ?f" using assms(7) by (simp_all add: s1 conn_fd_def)
  from send_loop_ok [OF b(2), of ?f s1] obtain st b1 k1 where
    sl: "send_loop ?f b s1 = (Ret (st, b1), k1)" by blast
  have "st \<noteq> Gone" using send_loop_stays [OF sl] assms(6,8) by (simp add: s1)
  then have fw: "flush_write (Some close_cb) ?c s1 = flush_finish (?c\<lparr>write_buf := b1\<rparr>) k1"
    using sl c(2) assms(5) by (cases st) (simp_all add: flush_write_def)
  obtain n c2 k2 where ff: "flush_finish (?c\<lparr>write_buf := b1\<rparr>) k1 = (Ret (n, c2), k2)" "state c2 \<noteq> Closed"
    by (simp add: flush_finish_def Let_def)
  have "heap k2 = heap s1" using flush_write_more [of ?c s1] fw ff(1) by (simp add: server_more_eq)
  then have fc: "flush_conn p s1 = (Ret n, k2\<lparr>heap := (heap s1)[p := c2]\<rparr>)"
    using fw ff(1) c(1) by (simp add: flush_conn_def call_conn_def)
  have "heap s' = (heap s1)[p := c2]"
    using assms(1,3,9) h fc kernel_op_more(2) [of _ _ "k2\<lparr>heap := (heap s1)[p := c2]\<rparr>"]
    by (auto simp: deliver_one_def is_alive_def server_more_eq split: if_splits dest!: arg_cong [where f = snd])
  with ff(2) assms(7) show ?thesis by (simp add: s1)
qed

text \<open>A client that sends a byte which is no request, and whose socket takes ten bytes, gets the error page.\<close>

lemma log_idle:
  "logged ord mv router m ds \<Longrightarrow> \<not> draining m \<Longrightarrow> thread_step ord mv router m m' \<Longrightarrow> logged ord mv router m' ds"
  by (rule log_other) (auto simp: deliver_step_def)

lemma garbage_answered:
  "\<exists>m pw. logged id empty_request health_router m [] \<and> draining m \<and> tq_queue (pending_writes (shared m)) = [pw] \<and>
     pw_conn pw = Some 0 \<and> pw_file_fd pw = -1 \<and> connections (shared m) = [(7, 0)] \<and> state (heap (shared m) ! 0) \<noteq> Closed \<and>
     sendfile_op (heap (shared m) ! 0) = None \<and> tx (shared m) 7 = [Tx_ok 9]"
proof -
  let ?L = "\<lambda>m. logged id empty_request health_router m []"
  have "machine_start (at_rest ready_web)" using ready_web_start by (simp add: machine_start_def at_rest_def)
  then have l0: "?L (at_rest ready_web)" by (rule log_start)
  have "accepts_fresh ready_web" by (simp add: accepts_fresh_def ready_web_eq)
  from t_event [of "at_rest ready_web" "\<lparr>ev_events = EPOLLIN, ev_fd = 3\<rparr>" id empty_request one_client health_router] this one_client_eq(1)
  have "thread_step id empty_request health_router (at_rest ready_web) ((at_rest ready_web)\<lparr>shared := one_client\<rparr>)"
    by (simp add: ready_web_eq)
  then have "thread_step id empty_request health_router (at_rest ready_web) (at_rest one_client)"
    using at_rest_shared [of one_client ready_web] by (simp add: ready_web_eq one_client_eq)
  then have l1: "?L (at_rest one_client)" by (rule log_idle [OF l0, rotated]) simp
  obtain a where a: "a = one_client\<lparr>rx := (rx one_client)(7 := [Rx_bytes ''x'']), tx := (tx one_client)(7 := [Tx_ok 9])\<rparr>" by blast
  let ?m2 = "(at_rest one_client)\<lparr>shared := a\<rparr>"
  have l2: "?L ?m2" by (rule log_idle [OF l1], simp, rule t_outside) (simp_all add: a quiet_def)
  have p0: "server.more one_client 0 = new_parser" using one_client_eq(13) by (simp add: parser_of_def)
  have sv: "serving a 7 0" "accepts_fresh a"
    by (simp_all add: serving_def a one_client_eq new_pool_def new_queue_def DEFAULT_CAPACITY_def accepts_fresh_def)
  have "fst (feed ''x'' new_parser) = Error" by code_simp
  then obtain ps where f: "feed ''x'' new_parser = (Error, ps)" by (metis prod.collapse)
  let ?d = "serialize id (make_error BadRequest (p_error ps))"
  let ?pw = "\<lparr>pw_conn = Some 0, pw_data = ?d, pw_file_fd = -1, pw_file_size = 0\<rparr>"
  let ?c = "touch a (heap a ! 0)"
  let ?s0 = "a\<lparr>rx := (rx a)(7 := [])\<rparr>"
  obtain q where q: "push ?pw (pending_writes a) = Ret (True, q)" "tq_queue q = [?pw]"
    by (simp add: a one_client_eq push_def new_queue_def TQ_DEFAULT_CAPACITY_def)
  let ?s2 = "sys_eventfd_write ((set_parser 0 ps ?s0)\<lparr>pending_writes := q\<rparr>)"
  let ?g = "\<lambda>b. ?c\<lparr>read_buf := consume_all b, keep_alive := False\<rparr>"
  have post: "post_response (Some 0) ?d (-1) 0 (set_parser 0 ps ?s0) = (Ret (), ?s2)"
    using q(1) by (simp add: post_response_def set_parser_def)
  have cb: "read_callback id empty_request 0 (?c\<lparr>read_buf := b\<rparr>) ?s0 = (Ret (?g b), ?s2)" if "readable b = ''x''" for b
  proof -
    have "feed (readable (read_buf (?c\<lparr>read_buf := b\<rparr>))) (parser_of ?s0 0) = (Error, ps)"
      using that f p0 by (simp add: parser_of_def a)
    from read_callback_eq [OF this, of id empty_request] post show ?thesis by simp
  qed
  have o: "conn_fd (heap a ! 0) = 7" "7 \<in> open_fds a" "rx a 7 = [Rx_bytes ''x'']" by (simp_all add: a one_client_eq)
  have "\<exists>b. buf_wf b \<and> readable b = ''x'' \<and>
      read_loop (Some (read_callback id empty_request 0)) (Some close_cb) [Rx_bytes ''x''] ?c ?s0 = (Ret (True, ?g b), ?s2)"
    using sv(1) o by (intro read_loop_single cb)
      (simp_all add: serving_def touch_def conn_fd_def a one_client_eq DEFAULT_CAPACITY_def sys_eventfd_write_def set_parser_def)
  then obtain b where b: "read_loop (Some (read_callback id empty_request 0)) (Some close_cb) [Rx_bytes ''x''] ?c ?s0 =
      (Ret (True, ?g b), ?s2)" by blast
  then have "on_readable (Some (read_callback id empty_request 0)) (Some close_cb) (heap a ! 0) a = (Ret (True, ?g b), ?s2)"
    using o by (simp add: on_readable_def rx_now_def rx_later_def)
  then have ev: "handle_event (web_app id empty_request) \<lparr>ev_events = EPOLLIN, ev_fd = 7\<rparr> a =
      (Ret (), ?s2\<lparr>heap := (heap ?s2)[0 := ?g b]\<rparr>)"
    using serving_event [OF sv(1) refl] by (simp add: call_conn_def)
  obtain u where u: "u = ?s2\<lparr>heap := (heap ?s2)[0 := ?g b]\<rparr>" by blast
  let ?m3 = "?m2\<lparr>shared := u\<rparr>"
  have "thread_step id empty_request health_router ?m2 ?m3"
    by (rule t_event [of _ "\<lparr>ev_events = EPOLLIN, ev_fd = 7\<rparr>"]) (use ev u sv(2) in \<open>simp_all add: a one_client_eq\<close>)
  then have l3: "?L ?m3" by (rule log_idle [OF l2, rotated]) simp
  let ?m4 = "?m3\<lparr>shared := sys_eventfd_read u, draining := True\<rparr>"
  have "thread_step id empty_request health_router ?m3 ?m4" using t_wake [of ?m3] by simp
  then have l4: "?L ?m4" by (rule log_idle [OF l3, rotated]) simp
  have len: "0 < length (heap a)" and st: "state (heap a ! 0) \<noteq> Closed" using sv(1) by (simp_all add: serving_def)
  have "sendfile_op (heap a ! 0) = None" by (simp add: a one_client_eq)
  with l4 len st q(2) show ?thesis
    by (intro exI [of _ ?m4] exI [of _ ?pw])
      (simp add: u sys_eventfd_read_def sys_eventfd_write_def set_parser_def touch_def a one_client_eq)
qed

theorem clients_read_responses_witness:
  "\<exists>m pw. logged id empty_request health_router m [pw] \<and> state (heap (shared m) ! 0) \<noteq> Closed \<and>
     sent (shared m) 7 @ readable (write_buf (heap (shared m) ! 0)) = pw_data pw"
proof -
  obtain m pw where m: "logged id empty_request health_router m []" "draining m" "tq_queue (pending_writes (shared m)) = [pw]"
    "pw_conn pw = Some 0" "pw_file_fd pw = -1" "connections (shared m) = [(7, 0)]" "state (heap (shared m) ! 0) \<noteq> Closed"
    "sendfile_op (heap (shared m) ! 0) = None" "tx (shared m) 7 = [Tx_ok 9]"
    using garbage_answered by blast
  have i: "loop_inv task_conn (hand_fds m) (shared m)"
    using machine_reachable_inv [OF logged_reachable [OF m(1)] health_router_ok] by (simp add: machine_inv_def)
  obtain q where tp: "try_pop (pending_writes (shared m)) = (Some pw, q)" using m(3) by (simp add: try_pop_def)
  let ?s = "(shared m)\<lparr>pending_writes := q\<rparr>"
  note pop = popped_inv [OF i tp]
  from deliver_one_inv [OF pop] obtain s1 where s1: "deliver_one pw ?s = (Ret (), s1)" by blast
  have e: "(7, 0) \<in> set (connections ?s)" using m(6) by simp
  note en = inv_entry [OF pop(1) e]
  have "state (heap s1 ! 0) \<noteq> Closed"
    by (rule delivered_stays_open [OF m(4) _ _ en(2) _ _ en(1) _ s1]) (use m(5,7,8,9) en(6) in simp_all)
  moreover have "connections s1 = [(7, 0)]" using deliver_one_texts [OF pop s1] m(6) by simp
  moreover have d: "deliver_step pw m (m\<lparr>shared := s1\<rparr>)" using m(2) tp s1 by (simp add: deliver_step_def)
  have l: "logged id empty_request health_router (m\<lparr>shared := s1\<rparr>) [pw]" using log_deliver [OF m(1) d] by simp
  ultimately show ?thesis
    using clients_read_responses [OF l health_router_ok, of 7 0] l m(4,5) by (intro exI [of _ "m\<lparr>shared := s1\<rparr>"] exI [of _ pw]) simp
qed

end
