(* ===== verification/Unit_Tests.thy ===== *)
theory Unit_Tests
  imports Http_Parser_Spec Http_Response_Spec Buffer Thread_Pool
begin

text \<open>
  The unit tests of the repository (\<open>tests/unit\<close>) run on the model: one lemma for each test,
  with its calls and its expectations, proved by evaluation. Where the code does not do what the
  test expects the lemma states what it does. The tests of the logger only say that spdlog does
  not throw, \<open>ConcurrentTasksRunInParallel\<close> measures time: they are left out.
\<close>

section \<open>Scripts of calls\<close>

definition lines_of :: "string list \<Rightarrow> string" where
  "lines_of ls = concat (map (\<lambda>l. l @ CRLF) ls)"

text \<open>The answers of a parser that is fed one string after the other.\<close>

fun feed_script :: "string list \<Rightarrow> HttpParser \<Rightarrow> Result list \<times> HttpParser" where
  "feed_script [] p = ([], p)"
| "feed_script (d # ds) p =
     (case feed d p of (r, p1) \<Rightarrow> case feed_script ds p1 of (rs, p2) \<Rightarrow> (r # rs, p2))"

datatype buffer_call = Write string | Consume nat | Consume_all | Compact | Reserve nat | Reset

fun buffer_do :: "buffer_call \<Rightarrow> Buffer \<Rightarrow> Buffer res" where
  "buffer_do (Write xs) b = append_bytes xs b"
| "buffer_do (Consume n) b = consume n b"
| "buffer_do Consume_all b = Ret (consume_all b)"
| "buffer_do Compact b = Ret (snd (compact b))"
| "buffer_do (Reserve n) b = Ret (reserve n b)"
| "buffer_do Reset b = Ret (buf_reset b)"

fun buffer_script :: "buffer_call list \<Rightarrow> Buffer \<Rightarrow> Buffer res" where
  "buffer_script [] b = Ret b"
| "buffer_script (c # cs) b = res_bind (buffer_do c b) (buffer_script cs)"

definition buffer_test :: "buffer_call list \<Rightarrow> (Buffer \<Rightarrow> bool) \<Rightarrow> bool" where
  "buffer_test cs expect = (case buffer_script cs (new_buffer 256) of Ret b \<Rightarrow> expect b | _ \<Rightarrow> False)"

section \<open>\<open>test_buffer.cpp\<close>\<close>

lemma test_InitiallyEmpty:
  "buffer_test [] (\<lambda>b. buf_empty b \<and> readable_bytes b = 0 \<and> writable_bytes b = 256 \<and> capacity b = 256)"
  by code_simp

lemma test_WriteAndRead:
  "buffer_test [Write ''Hello, World!'']
     (\<lambda>b. readable_bytes b = 13 \<and> \<not> buf_empty b \<and> readable b = ''Hello, World!'')"
  by code_simp

lemma test_ConsumeAdvancesCursor:
  "buffer_test [Write ''ABCDE'', Consume 2] (\<lambda>b. readable_bytes b = 3 \<and> readable b = ''CDE'')"
  by code_simp

lemma test_ConsumeAllResetsCorrectly:
  "buffer_test [Write ''test'', Consume_all]
     (\<lambda>b. buf_empty b \<and> readable_bytes b = 0 \<and> writable_bytes b = 256)"
  by code_simp

lemma test_CompactRecoversDeadZone:
  "buffer_test [Write ''Hello'', Consume 3]
     (\<lambda>b. case compact b of (recovered, b1) \<Rightarrow> recovered = 3 \<and> readable_bytes b1 = 2 \<and> readable b1 = ''lo'')"
  by code_simp

lemma test_CompactOnEmptyIsNoop:
  "buffer_test [] (\<lambda>b. case compact b of (recovered, b1) \<Rightarrow> recovered = 0 \<and> writable_bytes b1 = 256)"
  by code_simp

lemma test_ReserveGrowsCapacity:
  "buffer_test [Write ''data'', Reserve 1024] (\<lambda>b. 1024 \<le> capacity b \<and> readable_bytes b = 4)"
  by (simp add: buffer_test_def new_buffer_def append_bytes_def buffer_defs)

lemma test_ReserveSmallerThanCapacityIsNoop:
  "buffer_test [Reserve 16] (\<lambda>b. capacity b = 256)"
  by code_simp

lemma test_ResetClearsCursors:
  "buffer_test [Write ''data'', Consume 2, Reset] (\<lambda>b. buf_empty b \<and> writable_bytes b = 256)"
  by code_simp

lemma test_WritableSpaceDecrementsCorrectly:
  "buffer_test [Write ''XYZ''] (\<lambda>b. writable_bytes b = 256 - 3)"
  by code_simp

lemma test_MultipleWriteAndConsumeRoundtrips:
  "buffer_test (concat (map (\<lambda>i. let msg = ''msg'' @ to_string i in [Write msg, Consume (length msg), Compact]) [0..<10]))
     buf_empty"
  by code_simp

section \<open>\<open>test_http_parser.cpp\<close>\<close>

lemma test_ParsesSimpleGetRequest:
  "case feed (lines_of [''GET /index.html HTTP/1.1'', ''Host: localhost'', []]) new_parser of (r, p) \<Rightarrow>
     r = Complete \<and> req_method (p_request p) = GET \<and> req_path (p_request p) = ''/index.html'' \<and>
     req_version (p_request p) = ''HTTP/1.1''"
  by code_simp

lemma test_ParsesPostWithBody:
  "case feed (lines_of [''POST /submit HTTP/1.1'', ''Host: localhost'', ''Content-Length: 11'',
       ''Content-Type: application/x-www-form-urlencoded'', []] @ ''hello=world'') new_parser of (r, p) \<Rightarrow>
     r = Complete \<and> req_method (p_request p) = POST \<and> req_path (p_request p) = ''/submit'' \<and>
     req_body (p_request p) = ''hello=world''"
  by code_simp

lemma test_HeadersAreLowercased:
  "case feed (lines_of [''GET / HTTP/1.1'', ''Host: example.com'', ''X-Custom-Header: VALUE'', []]) new_parser of (r, p) \<Rightarrow>
     r = Complete \<and> header (p_request p) ''host'' = Some ''example.com'' \<and>
     header (p_request p) ''x-custom-header'' = Some ''VALUE''"
  by code_simp

lemma test_HeaderValuesAreTrimmed:
  "case feed (lines_of [''GET / HTTP/1.1'', ''Host:   localhost   '', []]) new_parser of (r, p) \<Rightarrow>
     r = Complete \<and> header (p_request p) ''host'' = Some ''localhost''"
  by code_simp

text \<open>
  The next two tests fail: a fragment of a line is parsed as a line. After the error the parser
  is complete, so every later \<open>feed\<close> says so.
\<close>

lemma test_HandlesPartialRequestLine_fails:
  "fst (feed_script [''GET /index'', ''.html HTTP/1.1'' @ CRLF, ''Host: localhost'' @ CRLF @ CRLF] new_parser) =
     [Error, Complete, Complete]"
  by code_simp

lemma test_HandlesOneByteFeed_fails:
  "fst (feed_script (map (\<lambda>c. [c]) (lines_of [''GET / HTTP/1.1'', ''Host: x'', []])) new_parser) =
     Error # replicate 26 Complete"
  by code_simp

lemma test_HandlesPartialBody:
  "case feed_script [lines_of [''POST / HTTP/1.1'', ''Content-Length: 5'', []], ''hel'', ''lo''] new_parser of (rs, p) \<Rightarrow>
     rs = [Incomplete, Incomplete, Complete] \<and> req_body (p_request p) = ''hello''"
  by code_simp

lemma test_RejectsMalformedRequestLine:
  "case feed (lines_of [''BADREQUEST'', []]) new_parser of (r, p) \<Rightarrow> r = Error \<and> p_error p \<noteq> []"
  by code_simp

lemma test_RejectsUnknownMethod:
  "fst (feed (lines_of [''BREW /coffee HTTP/1.1'', []]) new_parser) = Error"
  by code_simp

lemma test_RejectsUnsupportedVersion:
  "case feed (lines_of [''GET / HTTP/2.0'', []]) new_parser of (r, p) \<Rightarrow>
     r = Error \<and> starts_with (p_error p) ''unsupported''"
  by code_simp

lemma test_RejectsMalformedHeader:
  "fst (feed (lines_of [''GET / HTTP/1.1'', ''BadHeader'', []]) new_parser) = Error"
  by code_simp

lemma test_ResetAllowsReuse:
  "let req = lines_of [''GET / HTTP/1.1'', ''Host: a'', []]; (r1, p1) = feed req new_parser; (r2, p2) = feed req (reset p1)
   in r1 = Complete \<and> r2 = Complete \<and> req_method (p_request p2) = GET"
  by code_simp

lemma test_keep_alive:
  "let keep = (\<lambda>ls. wants_keep_alive (p_request (snd (feed (lines_of ls) new_parser))))
   in keep [''GET / HTTP/1.1'', ''Host: x'', []] \<and>
      \<not> keep [''GET / HTTP/1.1'', ''Host: x'', ''Connection: close'', []] \<and>
      \<not> keep [''GET / HTTP/1.0'', ''Host: x'', []]"
  by code_simp

section \<open>\<open>test_http_response.cpp\<close>\<close>

definition occurs :: "string \<Rightarrow> string \<Rightarrow> bool" where
  "occurs xs ys = list_ex (\<lambda>i. starts_with (drop i ys) xs) [0..<Suc (length ys)]"

lemma test_SerializesStatusLine:
  "take 15 (serialize id (set_status Ok new_response)) = ''HTTP/1.1 200 OK''"
  by code_simp

lemma test_AutoAddsContentLength:
  "occurs ''content-length: 5'' (serialize id (set_body ''hello'' ''text/plain'' new_response))"
  by code_simp

lemma test_BodyAppearsAfterBlankLine:
  "let out = serialize id (set_body ''test body'' ''text/plain'' new_response);
       sep = hd (List.filter (\<lambda>i. starts_with (drop i out) (CRLF @ CRLF)) [0..<length out])
   in drop (sep + 4) out = ''test body''"
  by code_simp

lemma test_MakeErrorSetsStatusAndBody:
  "let resp = make_error NotFound ''page missing''
   in status resp = NotFound \<and> occurs ''404'' (resp_body resp) \<and> occurs ''page missing'' (resp_body resp)"
  by code_simp

lemma test_MakeRedirectSetsLocation:
  "let resp = make_redirect ''/new/path''
   in status resp = MovedPermanently \<and> hm_get (resp_headers resp) ''location'' = Some ''/new/path''"
  by code_simp

lemma test_SetHeaderLowercasesName:
  "hm_get (resp_headers (set_header ''X-Custom'' ''value'' new_response)) ''x-custom'' = Some ''value''"
  by code_simp

section \<open>\<open>test_task_queue.cpp\<close>\<close>

definition pushed :: "'a list \<Rightarrow> 'a TaskQueue \<Rightarrow> 'a TaskQueue" where
  "pushed xs q = fold (\<lambda>x q. case push x q of Ret (ok, q1) \<Rightarrow> q1 | _ \<Rightarrow> q) xs q"

fun popped :: "nat \<Rightarrow> 'a TaskQueue \<Rightarrow> 'a option list" where
  "popped 0 q = []"
| "popped (Suc n) q = (case try_pop q of (x, q1) \<Rightarrow> x # popped n q1)"

lemma test_PushAndPopSingleThread:
  "case push (42::nat) (new_queue 16) of Ret (ok, q) \<Rightarrow> ok \<and> fst (try_pop q) = Some 42 | _ \<Rightarrow> False"
  by code_simp

lemma test_TryPopEmptyReturnsNullopt: "fst (try_pop (new_queue 16 :: nat TaskQueue)) = None"
  by code_simp

lemma test_TryPushFullReturnsFalse:
  "let (r1, q1) = try_push (1::nat) (new_queue 2); (r2, q2) = try_push 2 q1; (r3, q3) = try_push 3 q2
   in r1 \<and> r2 \<and> \<not> r3"
  by code_simp

text \<open>\<open>pop\<close> waits, and returns nothing once the queue is closed.\<close>

lemma test_CloseUnblocksPop:
  "pop (new_queue 16 :: nat TaskQueue) = Blocked \<and>
   (case pop (close (new_queue 16 :: nat TaskQueue)) of Ret (x, q) \<Rightarrow> x = None | _ \<Rightarrow> False)"
  by (simp add: pop_def new_queue_def close_def)

lemma test_FifoOrdering: "popped 5 (pushed [0..<5] (new_queue 16)) = map Some [0..<5]"
  by code_simp

lemma test_SizeReflectsContents:
  "let q = pushed [1, 2::nat] (new_queue 16)
   in tq_size (new_queue 16 :: nat TaskQueue) = 0 \<and> tq_size q = 2 \<and> tq_size (snd (try_pop q)) = 1"
  by code_simp

section \<open>\<open>test_thread_pool.cpp\<close>\<close>

text \<open>
  A schedule: worker \<open>i\<close> takes a task if it waits for one, or runs its task. That every
  schedule ends with all tasks done is shown in \<open>Thread_Pool\<close>; here one of them is run.
\<close>

definition turn :: "('t \<Rightarrow> 'w \<Rightarrow> unit res \<times> 'w) \<Rightarrow> nat \<Rightarrow> 't ThreadPool \<times> 'w \<Rightarrow> 't ThreadPool \<times> 'w" where
  "turn exec i s = (case s of (p, w) \<Rightarrow>
     (case workers p ! i of
        In_pop \<Rightarrow> (case worker_take i p of Ret p1 \<Rightarrow> (p1, w) | _ \<Rightarrow> (p, w))
      | Running t \<Rightarrow> (case worker_run exec i t p w of (Ret p1, w1) \<Rightarrow> (p1, w1) | (_, w1) \<Rightarrow> (p, w1))
      | Exited \<Rightarrow> (p, w)))"

lemma turn_step: "i < length (workers p) \<Longrightarrow> turn exec i (p, w) = (p', w') \<Longrightarrow> (p', w') \<noteq> (p, w) \<Longrightarrow>
    (\<forall>t w1 w2. exec t w1 \<noteq> (Blocked, w2)) \<Longrightarrow> worker_step exec (p, w) (p', w')"
  by (auto simp: turn_def split: worker.splits res.splits prod.splits intro: worker_step.intros)
    (auto simp: worker_run_def split: prod.splits res.splits)

definition pool_after :: "('t \<Rightarrow> 'w \<Rightarrow> unit res \<times> 'w) \<Rightarrow> nat \<Rightarrow> 't list \<Rightarrow> 'w \<Rightarrow> 't ThreadPool \<times> 'w" where
  "pool_after exec n ts w =
     (let p = fold (\<lambda>t p. case submit t p of Ret p1 \<Rightarrow> p1 | _ \<Rightarrow> p) ts (new_pool n 0)
      in fold (turn exec) (concat (replicate (length ts + 1) [0..<n])) (shutdown_begin p, w))"

lemma test_ExecutesSubmittedTasks:
  "case pool_after (\<lambda>t w. (Ret (), w + 1)) 2 (replicate 10 ()) (0::nat) of (p, w) \<Rightarrow> all_exited p \<and> w = 10"
  by code_simp

lemma test_HandlesExceptionsWithoutCrash:
  "case pool_after (\<lambda>t w. if t then (Throw (Runtime_error ''task error''), w) else (Ret (), w + 1)) 2 [True, False] (0::nat) of
     (p, w) \<Rightarrow> all_exited p \<and> w = 1"
  by code_simp

text \<open>The test expects one thread when the hardware concurrency is unknown; the code starts four.\<close>

lemma test_DefaultThreadCountIsHardwareConcurrency_fails:
  "thread_count (new_pool 0 0) = 4" "0 < hw \<Longrightarrow> thread_count (new_pool 0 hw) = max 1 hw"
  by (simp_all add: thread_count_def new_pool_def worker_count_def)

end
