(* ===== verification/Spec2Isabelle.thy ===== *)
theory Spec2Isabelle
  imports Server_Main Server_Streams Unit_Tests
begin

text \<open>
  A model of the web server \<open>cppws\<close> and the theorems about it.

  \<^bold>\<open>The program.\<close> One thread runs the event loop (\<open>core/event_loop.cpp\<close>): it waits on an
  epoll instance, accepts clients, reads from connections and writes to them. The read callback
  installed by \<open>main.cpp\<close> feeds each connection's parser; a complete request becomes a task of
  the thread pool. A worker thread runs the router's handler, serialises the response and posts it
  to the queue of pending writes, and wakes the loop through an eventfd. The loop hands the
  response, and for a static file its descriptor, to the connection, which sends it when the
  socket takes it. Shutdown closes the task queue and joins the workers.

  \<^bold>\<open>The theories\<close>, each with the files it models:
  \<^item> \<open>Server_Prelude\<close>: results with exceptions and waiting (\<open>res\<close>: \<open>Ret\<close>, \<open>Throw\<close>,
    \<open>Blocked\<close>), state passing, characters and string searching, decimal numbers.
  \<^item> \<open>Transition_System\<close>: reachable states; the locales \<open>inductive_invariant\<close> and
    \<open>decreasing_system\<close> that the state machines below interpret.
  \<^item> \<open>Header_Map\<close>: the header container (\<open>std::unordered_map\<close>); locale \<open>string_map\<close>.
  \<^item> \<open>Http_Request\<close> (\<open>http/request\<close>), \<open>Http_Parser\<close> (\<open>http/parser\<close>) with
    \<open>Http_Parser_Proofs\<close> and \<open>Http_Parser_Spec\<close>, \<open>Http_Response\<close> (\<open>http/response\<close>)
    with \<open>Http_Response_Spec\<close>, \<open>Mime\<close> (\<open>http/mime\<close>, \<open>std::lower_bound\<close>), \<open>Router\<close>
    (\<open>http/router\<close>), \<open>Static_Handler\<close> (\<open>http/static_handler\<close>, \<open>std::filesystem::path\<close>)
    with \<open>Static_Handler_Spec\<close>.
  \<^item> \<open>Kernel\<close>: the system calls; \<open>Owned_Fd\<close>: the contract of an object that owns a descriptor
    (locale \<open>fd_handle\<close>), met by \<open>Socket\<close> (\<open>net/socket\<close>), \<open>Epoll\<close> (\<open>net/epoll\<close>) and the
    file transfer of a connection.
  \<^item> \<open>Buffer\<close> (\<open>net/buffer\<close>; locale \<open>byte_queue\<close>), \<open>Connection\<close> (\<open>net/connection\<close>)
    with \<open>Connection_Proofs\<close> and \<open>Connection_Spec\<close>.
  \<^item> \<open>Task_Queue\<close> (\<open>core/task_queue.hpp\<close>; locale \<open>bounded_fifo\<close>), \<open>Thread_Pool\<close>
    (\<open>core/thread_pool\<close>).
  \<^item> \<open>Event_Loop\<close> (\<open>core/event_loop\<close>, \<open>core/pending_write.hpp\<close>) with
    \<open>Event_Loop_Shared\<close> (locale \<open>loop_guarantee\<close>), \<open>Event_Loop_Spec\<close>, \<open>Descriptors\<close>,
    \<open>Event_Loop_Inv\<close> (locale \<open>loop_client\<close>), \<open>Event_Loop_Run\<close> and \<open>Event_Loop_Text\<close> (locale
    \<open>text_client\<close>).
  \<^item> \<open>Main_App\<close> (\<open>main.cpp\<close>) with \<open>Server_Spec\<close>, \<open>End_To_End\<close>, \<open>Server_Inv\<close>,
    \<open>Server_Boot\<close>, \<open>Server_Threads\<close>, \<open>Server_Machine\<close>, \<open>Server_Shutdown\<close>,
    \<open>Server_Responses\<close>, \<open>Server_Tasks\<close>, \<open>Server_Progress\<close>, \<open>Server_Answers\<close>,
    \<open>Server_Streams\<close>, \<open>Server_Exit\<close> and \<open>Server_Main\<close>, which hold what is said of the whole server.
  \<^item> \<open>Logger\<close> (\<open>util/logger\<close>): the configuration handed to spdlog.
  \<^item> \<open>Unit_Tests\<close> (\<open>tests/unit\<close>): the tests of the repository, each evaluated in the model.

  \<^bold>\<open>State.\<close> A class is a record with its data members; a member function takes the record and
  returns the new one. The record \<open>server\<close> extends the record \<open>kernel\<close>, and the parsers of
  the connections are its extension field, so that each layer's functions act on every
  extension. A \<open>std::shared_ptr<Connection>\<close> is an index into the list \<open>heap\<close>. An
  exception is \<open>Throw\<close>, a failed assertion or an access out of bounds too; a call that waits is
  \<open>Blocked\<close>. Threads appear as steps of relations: the queue's monitor (\<open>mon_step\<close>), the pool
  (\<open>pool_step\<close>), the whole server (\<open>thread_step\<close>, one action on shared state at a time, and
  \<open>server_step\<close>, whole tasks and events, each of whose runs is a run of the threads).

  \<^bold>\<open>The kernel.\<close> What \<open>recv\<close>, \<open>send\<close>, \<open>sendfile\<close>, \<open>accept4\<close>, \<open>socket\<close> and
  \<open>epoll_wait\<close> answer is read from finite scripts, after whose end they answer \<open>EAGAIN\<close> (or time
  out). The scripts are arbitrary, so each theorem covers every finite interaction; the loops of
  the code end because each round uses up an answer, and need no fuel. The only other bound is the
  list \<open>env\<close> of \<open>run_loop\<close>, one entry for each round of the loop: \<open>run\<close> returns only when
  somebody calls \<open>stop\<close>. What is said of \<open>main\<close> takes the entries to be any runs of worker, signal
  and outside steps (\<open>others_do\<close>).

  \<^bold>\<open>Parameters\<close>: the iteration order of the header container, the value left in a moved-from
  request, the file system calls of the static handler (record \<open>file_system\<close>), the results of
  \<open>setsockopt\<close>, \<open>bind\<close>, \<open>listen\<close>, \<open>epoll_create1\<close> and \<open>eventfd\<close>. Hypotheses on them are
  the documented ones: descriptors returned are unused (\<open>fresh_start\<close>, \<open>accepts_fresh\<close>,
  \<open>fd_laws\<close>, \<open>fs_frame\<close>), the order only rearranges (\<open>iteration_order\<close>).

  \<^bold>\<open>What is shown.\<close>
  \<^item> The whole server: a request on an idle connection is answered (\<open>End_To_End\<close>); the bytes
    received have the effect of an abstract session (\<open>Server_Spec\<close>); in every reachable state
    descriptors have one owner, the map of connections is consistent, what is stored is well
    formed and of bounded size, only two kinds of exception can leave the loop and every wake-up
    drains the pending writes (\<open>Server_Machine\<close>); a queued response is always announced to the
    loop, but the loop can block on the queue that only it empties (\<open>Server_Responses\<close>); the pool
    inside the server is a run of the thread pool alone, so requests run once and start in order, but
    responses of one connection can come in another order, and threads wait for full queues only
    (\<open>Server_Tasks\<close>); the steps with which the server serves what it has been given end, by a
    measure on queues and phases, and where they end every request has been run and each
    connection has had one response for each of its requests whose handler returned, and never
    more (\<open>Server_Progress\<close>); what a connection is sent was made from its own requests
    (\<open>Server_Answers\<close>), and an open connection without files has sent, or holds, just the
    responses delivered to it, in their order (\<open>Server_Streams\<close>, over \<open>Event_Loop_Text\<close>); a failed
    constructor leaks nothing, shutdown discards responses and can hang (\<open>Server_Shutdown\<close>);
    however \<open>main\<close> is left, by the end of \<open>run\<close> or an exception, every descriptor is closed but
    those of discarded responses, and the exceptions that can end it are listed (\<open>Server_Exit\<close>,
    \<open>Server_Main\<close>).
    \<open>Event_Loop_Inv\<close> and \<open>Event_Loop_Run\<close> prove the invariant once, for any read callback with the
    contract \<open>loop_client\<close> and with descriptors in the hands of workers; \<open>Server_Inv\<close> shows that the
    callback, the router and the workers meet it. \<open>Event_Loop_Shared\<close> proves once what the loop
    changes of the state it shares with the workers; \<open>Server_Threads\<close> puts both together.
  \<^item> The parser: the lines accepted, parsing what a client wrote, independence of the chunks,
    bounds on memory, soundness of a complete request, and where it goes wrong.
  \<^item> Responses: what a client reads from the serialisation, the length declared.
  \<^item> Routing and files: exact routes before longest prefixes, confinement to the root, errors.
  \<^item> Buffer and connection: refinement of a byte queue, delivery under partial writes and errors,
    growth of buffers, one close for each descriptor.
  \<^item> Queue and pool: first in first out, capacity, no lost wake-up, tasks once and in order,
    shutdown drains the tasks.

  \<^bold>\<open>Not modelled\<close>: spdlog and the log calls (they change no state of the program), with the test of
  the logger; the memory model of the atomics and unsynchronised accesses (a step of a thread is one
  access to a shared queue or the eventfd, or what it does to state no other thread sees; between
  the rounds of \<open>run_loop\<close>, and so in what is said of \<open>main\<close>, a task is one step); descriptors 0 to
  2; exhaustion of memory; the \<open>std::thread\<close> constructor failing; build files and documents. Of the
  headers what is not in the map are declarations, include directives and comments.
\<close>

end
